(* ===== verification/Prelude.thy ===== *)
theory Prelude
  imports Main "HOL-Library.Word" "HOL-Library.AList" "HOL-Library.Multiset"
begin

text \<open>
  Shared vocabulary of the development: the machine types of the C++ sources, the model of
  \<open>std::unordered_map\<close>, the named collections of simplification rules, and the two generic
  interfaces (an event-driven machine with an invariant, and a FIFO hand-over queue) that the
  components of the server instantiate.
\<close>

section \<open>Machine types\<close>

type_synonym byte = "8 word"
type_synonym u16 = "16 word"
type_synonym u32 = "32 word"
type_synonym u64 = "64 word"
type_synonym bytes = "byte list"

type_synonym conn_id = u64
type_synonym player_id = u64
type_synonym room_id = u64

named_theorems umap_simps \<open>lookup, keys and distinctness of the unordered-map model\<close>
named_theorems invar_intros \<open>invariants established by constructors and kept by operations\<close>

section \<open>The model of std::unordered\_map\<close>

text \<open>
  An unordered map is an association list with distinct keys; the order of the list stands for
  the (unspecified) iteration order of the container. \<open>operator[]\<close> assignment replaces the value
  in place or adds the key, \<open>erase\<close> removes the key, \<open>find\<close> is \<^const>\<open>map_of\<close>.
\<close>

type_synonym ('k, 'v) umap = "('k \<times> 'v) list"

abbreviation uget :: "('k, 'v) umap \<Rightarrow> 'k \<Rightarrow> 'v option" where
  "uget m k \<equiv> map_of m k"

abbreviation uput :: "'k \<Rightarrow> 'v \<Rightarrow> ('k, 'v) umap \<Rightarrow> ('k, 'v) umap" where
  "uput k v m \<equiv> AList.update k v m"

abbreviation uerase :: "'k \<Rightarrow> ('k, 'v) umap \<Rightarrow> ('k, 'v) umap" where
  "uerase k m \<equiv> AList.delete k m"

abbreviation ukeys :: "('k, 'v) umap \<Rightarrow> 'k list" where
  "ukeys m \<equiv> map fst m"

definition umap_ok :: "('k, 'v) umap \<Rightarrow> bool" where
  "umap_ok m \<longleftrightarrow> distinct (ukeys m)"

lemma uget_uput [simp, umap_simps]: "uget (uput k v m) k' = (if k' = k then Some v else uget m k')"
  by (simp add: update_conv')

lemma uget_uerase [simp, umap_simps]: "uget (uerase k m) k' = (if k' = k then None else uget m k')"
  by (simp add: delete_conv')

lemma umap_ok_Nil [simp, invar_intros]: "umap_ok []"
  by (simp add: umap_ok_def)

lemma umap_ok_uput [simp, invar_intros]: "umap_ok m \<Longrightarrow> umap_ok (uput k v m)"
  by (simp add: umap_ok_def distinct_update)

lemma umap_ok_uerase [simp, invar_intros]: "umap_ok m \<Longrightarrow> umap_ok (uerase k m)"
  by (simp add: umap_ok_def distinct_delete)

lemma uget_mem: "umap_ok m \<Longrightarrow> uget m k = Some v \<longleftrightarrow> (k, v) \<in> set m"
  by (simp add: umap_ok_def)

lemma uget_in_keys: "uget m k \<noteq> None \<longleftrightarrow> k \<in> set (ukeys m)"
  by (auto simp: map_of_eq_None_iff)

lemma uget_in_keysD: "uget m k = Some v \<Longrightarrow> k \<in> set (ukeys m)"
  by (metis option.distinct(1) uget_in_keys)

lemma length_uput:
  "length (uput k v m) = (if uget m k = None then Suc (length m) else length m)"
  by (induction m) auto

lemma length_uerase:
  "umap_ok m \<Longrightarrow> length (uerase k m) = (if uget m k = None then length m else length m - 1)"
proof (induction m)
  case Nil
  then show ?case by simp
next
  case (Cons p m)
  obtain a b where p: "p = (a, b)" by (cases p)
  with Cons.prems have m: "umap_ok m" "uget m a = None"
    by (simp_all add: umap_ok_def map_of_eq_None_iff)
  have "uget m k \<noteq> None \<Longrightarrow> m \<noteq> []" by auto
  with Cons.IH [OF m(1)] m(2) p show ?case
    by (cases "uget m k") (auto simp: map_of_eq_None_iff Suc_diff_1)
qed

lemma uput_keys: "uget m k \<noteq> None \<Longrightarrow> ukeys (uput k v m) = ukeys m"
  by (induction m) auto

text \<open>Mapping a function over the values visits every key once and keeps the keys.\<close>

lemma uget_map_values: "uget (map (\<lambda>(k, v). (k, f k v)) m) k = map_option (f k) (uget m k)"
  by (induction m) auto

lemma ukeys_map_values: "ukeys (map (\<lambda>(k, v). (k, f k v)) m) = ukeys m"
  by (induction m) auto

lemma fst_map_values: "fst \<circ> (\<lambda>(k, v). (k, f k v)) = fst"
  by auto

lemma umap_ok_map_values [simp, invar_intros]:
  "umap_ok (map (\<lambda>(k, v). (k, f k v)) m) = umap_ok m"
  by (simp add: umap_ok_def fst_map_values)

lemma uget_filter:
  "umap_ok m \<Longrightarrow> uget (filter (\<lambda>(k, v). P k v) m) k =
     (case uget m k of None \<Rightarrow> None | Some v \<Rightarrow> if P k v then Some v else None)"
proof (induction m)
  case Nil
  then show ?case by simp
next
  case (Cons p m)
  have "k \<notin> set (ukeys m) \<Longrightarrow> uget (filter (\<lambda>(k, v). P k v) m) k = None"
    by (auto simp: map_of_eq_None_iff image_iff)
  with Cons show ?case
    by (cases p) (auto simp: umap_ok_def map_of_eq_None_iff split: option.splits)
qed

lemma umap_ok_filter [simp, invar_intros]: "umap_ok m \<Longrightarrow> umap_ok (filter P m)"
  by (induction m) (auto simp: umap_ok_def)

lemma umap_ok_Cons: "umap_ok ((k, v) # m) \<longleftrightarrow> uget m k = None \<and> umap_ok m"
  by (auto simp: umap_ok_def map_of_eq_None_iff)

section \<open>Results\<close>

text \<open>Sequencing of fallible steps: the first error ends the computation, as a throw does.\<close>

fun res_bind :: "'e + 'a \<Rightarrow> ('a \<Rightarrow> 'e + 'b) \<Rightarrow> 'e + 'b" where
  "res_bind (Inl e) f = Inl e"
| "res_bind (Inr x) f = f x"

lemma res_bind_Inr_iff: "res_bind m f = Inr y \<longleftrightarrow> (\<exists>x. m = Inr x \<and> f x = Inr y)"
  by (cases m) auto

lemma res_bind_Inl_iff: "res_bind m f = Inl e \<longleftrightarrow> m = Inl e \<or> (\<exists>x. m = Inr x \<and> f x = Inl e)"
  by (cases m) auto

lemma res_bind_Inr_right [simp]: "res_bind m Inr = m"
  by (cases m) auto

section \<open>Integer division and time\<close>

text \<open>\<open>int\<close> division rounds toward zero, and so does \<open>std::chrono::duration_cast\<close>.\<close>

definition int_quot :: "int \<Rightarrow> int \<Rightarrow> int" where
  "int_quot a b = sgn a * sgn b * (\<bar>a\<bar> div \<bar>b\<bar>)"

definition whole_seconds :: "int \<Rightarrow> int \<Rightarrow> int" where
  "whole_seconds now t = int_quot (now - t) 1000000000"

lemma whole_seconds_gt:
  assumes "0 \<le> n"
  shows "whole_seconds now t > n \<longleftrightarrow> now - t \<ge> (n + 1) * 1000000000"
proof (cases "now - t \<ge> 0")
  case True
  define q r where "q = (now - t) div 1000000000" and "r = (now - t) mod 1000000000"
  have "whole_seconds now t = q"
    using True by (cases "now = t") (simp_all add: whole_seconds_def int_quot_def q_def)
  moreover have "now - t = q * 1000000000 + r" "0 \<le> r" "r < 1000000000"
    by (simp_all add: q_def r_def)
  moreover have "n < q \<Longrightarrow> (n + 1) * 1000000000 \<le> q * 1000000000" by simp
  moreover have "q \<le> n \<Longrightarrow> q * 1000000000 + 1000000000 \<le> (n + 1) * 1000000000" by simp
  ultimately show ?thesis by (cases "n < q") simp_all
next
  case False
  then have "whole_seconds now t \<le> 0"
    by (simp add: whole_seconds_def int_quot_def pos_imp_zdiv_nonneg_iff)
  with assms False show ?thesis by simp
qed

section \<open>Event-driven machines\<close>

text \<open>
  A component whose operations are reactions to events: \<open>step\<close> is one operation, \<open>inv\<close> what every
  operation keeps for the events that \<open>ok\<close> admits. A whole run keeps the invariant.
\<close>

fun run_events :: "('s \<Rightarrow> 'e \<Rightarrow> 's) \<Rightarrow> 's \<Rightarrow> 'e list \<Rightarrow> 's" where
  "run_events step s [] = s"
| "run_events step s (e # es) = run_events step (step s e) es"

fun admitted :: "('s \<Rightarrow> 'e \<Rightarrow> 's) \<Rightarrow> ('s \<Rightarrow> 'e \<Rightarrow> bool) \<Rightarrow> 's \<Rightarrow> 'e list \<Rightarrow> bool" where
  "admitted step ok s [] = True"
| "admitted step ok s (e # es) = (ok s e \<and> admitted step ok (step s e) es)"

locale machine =
  fixes step :: "'s \<Rightarrow> 'e \<Rightarrow> 's"
    and ok :: "'s \<Rightarrow> 'e \<Rightarrow> bool"
    and inv :: "'s \<Rightarrow> bool"
  assumes step_inv: "inv s \<Longrightarrow> ok s e \<Longrightarrow> inv (step s e)"
begin

lemma run_inv: "inv s \<Longrightarrow> admitted step ok s es \<Longrightarrow> inv (run_events step s es)"
  by (induction es arbitrary: s) (auto intro: step_inv)

lemma prefix_inv:
  assumes "inv s" and "admitted step ok s (es @ fs)"
  shows "inv (run_events step s es)"
  using assms by (induction es arbitrary: s) (auto intro: step_inv)

end

lemma run_events_append: "run_events step s (es @ fs) = run_events step (run_events step s es) fs"
  by (induction es arbitrary: s) auto

lemma admitted_True: "(\<And>s e. ok s e) \<Longrightarrow> admitted step ok s es"
  by (induction es arbitrary: s) auto

section \<open>Hand-over queues\<close>

text \<open>
  Every cross-thread hand-over of the server (accepted connections, pending writes, room
  operations, battle commands) is a mutex-protected queue: producers push, the owning thread
  drains. The contract: draining returns what was pushed, in order, exactly once, and leaves the
  queue empty; pushes by several producers appear in the order of their critical sections.
\<close>

locale handover_queue =
  fixes push :: "'x \<Rightarrow> 'q \<Rightarrow> 'q"
    and drain :: "'q \<Rightarrow> 'x list \<times> 'q"
    and queued :: "'q \<Rightarrow> 'x list"
  assumes queued_push: "queued (push x q) = queued q @ [x]"
    and drain_result: "fst (drain q) = queued q"
    and drain_empties: "queued (snd (drain q)) = []"
begin

lemma queued_push_all: "queued (fold push xs q) = queued q @ xs"
  by (induction xs arbitrary: q) (auto simp: queued_push)

lemma drain_after_pushes: "fst (drain (fold push xs q)) = queued q @ xs"
  by (simp add: drain_result queued_push_all)

lemma drain_twice: "fst (drain (snd (drain q))) = []"
  by (simp add: drain_result drain_empties)

lemma no_loss_no_duplication:
  "fst (drain (fold push ys (snd (drain (fold push xs q))))) = ys"
  by (simp add: drain_result queued_push_all drain_empties)

end

section \<open>Functional refinement\<close>

text \<open>
  A component with observable outputs implements a simpler one: \<open>abs\<close> maps its states to those of
  the specification, and each operation commutes with it and has the same output. Runs then agree.
\<close>

fun run_ops :: "('o \<Rightarrow> 's \<Rightarrow> 'x \<times> 's) \<Rightarrow> 'o list \<Rightarrow> 's \<Rightarrow> 'x list \<times> 's" where
  "run_ops step [] s = ([], s)"
| "run_ops step (oper # opers) s =
     (let (x, s') = step oper s; (xs, s'') = run_ops step opers s' in (x # xs, s''))"

locale simulation =
  fixes cstep :: "'o \<Rightarrow> 'c \<Rightarrow> 'x \<times> 'c"
    and astep :: "'o \<Rightarrow> 'a \<Rightarrow> 'x \<times> 'a"
    and inv :: "'c \<Rightarrow> bool"
    and abs :: "'c \<Rightarrow> 'a"
  assumes cstep_inv: "inv c \<Longrightarrow> inv (snd (cstep oper c))"
    and cstep_abs: "inv c \<Longrightarrow> abs (snd (cstep oper c)) = snd (astep oper (abs c))"
    and cstep_out: "inv c \<Longrightarrow> fst (cstep oper c) = fst (astep oper (abs c))"
begin

lemma run_refines:
  "inv c \<Longrightarrow>
   inv (snd (run_ops cstep opers c)) \<and>
   abs (snd (run_ops cstep opers c)) = snd (run_ops astep opers (abs c)) \<and>
   fst (run_ops cstep opers c) = fst (run_ops astep opers (abs c))"
proof (induction opers arbitrary: c)
  case Nil
  then show ?case by simp
next
  case (Cons oper opers)
  from Cons.IH [OF cstep_inv [OF Cons.prems, of oper]] Cons.prems show ?case
    by (simp add: case_prod_beta Let_def cstep_abs cstep_out)
qed

lemma run_outputs: "inv c \<Longrightarrow> fst (run_ops cstep opers c) = fst (run_ops astep opers (abs c))"
  by (simp add: run_refines)

lemma run_inv: "inv c \<Longrightarrow> inv (snd (run_ops cstep opers c))"
  by (simp add: run_refines)

end

text \<open>
  A machine whose steps may each do several steps of another: \<open>tr\<close> says which, and \<open>live\<close> that no step so far
  has failed. A run that is live at its end is then a run of the other machine, over the traces.
\<close>

fun trace_events :: "('s \<Rightarrow> 'e \<Rightarrow> 's) \<Rightarrow> ('s \<Rightarrow> 'e \<Rightarrow> 'f list) \<Rightarrow> 's \<Rightarrow> 'e list \<Rightarrow> 'f list" where
  "trace_events step tr s [] = []"
| "trace_events step tr s (e # es) = tr s e @ trace_events step tr (step s e) es"

locale projection =
  fixes cstep :: "'c \<Rightarrow> 'e \<Rightarrow> 'c"
    and astep :: "'a \<Rightarrow> 'f \<Rightarrow> 'a"
    and live :: "'c \<Rightarrow> bool"
    and tr :: "'c \<Rightarrow> 'e \<Rightarrow> 'f list"
    and abs :: "'c \<Rightarrow> 'a"
  assumes live_before: "live (cstep c e) \<Longrightarrow> live c"
    and step_projects: "live (cstep c e) \<Longrightarrow> run_events astep (abs c) (tr c e) = abs (cstep c e)"
begin

lemma live_run: "live (run_events cstep c es) \<Longrightarrow> live c"
  by (induction es arbitrary: c) (auto dest: live_before)

lemma run_projects:
  "live (run_events cstep c es) \<Longrightarrow> run_events astep (abs c) (trace_events cstep tr c es) = abs (run_events cstep c es)"
proof (induction es arbitrary: c)
  case (Cons e es)
  then have "live (cstep c e)" using live_run by simp
  with Cons show ?case by (simp add: run_events_append step_projects)
qed simp

end

end
