(* ===== verification/Buffer.thy ===== *)
theory Buffer
  imports Prelude "HOL-Library.While_Combinator"
begin

text \<open>
  \<open>src/src/network/buffer.{h,cpp}\<close>: the growable gap buffer every connection reads from and writes
  to. A buffer is the vector with the two indices; \<open>Buffer_contents\<close> is the byte string between
  them, and the lemmas show that the operations implement a FIFO byte stream on it: writing appends,
  reading and skipping remove a prefix, compaction and growth leave it alone. Sizes are \<open>size_t\<close>
  values bounded by the memory the vector can have, so they are natural numbers here.
\<close>

section \<open>State\<close>

record buffer =
  buf_data :: bytes
  read_idx :: nat
  write_idx :: nat

definition Buffer_new :: "nat \<Rightarrow> buffer" where
  "Buffer_new initial = \<lparr>buf_data = replicate (max initial 64) 0, read_idx = 0, write_idx = 0\<rparr>"

section \<open>Queries\<close>

definition Buffer_readable :: "buffer \<Rightarrow> nat" where
  "Buffer_readable b = write_idx b - read_idx b"

definition Buffer_writable :: "buffer \<Rightarrow> nat" where
  "Buffer_writable b = length (buf_data b) - write_idx b"

definition Buffer_capacity :: "buffer \<Rightarrow> nat" where
  "Buffer_capacity b = length (buf_data b)"

text \<open>What \<open>readPtr()\<close> points at: the vector from the read position on.\<close>

definition Buffer_readPtr :: "buffer \<Rightarrow> bytes" where
  "Buffer_readPtr b = drop (read_idx b) (buf_data b)"

text \<open>\<open>std::memcpy\<close> of \<open>n\<close> bytes of \<open>data\<close> to offset \<open>at\<close> of the vector.\<close>

definition copy_to :: "bytes \<Rightarrow> nat \<Rightarrow> bytes \<Rightarrow> nat \<Rightarrow> bytes" where
  "copy_to v at data n = take at v @ take n data @ drop (at + n) v"

section \<open>Management\<close>

definition Buffer_reset :: "buffer \<Rightarrow> buffer" where
  "Buffer_reset b = b\<lparr>read_idx := 0, write_idx := 0\<rparr>"

definition Buffer_compact :: "buffer \<Rightarrow> buffer" where
  "Buffer_compact b =
     (if read_idx b > 0 \<and> Buffer_readable b > 0 then
        let n = Buffer_readable b in
        b\<lparr>buf_data := copy_to (buf_data b) 0 (Buffer_readPtr b) n, read_idx := 0, write_idx := n\<rparr>
      else if read_idx b > 0 then Buffer_reset b
      else b)"

text \<open>
  The doubling loop of \<open>grow\<close>. On a capacity of zero it would not end, so it is a partial function
  first; \<open>grow_cap\<close> is its value on the capacities a buffer can have (the constructor allocates at
  least 64 bytes and no operation shrinks the vector).
\<close>

partial_function (option) grow_loop :: "nat \<Rightarrow> nat \<Rightarrow> nat option" where
  "grow_loop new_cap min_capacity =
     (if new_cap < min_capacity then grow_loop (new_cap * 2) min_capacity else Some new_cap)"

function grow_cap :: "nat \<Rightarrow> nat \<Rightarrow> nat" where
  "grow_cap new_cap min_capacity =
     (if new_cap < min_capacity \<and> 0 < new_cap then grow_cap (new_cap * 2) min_capacity else new_cap)"
  by pat_completeness auto
termination
  by (relation "measure (\<lambda>(c, m). m - c)") auto

declare grow_cap.simps [simp del]

text \<open>\<open>std::vector::resize\<close>: cut, or pad with zero bytes.\<close>

definition resize_vec :: "nat \<Rightarrow> bytes \<Rightarrow> bytes" where
  "resize_vec n v = take n v @ replicate (n - length v) 0"

definition Buffer_grow :: "nat \<Rightarrow> buffer \<Rightarrow> buffer" where
  "Buffer_grow min_capacity b =
     b\<lparr>buf_data := resize_vec (grow_cap (length (buf_data b) * 2) min_capacity) (buf_data b)\<rparr>"

definition Buffer_ensureWrite :: "nat \<Rightarrow> buffer \<Rightarrow> buffer" where
  "Buffer_ensureWrite len b =
     (if Buffer_writable b \<ge> len then b
      else let b' = Buffer_compact b in
        if Buffer_writable b' \<ge> len then b'
        else Buffer_grow (write_idx b' + len) b')"

definition Buffer_skip :: "nat \<Rightarrow> buffer \<Rightarrow> buffer" where
  "Buffer_skip len b =
     (let n = min len (Buffer_readable b);
          b' = b\<lparr>read_idx := read_idx b + n\<rparr>
      in if read_idx b' = write_idx b' then Buffer_reset b' else b')"

section \<open>Reading and writing\<close>

definition Buffer_write :: "bytes \<Rightarrow> buffer \<Rightarrow> nat \<times> buffer" where
  "Buffer_write data b =
     (let len = length data in
      if len = 0 then (0, b)
      else
        let b' = Buffer_ensureWrite len b;
            n = min len (Buffer_writable b')
        in (n, b'\<lparr>buf_data := copy_to (buf_data b') (write_idx b') data n,
                  write_idx := write_idx b' + n\<rparr>))"

definition Buffer_read :: "nat \<Rightarrow> buffer \<Rightarrow> bytes \<times> buffer" where
  "Buffer_read len b =
     (let n = min len (Buffer_readable b);
          data = (if n > 0 then take n (Buffer_readPtr b) else []);
          b' = (if n > 0 then b\<lparr>read_idx := read_idx b + n\<rparr> else b)
      in (data, if read_idx b' = write_idx b' then Buffer_reset b' else b'))"

text \<open>
  The kernel side of a socket is a parameter: \<open>read(2)\<close> is given the space and answers with an
  error or with the bytes it delivers (none for end of file); \<open>write(2)\<close> is given the bytes and
  answers with an error or with how many it took.
\<close>

datatype errno = EAGAIN | EWOULDBLOCK | EOTHER

type_synonym sys_read = "nat \<Rightarrow> errno + bytes"
type_synonym sys_write = "bytes \<Rightarrow> errno + nat"

definition Buffer_readFromFd :: "sys_read \<Rightarrow> buffer \<Rightarrow> (errno + nat) \<times> buffer" where
  "Buffer_readFromFd rd b =
     (let b' = Buffer_ensureWrite 4096 b;
          space = Buffer_writable b'
      in if space = 0 then (Inr 0, b')
         else case rd space of
           Inl e \<Rightarrow> (Inl e, b')
         | Inr bs \<Rightarrow>
             let n = length bs in
             (Inr n, if n > 0
                     then b'\<lparr>buf_data := copy_to (buf_data b') (write_idx b') bs n,
                             write_idx := write_idx b' + n\<rparr>
                     else b'))"

definition Buffer_writeToFd :: "sys_write \<Rightarrow> buffer \<Rightarrow> (errno + nat) \<times> buffer" where
  "Buffer_writeToFd wr b =
     (if Buffer_readable b = 0 then (Inr 0, b)
      else case wr (take (Buffer_readable b) (Buffer_readPtr b)) of
        Inl e \<Rightarrow> (Inl e, b)
      | Inr n \<Rightarrow>
          if n > 0 then
            let b' = b\<lparr>read_idx := read_idx b + n\<rparr> in
            (Inr n, if read_idx b' = write_idx b' then Buffer_reset b' else b')
          else (Inr n, b))"

text \<open>The documented contract of the two system calls: at most what was asked is transferred.\<close>

definition sys_read_ok :: "sys_read \<Rightarrow> bool" where
  "sys_read_ok rd \<longleftrightarrow> (\<forall>n bs. rd n = Inr bs \<longrightarrow> length bs \<le> n)"

definition sys_write_ok :: "sys_write \<Rightarrow> bool" where
  "sys_write_ok wr \<longleftrightarrow> (\<forall>bs n. wr bs = Inr n \<longrightarrow> n \<le> length bs)"

section \<open>Invariant and abstraction\<close>

definition Buffer_inv :: "buffer \<Rightarrow> bool" where
  "Buffer_inv b \<longleftrightarrow> read_idx b \<le> write_idx b \<and> write_idx b \<le> length (buf_data b) \<and> 64 \<le> length (buf_data b)"

definition Buffer_contents :: "buffer \<Rightarrow> bytes" where
  "Buffer_contents b = take (Buffer_readable b) (Buffer_readPtr b)"

lemmas buffer_defs = Buffer_inv_def Buffer_contents_def Buffer_readable_def Buffer_writable_def
  Buffer_readPtr_def

lemma contents_length: "Buffer_inv b \<Longrightarrow> length (Buffer_contents b) = Buffer_readable b"
  by (auto simp: buffer_defs)

lemma contents_empty_iff: "Buffer_inv b \<Longrightarrow> Buffer_contents b = [] \<longleftrightarrow> Buffer_readable b = 0"
  by (auto simp: buffer_defs)

lemma new_inv [simp, invar_intros]: "Buffer_inv (Buffer_new n)"
  by (simp add: Buffer_new_def Buffer_inv_def)

lemma new_contents [simp]: "Buffer_contents (Buffer_new n) = []"
  by (simp add: Buffer_new_def buffer_defs)

lemma reset_inv [invar_intros]: "Buffer_inv b \<Longrightarrow> Buffer_inv (Buffer_reset b)"
  by (auto simp: Buffer_reset_def Buffer_inv_def)

lemma reset_contents [simp]: "Buffer_contents (Buffer_reset b) = []"
  by (simp add: Buffer_reset_def buffer_defs)

section \<open>Growth\<close>

lemma grow_cap_ge: "0 < c \<Longrightarrow> m \<le> grow_cap c m \<and> c \<le> grow_cap c m"
proof (induction c m rule: grow_cap.induct)
  case (1 c m)
  then show ?case
    by (cases "c < m") (auto simp: grow_cap.simps [of c m])
qed

lemma grow_cap_less: "0 < c \<Longrightarrow> c < m \<Longrightarrow> grow_cap c m < 2 * m"
proof (induction c m rule: grow_cap.induct)
  case (1 c m)
  then show ?case
    by (cases "c * 2 < m") (auto simp: grow_cap.simps [of c m] grow_cap.simps [of "c * 2" m])
qed

lemma grow_loop_returns: "0 < c \<Longrightarrow> grow_loop c m = Some (grow_cap c m)"
proof (induction c m rule: grow_cap.induct)
  case (1 c m)
  then show ?case
    by (cases "c < m") (auto simp: grow_loop.simps [of c m] grow_cap.simps [of c m])
qed

section \<open>Every operation implements the byte stream\<close>

lemma copy_to_length:
  "at + n \<le> length v \<Longrightarrow> n \<le> length data \<Longrightarrow> length (copy_to v at data n) = length v"
  by (simp add: copy_to_def)

lemma compact_spec:
  assumes "Buffer_inv b"
  shows "Buffer_inv (Buffer_compact b)"
    and "Buffer_contents (Buffer_compact b) = Buffer_contents b"
    and "length (buf_data (Buffer_compact b)) = length (buf_data b)"
    and "read_idx (Buffer_compact b) = 0"
    and "write_idx (Buffer_compact b) = Buffer_readable b"
  using assms
  by (auto simp: Buffer_compact_def Let_def buffer_defs copy_to_def Buffer_reset_def)

lemma grow_spec:
  assumes "Buffer_inv b"
  shows "Buffer_inv (Buffer_grow m b)"
    and "Buffer_contents (Buffer_grow m b) = Buffer_contents b"
    and "m \<le> length (buf_data (Buffer_grow m b))"
    and "write_idx (Buffer_grow m b) = write_idx b"
proof -
  have "0 < length (buf_data b) * 2"
    using assms by (auto simp: Buffer_inv_def)
  then have ge: "m \<le> grow_cap (length (buf_data b) * 2) m" "length (buf_data b) * 2 \<le> grow_cap (length (buf_data b) * 2) m"
    using grow_cap_ge by blast+
  show "Buffer_inv (Buffer_grow m b)" "m \<le> length (buf_data (Buffer_grow m b))"
    "write_idx (Buffer_grow m b) = write_idx b"
    using assms ge by (auto simp: Buffer_grow_def Buffer_inv_def resize_vec_def)
  show "Buffer_contents (Buffer_grow m b) = Buffer_contents b"
    using assms ge by (auto simp: Buffer_grow_def buffer_defs resize_vec_def)
qed

lemma ensureWrite_spec:
  assumes "Buffer_inv b"
  shows "Buffer_inv (Buffer_ensureWrite n b)"
    and "Buffer_contents (Buffer_ensureWrite n b) = Buffer_contents b"
    and "n \<le> Buffer_writable (Buffer_ensureWrite n b)"
proof -
  note c = compact_spec [OF assms]
  note g = grow_spec [OF c(1), of "write_idx (Buffer_compact b) + n"]
  show "Buffer_inv (Buffer_ensureWrite n b)"
    using assms c g by (simp add: Buffer_ensureWrite_def Let_def)
  show "Buffer_contents (Buffer_ensureWrite n b) = Buffer_contents b"
    using assms c g by (simp add: Buffer_ensureWrite_def Let_def)
  show "n \<le> Buffer_writable (Buffer_ensureWrite n b)"
    using c g by (auto simp: Buffer_ensureWrite_def Let_def Buffer_writable_def)
qed

lemma append_at_write_idx:
  assumes "Buffer_inv b" and "length data \<le> Buffer_writable b"
  defines "b' \<equiv> b\<lparr>buf_data := copy_to (buf_data b) (write_idx b) data (length data),
                  write_idx := write_idx b + length data\<rparr>"
  shows "Buffer_inv b'" and "Buffer_contents b' = Buffer_contents b @ data"
  using assms by (auto simp: buffer_defs copy_to_def b'_def drop_take)

lemma advance_read_idx:
  assumes "Buffer_inv b" and "n \<le> Buffer_readable b"
  defines "b' \<equiv> b\<lparr>read_idx := read_idx b + n\<rparr>"
  defines "b'' \<equiv> if read_idx b' = write_idx b' then Buffer_reset b' else b'"
  shows "Buffer_inv b''" and "Buffer_contents b'' = drop n (Buffer_contents b)"
  using assms
  by (auto simp: buffer_defs b'_def b''_def Buffer_reset_def drop_take add.commute)

lemma write_spec:
  assumes "Buffer_inv b"
  shows "Buffer_inv (snd (Buffer_write data b))"
    and "Buffer_contents (snd (Buffer_write data b)) = Buffer_contents b @ data"
    and "fst (Buffer_write data b) = length data"
proof -
  note e = ensureWrite_spec [OF assms, of "length data"]
  note a = append_at_write_idx [OF e(1,3)]
  have m: "min (length data) (Buffer_writable (Buffer_ensureWrite (length data) b)) = length data"
    using e(3) by simp
  show "Buffer_inv (snd (Buffer_write data b))"
    using assms a(1) by (simp add: Buffer_write_def Let_def m)
  show "Buffer_contents (snd (Buffer_write data b)) = Buffer_contents b @ data"
    using a(2) e(2) by (simp add: Buffer_write_def Let_def m)
  show "fst (Buffer_write data b) = length data"
    by (simp add: Buffer_write_def Let_def m)
qed

lemma skip_spec:
  assumes "Buffer_inv b"
  shows "Buffer_inv (Buffer_skip n b)"
    and "Buffer_contents (Buffer_skip n b) = drop n (Buffer_contents b)"
  using advance_read_idx [OF assms, of "min n (Buffer_readable b)"] contents_length [OF assms]
  by (auto simp: Buffer_skip_def Let_def min_def)

text \<open>Reading is looking at the prefix and skipping it.\<close>

lemma read_skip: "Buffer_read n b = (take n (Buffer_contents b), Buffer_skip n b)"
  by (auto simp: Buffer_read_def Buffer_skip_def Buffer_contents_def Buffer_reset_def Let_def min_def)

lemma read_spec:
  assumes "Buffer_inv b"
  shows "Buffer_inv (snd (Buffer_read n b))"
    and "Buffer_contents (snd (Buffer_read n b)) = drop n (Buffer_contents b)"
    and "fst (Buffer_read n b) = take n (Buffer_contents b)"
  using skip_spec [OF assms] by (simp_all add: read_skip)

lemma readFromFd_spec:
  assumes "Buffer_inv b" and "sys_read_ok rd"
  shows "Buffer_inv (snd (Buffer_readFromFd rd b))"
    and "fst (Buffer_readFromFd rd b) = Inr n \<Longrightarrow>
         \<exists>bs. length bs = n \<and> Buffer_contents (snd (Buffer_readFromFd rd b)) = Buffer_contents b @ bs"
    and "fst (Buffer_readFromFd rd b) = Inl e \<Longrightarrow>
         Buffer_contents (snd (Buffer_readFromFd rd b)) = Buffer_contents b"
proof -
  note e = ensureWrite_spec [OF assms(1), of 4096]
  let ?b = "Buffer_ensureWrite 4096 b"
  have sp: "Buffer_writable ?b \<noteq> 0" using e(3) by simp
  have a: "rd (Buffer_writable ?b) = Inr bs \<Longrightarrow>
      Buffer_inv (?b\<lparr>buf_data := copy_to (buf_data ?b) (write_idx ?b) bs (length bs),
                     write_idx := write_idx ?b + length bs\<rparr>) \<and>
      Buffer_contents (?b\<lparr>buf_data := copy_to (buf_data ?b) (write_idx ?b) bs (length bs),
                          write_idx := write_idx ?b + length bs\<rparr>) = Buffer_contents b @ bs" for bs
    using append_at_write_idx [OF e(1)] assms(2) e(2) by (auto simp: sys_read_ok_def)
  show "Buffer_inv (snd (Buffer_readFromFd rd b))"
    using a e(1) sp by (auto simp: Buffer_readFromFd_def Let_def split: sum.splits)
  show "fst (Buffer_readFromFd rd b) = Inr n \<Longrightarrow>
      \<exists>bs. length bs = n \<and> Buffer_contents (snd (Buffer_readFromFd rd b)) = Buffer_contents b @ bs"
    using a e(2) sp by (auto simp: Buffer_readFromFd_def Let_def split: sum.splits if_splits)
  show "fst (Buffer_readFromFd rd b) = Inl e \<Longrightarrow>
      Buffer_contents (snd (Buffer_readFromFd rd b)) = Buffer_contents b"
    using e(2) sp by (auto simp: Buffer_readFromFd_def Let_def split: sum.splits)
qed

text \<open>A socket that has \<open>ch\<close> waiting: \<open>read\<close> delivers as much of it as the space allows.\<close>

definition chunk_waiting :: "bytes \<Rightarrow> sys_read" where
  "chunk_waiting ch n = Inr (take n ch)"

lemma chunk_waiting_ok: "sys_read_ok (chunk_waiting ch)"
  by (auto simp: sys_read_ok_def chunk_waiting_def)

lemma readFromFd_chunk:
  assumes "Buffer_inv b" and "ch \<noteq> []" and "length ch \<le> 4096"
  obtains b' where "Buffer_readFromFd (chunk_waiting ch) b = (Inr (length ch), b')"
    and "Buffer_inv b'" and "Buffer_contents b' = Buffer_contents b @ ch"
proof -
  note e = ensureWrite_spec [OF assms(1), of 4096]
  have sp: "length ch \<le> Buffer_writable (Buffer_ensureWrite 4096 b)" "Buffer_writable (Buffer_ensureWrite 4096 b) \<noteq> 0"
    using e(3) assms(3) by linarith+
  note a = append_at_write_idx [OF e(1) sp(1)]
  show ?thesis
    using that a e(2) sp assms(2)
    by (simp add: Buffer_readFromFd_def Let_def chunk_waiting_def)
qed

lemma writeToFd_spec:
  assumes "Buffer_inv b" and "sys_write_ok wr"
  shows "Buffer_inv (snd (Buffer_writeToFd wr b))"
    and "fst (Buffer_writeToFd wr b) = Inr n \<Longrightarrow>
         Buffer_contents (snd (Buffer_writeToFd wr b)) = drop n (Buffer_contents b)"
    and "fst (Buffer_writeToFd wr b) = Inl e \<Longrightarrow> snd (Buffer_writeToFd wr b) = b"
    and "Buffer_readable (snd (Buffer_writeToFd wr b)) \<le> Buffer_readable b"
proof -
  have n: "wr (Buffer_contents b) = Inr n \<Longrightarrow> n \<le> Buffer_readable b" for n
    using assms(2) contents_length [OF assms(1)] by (metis sys_write_ok_def)
  note a = advance_read_idx [OF assms(1) n]
  show "Buffer_inv (snd (Buffer_writeToFd wr b))"
    using a(1) assms(1) by (auto simp: Buffer_writeToFd_def Let_def Buffer_contents_def split: sum.splits)
  show "fst (Buffer_writeToFd wr b) = Inr n \<Longrightarrow>
      Buffer_contents (snd (Buffer_writeToFd wr b)) = drop n (Buffer_contents b)"
    using a(2) contents_length [OF assms(1)]
    by (auto simp: Buffer_writeToFd_def Let_def Buffer_contents_def split: sum.splits if_splits)
  show "fst (Buffer_writeToFd wr b) = Inl e \<Longrightarrow> snd (Buffer_writeToFd wr b) = b"
    by (auto simp: Buffer_writeToFd_def Let_def split: sum.splits if_splits)
  show "Buffer_readable (snd (Buffer_writeToFd wr b)) \<le> Buffer_readable b"
    by (auto simp: Buffer_writeToFd_def Let_def Buffer_readable_def Buffer_reset_def split: sum.splits)
qed

section \<open>Refinement to a byte stream\<close>

text \<open>
  The buffer's public operations as one step function, and the same operations on the byte string a
  client thinks of. The buffer implements the stream: whatever sequence of operations is run, the
  bytes handed out are those the stream hands out.
\<close>

datatype stream_op = Write bytes | Read nat | Skip nat | Compact | EnsureWrite nat

fun Buffer_op :: "stream_op \<Rightarrow> buffer \<Rightarrow> bytes \<times> buffer" where
  "Buffer_op (Write d) b = ([], snd (Buffer_write d b))"
| "Buffer_op (Read n) b = Buffer_read n b"
| "Buffer_op (Skip n) b = ([], Buffer_skip n b)"
| "Buffer_op Compact b = ([], Buffer_compact b)"
| "Buffer_op (EnsureWrite n) b = ([], Buffer_ensureWrite n b)"

fun stream_step :: "stream_op \<Rightarrow> bytes \<Rightarrow> bytes \<times> bytes" where
  "stream_step (Write d) s = ([], s @ d)"
| "stream_step (Read n) s = (take n s, drop n s)"
| "stream_step (Skip n) s = ([], drop n s)"
| "stream_step Compact s = ([], s)"
| "stream_step (EnsureWrite n) s = ([], s)"

interpretation buf: simulation Buffer_op stream_step Buffer_inv Buffer_contents
proof unfold_locales
  fix b oper
  assume b: "Buffer_inv b"
  show "Buffer_inv (snd (Buffer_op oper b))"
    using b by (cases oper) (auto simp: write_spec read_spec skip_spec compact_spec ensureWrite_spec)
  show "Buffer_contents (snd (Buffer_op oper b)) = snd (stream_step oper (Buffer_contents b))"
    using b by (cases oper) (auto simp: write_spec read_spec skip_spec compact_spec ensureWrite_spec)
  show "fst (Buffer_op oper b) = fst (stream_step oper (Buffer_contents b))"
    using b by (cases oper) (auto simp: read_spec)
qed

section \<open>Properties\<close>


text \<open>
  Reserving space ends and is bounded. \<open>ensureWrite\<close> keeps the unread bytes, provides the room
  asked for, its doubling loop returns, and the vector grows to at most twice the bytes that have to
  fit (unread plus requested) or stays as large as it was.
\<close>

theorem ensureWrite_bounded:
  assumes "Buffer_inv b"
  shows "Buffer_contents (Buffer_ensureWrite len b) = Buffer_contents b \<and>
         len \<le> Buffer_writable (Buffer_ensureWrite len b) \<and>
         Buffer_capacity (Buffer_ensureWrite len b) \<le> max (Buffer_capacity b) (2 * (Buffer_readable b + len)) \<and>
         grow_loop (Buffer_capacity b * 2) m = Some (grow_cap (Buffer_capacity b * 2) m)"
proof -
  note c = compact_spec [OF assms]
  have cap: "0 < Buffer_capacity b"
    using assms by (auto simp: Buffer_inv_def Buffer_capacity_def)
  have bound: "grow_cap (length (buf_data b) * 2) (Buffer_readable b + len) \<le> 2 * (Buffer_readable b + len)"
    if "\<not> len \<le> Buffer_writable (Buffer_compact b)"
  proof -
    have less: "length (buf_data b) < Buffer_readable b + len"
      using that c by (simp add: Buffer_writable_def)
    then show ?thesis
      using grow_cap_less [of "length (buf_data b) * 2" "Buffer_readable b + len"] cap
      by (cases "length (buf_data b) * 2 < Buffer_readable b + len")
        (auto simp: grow_cap.simps [of "length (buf_data b) * 2"] Buffer_capacity_def)
  qed
  have "Buffer_capacity (Buffer_ensureWrite len b) \<le> max (Buffer_capacity b) (2 * (Buffer_readable b + len))"
    using bound c by (auto simp: Buffer_ensureWrite_def Let_def Buffer_capacity_def Buffer_grow_def resize_vec_def)
  then show ?thesis
    using ensureWrite_spec [OF assms] grow_loop_returns [of "Buffer_capacity b * 2" m] cap by simp
qed

theorem ensureWrite_bounded_witness: "5000 \<le> Buffer_writable (Buffer_ensureWrite 5000 (Buffer_new 4096))"
  using ensureWrite_bounded [of "Buffer_new 4096" 5000 0] by simp

end
