(* ===== verification/Frame_Codec.thy ===== *)
theory Frame_Codec
  imports Buffer
begin

text \<open>
  \<open>src/src/network/network_types.h\<close> and \<open>frame_codec.{h,cpp}\<close>: the 18-byte big-endian frame header,
  encoding, and decoding from a buffer with its half-packet and illegal-length branches.
\<close>

unbundle bit_operations_syntax

section \<open>Constants\<close>

definition kHeaderSize :: nat where "kHeaderSize = 18"
definition kMaxPayload :: nat where "kMaxPayload = 64 * 1024"
definition kMaxPacketSize :: nat where "kMaxPacketSize = kHeaderSize + kMaxPayload"

lemmas frame_consts = kHeaderSize_def kMaxPayload_def kMaxPacketSize_def

section \<open>Network byte order\<close>

text \<open>The bytes that \<open>memcpy\<close> of \<open>htonl(x)\<close> and \<open>htons(x)\<close> leaves in memory, and back.\<close>

definition be16 :: "u16 \<Rightarrow> bytes" where
  "be16 w = [ucast (drop_bit 8 w), ucast w]"

definition be32 :: "u32 \<Rightarrow> bytes" where
  "be32 w = [ucast (drop_bit 24 w), ucast (drop_bit 16 w), ucast (drop_bit 8 w), ucast w]"

definition from_be16 :: "bytes \<Rightarrow> u16" where
  "from_be16 bs = push_bit 8 (ucast (bs ! 0)) OR ucast (bs ! 1)"

definition from_be32 :: "bytes \<Rightarrow> u32" where
  "from_be32 bs = push_bit 24 (ucast (bs ! 0)) OR push_bit 16 (ucast (bs ! 1))
     OR push_bit 8 (ucast (bs ! 2)) OR ucast (bs ! 3)"

lemma be16_length [simp]: "length (be16 w) = 2"
  by (simp add: be16_def)

lemma be32_length [simp]: "length (be32 w) = 4"
  by (simp add: be32_def)

lemma from_be16_be16 [simp]: "from_be16 (be16 w) = w"
  by (rule bit_word_eqI) (auto simp: from_be16_def be16_def bit_simps)

lemma from_be32_be32 [simp]: "from_be32 (be32 w) = w"
proof (rule bit_word_eqI)
  fix n
  assume "n < LENGTH(32)"
  then consider "n < 8" | "8 \<le> n \<and> n < 16" | "16 \<le> n \<and> n < 24" | "24 \<le> n \<and> n < 32"
    by fastforce
  then show "bit (from_be32 (be32 w)) n = bit w n"
    by cases (auto simp: from_be32_def be32_def bit_simps)
qed

lemma length_four: "length bs = 4 \<longleftrightarrow> (\<exists>a b c d. bs = [a, b, c, d])"
  by (auto simp: numeral_eq_Suc length_Suc_conv)

lemma length_two: "length bs = 2 \<longleftrightarrow> (\<exists>a b. bs = [a, b])"
  by (auto simp: numeral_eq_Suc length_Suc_conv)

lemma bit_byte_high: "8 \<le> k \<Longrightarrow> \<not> bit (b :: byte) (k + n)"
  by (auto dest: bit_imp_le_length)

lemma be32_from_be32: "length bs = 4 \<Longrightarrow> be32 (from_be32 bs) = bs"
  by (auto simp: length_four from_be32_def be32_def bit_simps bit_byte_high
      intro!: bit_word_eqI dest: bit_imp_le_length)

lemma be16_from_be16: "length bs = 2 \<Longrightarrow> be16 (from_be16 bs) = bs"
  by (auto simp: length_two from_be16_def be16_def bit_simps bit_byte_high
      intro!: bit_word_eqI dest: bit_imp_le_length)

section \<open>Frames and headers\<close>

record frame =
  total_length :: u32
  message_id :: u32
  flags :: u16
  sequence :: u64
  payload :: bytes

definition seq_hi :: "u64 \<Rightarrow> u32" where
  "seq_hi s = ucast (drop_bit 32 s)"

definition seq_lo :: "u64 \<Rightarrow> u32" where
  "seq_lo s = ucast (s AND 0xFFFFFFFF)"

definition seq_join :: "u32 \<Rightarrow> u32 \<Rightarrow> u64" where
  "seq_join hi lo = push_bit 32 (ucast hi) OR ucast lo"

definition FrameCodec_writeHeader :: "u32 \<Rightarrow> u32 \<Rightarrow> u16 \<Rightarrow> u64 \<Rightarrow> bytes" where
  "FrameCodec_writeHeader tlen msg_id fl sq =
     be32 tlen @ be32 msg_id @ be16 fl @ be32 (seq_hi sq) @ be32 (seq_lo sq)"

definition FrameCodec_parseHeader :: "bytes \<Rightarrow> u32 \<times> u32 \<times> u16 \<times> u64" where
  "FrameCodec_parseHeader src =
     (from_be32 (take 4 src),
      from_be32 (take 4 (drop 4 src)),
      from_be16 (take 2 (drop 8 src)),
      seq_join (from_be32 (take 4 (drop 10 src))) (from_be32 (take 4 (drop 14 src))))"

section \<open>Encoding and decoding\<close>

datatype codec_error = Payload_exceeds_max | Length_below_header | Length_exceeds_max

definition FrameCodec_encode :: "u32 \<Rightarrow> u16 \<Rightarrow> u64 \<Rightarrow> bytes \<Rightarrow> codec_error + bytes" where
  "FrameCodec_encode msg_id fl sq pl =
     (if length pl > kMaxPayload then Inl Payload_exceeds_max
      else
        let tlen = (of_nat (kHeaderSize + length pl) :: u32)
        in Inr (FrameCodec_writeHeader tlen msg_id fl sq @ pl))"

definition FrameCodec_encode_frame :: "frame \<Rightarrow> codec_error + bytes" where
  "FrameCodec_encode_frame f = FrameCodec_encode (message_id f) (flags f) (sequence f) (payload f)"

definition FrameCodec_decode :: "buffer \<Rightarrow> (codec_error + frame option) \<times> buffer" where
  "FrameCodec_decode b =
     (if Buffer_readable b < kHeaderSize then (Inr None, b)
      else
        let (tlen, msg_id, fl, sq) = FrameCodec_parseHeader (Buffer_readPtr b) in
        if unat tlen < kHeaderSize then (Inl Length_below_header, b)
        else if unat tlen > kHeaderSize + kMaxPayload then (Inl Length_exceeds_max, b)
        else if Buffer_readable b < unat tlen then (Inr None, b)
        else
          let b1 = Buffer_skip kHeaderSize b;
              payload_len = unat tlen - kHeaderSize;
              (pl, b2) = (if payload_len > 0 then Buffer_read payload_len b1 else ([], b1))
          in (Inr (Some \<lparr>total_length = tlen, message_id = msg_id, flags = fl,
                         sequence = sq, payload = pl\<rparr>), b2))"

section \<open>Header laws\<close>

lemma seq_lo_take_bit: "seq_lo s = ucast (take_bit 32 s)"
proof -
  have "(0xFFFFFFFF :: u64) = mask 32"
    by (simp add: mask_eq_exp_minus_1)
  then show ?thesis
    by (simp only: seq_lo_def take_bit_eq_mask)
qed

lemma seq_join_split [simp]: "seq_join (seq_hi s) (seq_lo s) = s"
proof (rule bit_word_eqI)
  fix n
  assume "n < LENGTH(64)"
  then show "bit (seq_join (seq_hi s) (seq_lo s)) n = bit s n"
    by (cases "n < 32") (auto simp: seq_join_def seq_hi_def seq_lo_take_bit bit_simps)
qed

lemma header_length [simp]: "length (FrameCodec_writeHeader t m f s) = kHeaderSize"
  by (simp add: FrameCodec_writeHeader_def kHeaderSize_def)

lemma parse_writeHeader:
  "FrameCodec_parseHeader (FrameCodec_writeHeader t m f s @ rest) = (t, m, f, s)"
  by (simp add: FrameCodec_parseHeader_def FrameCodec_writeHeader_def)

lemma parseHeader_prefix:
  "kHeaderSize \<le> n \<Longrightarrow> FrameCodec_parseHeader (take n bs) = FrameCodec_parseHeader bs"
  by (simp add: FrameCodec_parseHeader_def kHeaderSize_def drop_take min_def)

text \<open>The declared length of the frame at the front of a byte string.\<close>

definition declared_length :: "bytes \<Rightarrow> nat" where
  "declared_length bs = unat (fst (FrameCodec_parseHeader bs))"

definition legal_length :: "nat \<Rightarrow> bool" where
  "legal_length n \<longleftrightarrow> kHeaderSize \<le> n \<and> n \<le> kMaxPacketSize"

text \<open>Decoding as a function of the byte string: the result and how many bytes it consumes.\<close>

definition frame_of :: "bytes \<Rightarrow> frame" where
  "frame_of bs =
     (let (t, m, f, s) = FrameCodec_parseHeader bs
      in \<lparr>total_length = t, message_id = m, flags = f, sequence = s,
          payload = drop kHeaderSize (take (unat t) bs)\<rparr>)"

definition decode_spec :: "bytes \<Rightarrow> (codec_error + frame option) \<times> bytes" where
  "decode_spec bs =
     (if length bs < kHeaderSize then (Inr None, bs)
      else if declared_length bs < kHeaderSize then (Inl Length_below_header, bs)
      else if declared_length bs > kMaxPacketSize then (Inl Length_exceeds_max, bs)
      else if length bs < declared_length bs then (Inr None, bs)
      else (Inr (Some (frame_of bs)), drop (declared_length bs) bs))"

lemma parseHeader_contents:
  "kHeaderSize \<le> Buffer_readable b \<Longrightarrow>
   FrameCodec_parseHeader (Buffer_readPtr b) = FrameCodec_parseHeader (Buffer_contents b)"
  by (simp add: Buffer_contents_def parseHeader_prefix)

text \<open>The buffer-based decoder implements the byte-string one.\<close>

lemma decode_refines:
  assumes "Buffer_inv b"
  shows "fst (FrameCodec_decode b) = fst (decode_spec (Buffer_contents b))"
    and "Buffer_contents (snd (FrameCodec_decode b)) = snd (decode_spec (Buffer_contents b))"
    and "Buffer_inv (snd (FrameCodec_decode b))"
proof -
  note l = contents_length [OF assms]
  note sk = skip_spec [OF assms, of kHeaderSize]
  note rd = read_spec [OF sk(1)]
  obtain t m f s where h: "FrameCodec_parseHeader (Buffer_contents b) = (t, m, f, s)"
    by (metis prod_cases4)
  show "fst (FrameCodec_decode b) = fst (decode_spec (Buffer_contents b))"
    using rd sk l h parseHeader_contents [of b]
    by (auto simp: FrameCodec_decode_def decode_spec_def declared_length_def kMaxPacketSize_def
        frame_of_def Let_def drop_take case_prod_beta)
  show "Buffer_contents (snd (FrameCodec_decode b)) = snd (decode_spec (Buffer_contents b))"
    using rd sk l h parseHeader_contents [of b]
    by (auto simp: FrameCodec_decode_def decode_spec_def declared_length_def kMaxPacketSize_def
        Let_def case_prod_beta)
  show "Buffer_inv (snd (FrameCodec_decode b))"
    using rd sk l h parseHeader_contents [of b] assms
    by (auto simp: FrameCodec_decode_def Let_def case_prod_beta)
qed

section \<open>Encoding is inverted by decoding\<close>

lemma encode_total:
  assumes "length pl \<le> kMaxPayload"
  shows "unat (of_nat (kHeaderSize + length pl) :: u32) = kHeaderSize + length pl"
proof -
  have "kHeaderSize + length pl < 2 ^ 32"
    using assms by (simp add: frame_consts)
  then show ?thesis
    by (simp add: unat_of_nat del: of_nat_add)
qed

lemma encode_Inr_iff: "(\<exists>bs. FrameCodec_encode m f s pl = Inr bs) \<longleftrightarrow> length pl \<le> kMaxPayload"
  by (simp add: FrameCodec_encode_def Let_def)

lemma encode_length:
  "FrameCodec_encode m f s pl = Inr bs \<Longrightarrow> length bs = kHeaderSize + length pl \<and> length pl \<le> kMaxPayload"
  by (auto simp: FrameCodec_encode_def Let_def split: if_splits)

lemma encode_declared:
  assumes "FrameCodec_encode m f s pl = Inr bs"
  shows "declared_length (bs @ rest) = length bs" and "legal_length (length bs)"
    and "FrameCodec_parseHeader (bs @ rest) = (of_nat (length bs), m, f, s)"
  using assms encode_length [OF assms]
  by (auto simp: declared_length_def FrameCodec_encode_def Let_def parse_writeHeader encode_total
      legal_length_def kMaxPacketSize_def simp del: of_nat_add split: if_splits)

lemma decode_spec_encode:
  assumes "FrameCodec_encode m f s pl = Inr bs"
  shows "decode_spec (bs @ rest) =
    (Inr (Some \<lparr>total_length = of_nat (length bs), message_id = m, flags = f, sequence = s, payload = pl\<rparr>), rest)"
proof -
  note d = encode_declared [OF assms]
  have "drop kHeaderSize bs = pl"
    using assms by (auto simp: FrameCodec_encode_def Let_def split: if_splits)
  moreover have "unat (of_nat (length bs) :: u32) = length bs"
    using encode_length [OF assms] encode_total [of pl] by (simp del: of_nat_add)
  ultimately show ?thesis
    using d encode_length [OF assms]
    by (auto simp: decode_spec_def frame_of_def legal_length_def)
qed

section \<open>Decoded frames re-encode to the bytes consumed\<close>

lemma seq_hi_join [simp]: "seq_hi (seq_join hi lo) = hi"
  by (rule bit_word_eqI) (auto simp: seq_hi_def seq_join_def bit_simps dest: bit_imp_le_length)

lemma seq_lo_join [simp]: "seq_lo (seq_join hi lo) = lo"
  by (rule bit_word_eqI) (auto simp: seq_lo_take_bit seq_join_def bit_simps)

lemma take_take_drop: "take (m + n) xs = take m xs @ take n (drop m xs)"
  by (simp add: take_add)

lemma header_split:
  "take 18 bs = take 4 bs @ take 4 (drop 4 bs) @ take 2 (drop 8 bs) @ take 4 (drop 10 bs) @ take 4 (drop 14 bs)"
  using take_take_drop [of 4 14 bs] take_take_drop [of 4 10 "drop 4 bs"]
    take_take_drop [of 2 8 "drop 8 bs"] take_take_drop [of 4 4 "drop 10 bs"]
  by simp

lemma write_parseHeader:
  assumes "kHeaderSize \<le> length bs" and "FrameCodec_parseHeader bs = (t, m, f, s)"
  shows "FrameCodec_writeHeader t m f s = take kHeaderSize bs"
  using assms header_split [of bs]
  by (auto simp: FrameCodec_parseHeader_def FrameCodec_writeHeader_def kHeaderSize_def
      be32_from_be32 be16_from_be16)

lemma encode_frame_of:
  assumes "decode_spec bs = (Inr (Some f), r)"
  shows "FrameCodec_encode_frame f = Inr (take (unat (total_length f)) bs)"
    and "r = drop (unat (total_length f)) bs" and "unat (total_length f) \<le> length bs"
    and "kHeaderSize \<le> unat (total_length f)"
proof -
  obtain t m fl s where h: "FrameCodec_parseHeader bs = (t, m, fl, s)"
    by (metis prod_cases4)
  from assms h have d: "kHeaderSize \<le> unat t" "unat t \<le> kMaxPacketSize" "unat t \<le> length bs"
      "f = frame_of bs" "r = drop (unat t) bs"
    by (auto simp: decode_spec_def declared_length_def split: if_splits)
  have f: "total_length f = t" "message_id f = m" "flags f = fl" "sequence f = s"
      "payload f = drop kHeaderSize (take (unat t) bs)"
    using d(4) h by (simp_all add: frame_of_def)
  have len: "kHeaderSize + length (payload f) = unat t"
    using f(5) d by (simp add: min_def)
  have pl: "\<not> length (payload f) > kMaxPayload"
    using len d(2) by (simp add: kMaxPacketSize_def)
  have "take (unat t) bs = take kHeaderSize bs @ payload f"
    using f(5) d(1) by (metis append_take_drop_id min.absorb1 take_take)
  moreover have "FrameCodec_writeHeader t m fl s = take kHeaderSize bs"
    using write_parseHeader [OF _ h] d by simp
  ultimately show "FrameCodec_encode_frame f = Inr (take (unat (total_length f)) bs)"
    using f pl len by (simp add: FrameCodec_encode_frame_def FrameCodec_encode_def Let_def del: of_nat_add)
  show "r = drop (unat (total_length f)) bs" "unat (total_length f) \<le> length bs"
      "kHeaderSize \<le> unat (total_length f)"
    using f(1) d by simp_all
qed

section \<open>Properties\<close>

text \<open>
  Decoding inverts encoding. If the unread bytes start with the encoding of a message, \<open>decode\<close>
  returns a frame with that message id, flags, sequence number and payload, and leaves exactly the
  bytes behind it.
\<close>

theorem decode_encode:
  assumes "Buffer_inv b" and "FrameCodec_encode m f s pl = Inr bs" and "Buffer_contents b = bs @ rest"
  shows "fst (FrameCodec_decode b) =
           Inr (Some \<lparr>total_length = of_nat (length bs), message_id = m, flags = f, sequence = s, payload = pl\<rparr>) \<and>
         Buffer_contents (snd (FrameCodec_decode b)) = rest"
  using decode_refines [OF assms(1)] decode_spec_encode [OF assms(2), of rest] assms(3) by simp

theorem decode_encode_witness:
  "fst (FrameCodec_decode (snd (Buffer_write (FrameCodec_writeHeader 19 1001 0 1 @ [7]) (Buffer_new 64)))) =
     Inr (Some \<lparr>total_length = 19, message_id = 1001, flags = 0, sequence = 1, payload = [7]\<rparr>)"
proof -
  have e: "FrameCodec_encode 1001 0 1 [7] = Inr (FrameCodec_writeHeader 19 1001 0 1 @ [7])"
    by (simp add: FrameCodec_encode_def frame_consts)
  show ?thesis
    using decode_encode [OF _ e, of "snd (Buffer_write (FrameCodec_writeHeader 19 1001 0 1 @ [7]) (Buffer_new 64))" "[]"]
    by (simp add: write_spec kHeaderSize_def)
qed

text \<open>
  Every answer of \<open>decode\<close>. It throws exactly when a whole header is readable and declares a length
  below the header size or above the maximal packet; it reports a half packet exactly when header or
  body is incomplete; in both cases the buffer is untouched. Otherwise the frame it returns re-encodes
  to the very bytes it consumed, so no other byte string decodes to it.
\<close>

theorem decode_complete:
  assumes "Buffer_inv b"
  shows "case FrameCodec_decode b of
      (Inl e, b') \<Rightarrow> kHeaderSize \<le> Buffer_readable b \<and> \<not> legal_length (declared_length (Buffer_contents b)) \<and>
         Buffer_contents b' = Buffer_contents b
    | (Inr None, b') \<Rightarrow> Buffer_contents b' = Buffer_contents b \<and>
         (Buffer_readable b < kHeaderSize \<or>
          legal_length (declared_length (Buffer_contents b)) \<and> Buffer_readable b < declared_length (Buffer_contents b))
    | (Inr (Some f), b') \<Rightarrow> (\<exists>bs. FrameCodec_encode_frame f = Inr bs \<and> Buffer_contents b = bs @ Buffer_contents b' \<and>
         legal_length (length bs) \<and> length bs = unat (total_length f))"
proof -
  obtain res b' where d: "FrameCodec_decode b = (res, b')" by (metis surj_pair)
  have s: "decode_spec (Buffer_contents b) = (res, Buffer_contents b')"
    using decode_refines [OF assms] d by (auto simp: prod_eq_iff)
  note l = contents_length [OF assms]
  show ?thesis
  proof (cases res)
    case (Inl e)
    with s d l show ?thesis
      by (auto simp: decode_spec_def legal_length_def split: if_splits)
  next
    case (Inr fo)
    show ?thesis
    proof (cases fo)
      case None
      with Inr s d l show ?thesis
        by (auto simp: decode_spec_def legal_length_def split: if_splits)
    next
      case (Some f)
      with s Inr have s': "decode_spec (Buffer_contents b) = (Inr (Some f), Buffer_contents b')" by simp
      note e = encode_frame_of [OF s']
      let ?bs = "take (unat (total_length f)) (Buffer_contents b)"
      have "Buffer_contents b = ?bs @ Buffer_contents b'" "length ?bs = unat (total_length f)"
        using e(2,3) by simp_all
      moreover have "legal_length (unat (total_length f))"
        using s' e(4) by (auto simp: decode_spec_def legal_length_def declared_length_def frame_of_def
            Let_def case_prod_beta split: if_splits)
      ultimately show ?thesis
        using e(1) d Inr Some by auto
    qed
  qed
qed

theorem decode_complete_witness: "Buffer_contents (snd (FrameCodec_decode (Buffer_new 64))) = []"
  using decode_complete [of "Buffer_new 64"]
  by (auto simp: FrameCodec_decode_def frame_consts Buffer_readable_def Buffer_new_def Buffer_contents_def
      split: if_splits)

end
