(* ===== verification/Connection.thy ===== *)
theory Connection
  imports Frame_Codec
begin

text \<open>
  \<open>src/src/network/connection.{h,cpp}\<close>: one client connection. Its socket is the descriptor number;
  the kernel's answers to \<open>read\<close> and \<open>write\<close> and the clock are arguments of the operations that use
  them. The lemmas relate what \<open>onReadable\<close> delivers to the byte stream the peer sent, whatever the
  chunks it arrived in, and bound the send queue.
\<close>

section \<open>State\<close>

datatype conn_state = C_CONNECTED | C_ACTIVE | C_CLOSING | C_CLOSED

record connection =
  conn_ident :: conn_id
  conn_fd :: int
  conn_state :: conn_state
  recv_buf :: buffer
  send_buf :: buffer
  last_active_ms :: u64
  illegal_count :: u32
  conn_session_id :: u64
  msg_count :: u32
  rate_window_start_ms :: u64

definition kSendQueueMax :: nat where "kSendQueueMax = 256 * 1024"
definition kMaxIllegalCount :: u32 where "kMaxIllegalCount = 10"
definition kMaxMsgRate :: u32 where "kMaxMsgRate = 100"

definition Connection_new :: "u64 \<Rightarrow> conn_id \<Rightarrow> int \<Rightarrow> connection" where
  "Connection_new now_ms i fd =
     \<lparr>conn_ident = i, conn_fd = fd, conn_state = C_CONNECTED,
      recv_buf = Buffer_new 4096, send_buf = Buffer_new 4096,
      last_active_ms = now_ms, illegal_count = 0, conn_session_id = 0,
      msg_count = 0, rate_window_start_ms = 0\<rparr>"

lemma new_conn_simps [simp]:
  "recv_buf (Connection_new t i fd) = Buffer_new 4096"
  "send_buf (Connection_new t i fd) = Buffer_new 4096"
  "illegal_count (Connection_new t i fd) = 0"
  "conn_state (Connection_new t i fd) = C_CONNECTED"
  "conn_ident (Connection_new t i fd) = i"
  "conn_fd (Connection_new t i fd) = fd"
  "last_active_ms (Connection_new t i fd) = t"
  by (simp_all add: Connection_new_def)

section \<open>Small operations\<close>

definition Connection_close :: "connection \<Rightarrow> connection" where
  "Connection_close c =
     (if conn_state c = C_CLOSED \<or> conn_state c = C_CLOSING then c
      else c\<lparr>conn_state := C_CLOSING\<rparr>)"

definition Connection_updateActive :: "u64 \<Rightarrow> connection \<Rightarrow> connection" where
  "Connection_updateActive now_ms c = c\<lparr>last_active_ms := now_ms, conn_state := C_ACTIVE\<rparr>"

definition Connection_isTimeout :: "u64 \<Rightarrow> u64 \<Rightarrow> connection \<Rightarrow> bool" where
  "Connection_isTimeout now_ms timeout_ms c \<longleftrightarrow> now_ms - last_active_ms c > timeout_ms"

definition Connection_recordIllegal :: "connection \<Rightarrow> connection" where
  "Connection_recordIllegal c = c\<lparr>illegal_count := illegal_count c + 1\<rparr>"

definition Connection_isBanned :: "connection \<Rightarrow> bool" where
  "Connection_isBanned c \<longleftrightarrow> illegal_count c \<ge> kMaxIllegalCount"

definition Connection_rateLimitExceeded :: "u64 \<Rightarrow> u32 \<Rightarrow> connection \<Rightarrow> bool \<times> connection" where
  "Connection_rateLimitExceeded now_ms max_per_sec c =
     (if now_ms - rate_window_start_ms c \<ge> 1000
      then (False, c\<lparr>rate_window_start_ms := now_ms, msg_count := 1\<rparr>)
      else let c' = c\<lparr>msg_count := msg_count c + 1\<rparr> in (msg_count c' > max_per_sec, c'))"

definition Connection_sendQueueFull :: "connection \<Rightarrow> bool" where
  "Connection_sendQueueFull c \<longleftrightarrow> Buffer_readable (send_buf c) \<ge> kSendQueueMax"

definition Connection_hasPendingWrites :: "connection \<Rightarrow> bool" where
  "Connection_hasPendingWrites c \<longleftrightarrow> Buffer_readable (send_buf c) > 0"

definition Connection_shouldCleanup :: "connection \<Rightarrow> bool" where
  "Connection_shouldCleanup c \<longleftrightarrow> conn_state c = C_CLOSING \<and> Buffer_readable (send_buf c) = 0"

section \<open>Reading\<close>

lemma readable_skip: "Buffer_readable (Buffer_skip n b) = Buffer_readable b - n"
  by (auto simp: Buffer_skip_def Buffer_readable_def Buffer_reset_def Let_def)

lemma decode_consumes:
  assumes "FrameCodec_decode b = (Inr (Some f), b')"
  shows "Buffer_readable b' < Buffer_readable b"
  using assms
  by (auto simp: FrameCodec_decode_def Let_def case_prod_beta read_skip readable_skip kHeaderSize_def
      split: if_splits)

text \<open>
  The decoding loop of \<open>onReadable\<close>. It ends on every input: a decoded frame shortens the buffer,
  and an illegal header, which stays in the buffer, is counted until the connection is banned (the
  counter can wrap once, when it starts at its maximum).
\<close>

definition illegal_budget :: "u32 \<Rightarrow> nat" where
  "illegal_budget n = (if n < kMaxIllegalCount then unat (kMaxIllegalCount - n) else 11)"

lemma illegal_budget_below: "n < kMaxIllegalCount \<Longrightarrow> illegal_budget n = 10 - unat n"
  by (simp add: illegal_budget_def kMaxIllegalCount_def word_less_nat_alt unat_sub word_le_nat_alt)

lemma illegal_budget_above: "\<not> n < kMaxIllegalCount \<Longrightarrow> illegal_budget n = 11"
  by (simp add: illegal_budget_def)

lemma illegal_budget_decreases:
  assumes "\<not> n + 1 \<ge> kMaxIllegalCount"
  shows "illegal_budget (n + 1) < illegal_budget n"
proof (cases "n < kMaxIllegalCount")
  case True
  then have "unat n < 10"
    by (simp add: kMaxIllegalCount_def word_less_nat_alt)
  then have "unat (n + 1) = unat n + 1"
    by (simp add: unat_word_ariths)
  with True assms \<open>unat n < 10\<close> show ?thesis
    by (simp add: illegal_budget_below not_le)
next
  case False
  with assms show ?thesis
    by (simp add: illegal_budget_below illegal_budget_above not_le)
qed

lemma decode_error_keeps: "FrameCodec_decode b = (Inl e, b') \<Longrightarrow> b' = b"
  by (auto simp: FrameCodec_decode_def Let_def case_prod_beta split: if_splits)

function decode_loop :: "connection \<Rightarrow> frame list \<Rightarrow> connection \<times> frame list" where
  "decode_loop c frames =
     (if Buffer_readable (recv_buf c) \<ge> kHeaderSize then
        case FrameCodec_decode (recv_buf c) of
          (Inr None, b) \<Rightarrow> (c\<lparr>recv_buf := b\<rparr>, frames)
        | (Inr (Some f), b) \<Rightarrow> decode_loop (c\<lparr>recv_buf := b\<rparr>) (frames @ [f])
        | (Inl e, b) \<Rightarrow>
            let c' = Connection_recordIllegal (c\<lparr>recv_buf := b\<rparr>) in
            if Connection_isBanned c' then (Connection_close c', frames)
            else decode_loop c' frames
      else (c, frames))"
  by pat_completeness auto

termination
  by (relation "measures [\<lambda>(c, fs). Buffer_readable (recv_buf c),
                          \<lambda>(c, fs). illegal_budget (illegal_count c)]")
    (auto simp: decode_consumes Connection_recordIllegal_def Connection_isBanned_def
      intro: illegal_budget_decreases dest!: decode_error_keeps [OF sym] decode_consumes [OF sym])

declare decode_loop.simps [simp del]

definition Connection_onReadable :: "u64 \<Rightarrow> sys_read \<Rightarrow> connection \<Rightarrow> connection \<times> frame list" where
  "Connection_onReadable now_ms rd c =
     (let (n, b) = Buffer_readFromFd rd (recv_buf c);
          c1 = c\<lparr>recv_buf := b\<rparr>
      in case n of
           Inl e \<Rightarrow>
             if e = EAGAIN \<or> e = EWOULDBLOCK then (c1, []) else (Connection_close c1, [])
         | Inr k \<Rightarrow>
             if k = 0 then (Connection_close c1, [])
             else decode_loop (Connection_updateActive now_ms c1) [])"

section \<open>Writing\<close>

definition Connection_onWritable :: "sys_write \<Rightarrow> connection \<Rightarrow> connection" where
  "Connection_onWritable wr c =
     (if Buffer_readable (send_buf c) = 0 then c
      else
        let (n, b) = Buffer_writeToFd wr (send_buf c);
            c1 = c\<lparr>send_buf := b\<rparr>
        in case n of
             Inl e \<Rightarrow> if e \<noteq> EAGAIN \<and> e \<noteq> EWOULDBLOCK then Connection_close c1 else c1
           | Inr k \<Rightarrow> c1)"

definition Connection_open :: "connection \<Rightarrow> bool" where
  "Connection_open c \<longleftrightarrow> conn_state c = C_CONNECTED \<or> conn_state c = C_ACTIVE"

definition Connection_sendRaw :: "bytes \<Rightarrow> connection \<Rightarrow> connection" where
  "Connection_sendRaw data c =
     (if \<not> Connection_open c then c
      else if Buffer_readable (send_buf c) + length data > kSendQueueMax then Connection_close c
      else c\<lparr>send_buf := snd (Buffer_write data (send_buf c))\<rparr>)"

definition Connection_sendFrame :: "u32 \<Rightarrow> u16 \<Rightarrow> u64 \<Rightarrow> bytes \<Rightarrow> connection \<Rightarrow> connection" where
  "Connection_sendFrame msg_id fl sq pl c =
     (if \<not> Connection_open c then c
      else case FrameCodec_encode msg_id fl sq pl of
        Inl e \<Rightarrow> c
      | Inr data \<Rightarrow>
          if Buffer_readable (send_buf c) + length data > kSendQueueMax then Connection_close c
          else c\<lparr>send_buf := snd (Buffer_write data (send_buf c))\<rparr>)"

section \<open>Decoding a whole byte string\<close>

text \<open>
  What the loop computes, as a function of the bytes: the frames at the front, the rest, and the
  error it stopped at, if it did.
\<close>

lemma decode_spec_shortens:
  "decode_spec bs = (Inr (Some f), r) \<Longrightarrow> length r < length bs"
  by (auto simp: decode_spec_def kHeaderSize_def split: if_splits)

function decode_all :: "bytes \<Rightarrow> frame list \<times> bytes \<times> codec_error option" where
  "decode_all bs =
     (case decode_spec bs of
        (Inr None, r) \<Rightarrow> ([], r, None)
      | (Inl e, r) \<Rightarrow> ([], r, Some e)
      | (Inr (Some f), r) \<Rightarrow> (case decode_all r of (fs, r', e) \<Rightarrow> (f # fs, r', e)))"
  by pat_completeness auto
termination
  by (relation "measure length") (auto dest: decode_spec_shortens [OF sym])

declare decode_all.simps [simp del]

lemma decode_all_unfold:
  "decode_spec bs = (Inr None, r) \<Longrightarrow> decode_all bs = ([], r, None)"
  "decode_spec bs = (Inl e, r) \<Longrightarrow> decode_all bs = ([], r, Some e)"
  "decode_spec bs = (Inr (Some f), r) \<Longrightarrow> decode_all r = (fs, r', er) \<Longrightarrow> decode_all bs = (f # fs, r', er)"
  by (simp_all add: decode_all.simps [of bs])

lemma parseHeader_append:
  "kHeaderSize \<le> length a \<Longrightarrow> FrameCodec_parseHeader (a @ b) = FrameCodec_parseHeader a"
  using parseHeader_prefix [of "length a" "a @ b"] by simp

text \<open>A decoded frame, and an error, do not depend on bytes that arrive later.\<close>

lemma decode_spec_append:
  "decode_spec a = (Inr (Some f), r) \<Longrightarrow> decode_spec (a @ b) = (Inr (Some f), r @ b)"
  "decode_spec a = (Inl e, r) \<Longrightarrow> decode_spec (a @ b) = (Inl e, r @ b)"
  by (auto simp: decode_spec_def declared_length_def parseHeader_append frame_of_def Let_def
      split: if_splits prod.splits)

lemma decode_spec_None_rest: "decode_spec a = (Inr None, r) \<Longrightarrow> r = a"
  by (auto simp: decode_spec_def split: if_splits)

lemma decode_all_append:
  assumes "decode_all a = (fs, r, None)" and "decode_all (r @ b) = (fs', r', e')"
  shows "decode_all (a @ b) = (fs @ fs', r', e')"
  using assms
proof (induction a arbitrary: fs rule: decode_all.induct)
  case (1 a)
  show ?case
  proof (cases "fst (decode_spec a)")
    case (Inl e)
    then obtain r0 where "decode_spec a = (Inl e, r0)" by (cases "decode_spec a") auto
    with "1.prems"(1) show ?thesis by (simp add: decode_all_unfold)
  next
    case (Inr fo)
    show ?thesis
    proof (cases fo)
      case None
      with Inr have d: "decode_spec a = (Inr None, a)"
        by (metis decode_spec_None_rest prod.collapse)
      with "1.prems" show ?thesis by (auto simp: decode_all_unfold)
    next
      case (Some f)
      then obtain r0 where d: "decode_spec a = (Inr (Some f), r0)"
        using Inr by (cases "decode_spec a") auto
      obtain fs0 r1 e1 where all: "decode_all r0 = (fs0, r1, e1)" by (metis prod_cases3)
      with d "1.prems"(1) have fs: "fs = f # fs0" "r1 = r" "e1 = None"
        by (auto simp: decode_all_unfold)
      have "decode_all (r0 @ b) = (fs0 @ fs', r', e')"
        using "1.IH" [OF d [symmetric] refl refl] all fs "1.prems"(2) by simp
      with d fs show ?thesis
        using decode_spec_append(1) [OF d] by (simp add: decode_all_unfold)
    qed
  qed
qed

lemma decode_all_error_append:
  assumes "decode_all a = (fs, r, Some e)"
  shows "decode_all (a @ b) = (fs, r @ b, Some e)"
  using assms
proof (induction a arbitrary: fs rule: decode_all.induct)
  case (1 a)
  obtain res r0 where d: "decode_spec a = (res, r0)" by (metis surj_pair)
  consider (err) e' where "res = Inl e'" | (half) "res = Inr None" | (frame) f where "res = Inr (Some f)"
    by (metis old.sum.exhaust option.exhaust)
  then show ?case
  proof cases
    case err
    with d "1.prems" decode_spec_append(2) [of a e' r0 b] show ?thesis
      by (auto simp: decode_all_unfold)
  next
    case half
    with d "1.prems" show ?thesis by (simp add: decode_all_unfold)
  next
    case frame
    obtain fs0 r1 e1 where all: "decode_all r0 = (fs0, r1, e1)" by (metis prod_cases3)
    with d frame "1.prems" have fs: "fs = f # fs0" "r1 = r" "e1 = Some e"
      by (auto simp: decode_all_unfold)
    have "decode_all (r0 @ b) = (fs0, r @ b, Some e)"
      using "1.IH" [OF d [symmetric] frame refl] all fs by simp
    with d frame fs show ?thesis
      using decode_spec_append(1) [of a f r0 b] by (simp add: decode_all_unfold)
  qed
qed

section \<open>The loop computes it\<close>

lemma readable_recv: "Buffer_inv (recv_buf c) \<Longrightarrow> length (Buffer_contents (recv_buf c)) = Buffer_readable (recv_buf c)"
  by (rule contents_length)

lemma decode_cases:
  assumes "Buffer_inv b" and "FrameCodec_decode b = (res, b')"
  shows "decode_spec (Buffer_contents b) = (res, Buffer_contents b')" and "Buffer_inv b'"
  using decode_refines [OF assms(1)] assms(2) by (auto simp: prod_eq_iff)

lemma decode_all_short: "length bs < kHeaderSize \<Longrightarrow> decode_all bs = ([], bs, None)"
  by (simp add: decode_all_unfold decode_spec_def)

text \<open>Without an error the loop delivers exactly those frames and changes only the receive buffer.\<close>

lemma decode_loop_clean:
  assumes "Buffer_inv (recv_buf c)" and "decode_all (Buffer_contents (recv_buf c)) = (fs, r, None)"
  shows "\<exists>b. decode_loop c acc = (c\<lparr>recv_buf := b\<rparr>, acc @ fs) \<and> Buffer_inv b \<and> Buffer_contents b = r"
  using assms
proof (induction c acc arbitrary: fs rule: decode_loop.induct)
  case (1 c acc)
  note inv = "1.prems"(1)
  show ?case
  proof (cases "Buffer_readable (recv_buf c) \<ge> kHeaderSize")
    case False
    then have "fs = []" "r = Buffer_contents (recv_buf c)"
      using "1.prems" decode_all_short [of "Buffer_contents (recv_buf c)"] readable_recv [OF inv] by auto
    with False inv show ?thesis
      by (intro exI [of _ "recv_buf c"]) (simp add: decode_loop.simps [of c])
  next
    case True
    obtain res b where d: "FrameCodec_decode (recv_buf c) = (res, b)" by (metis surj_pair)
    note s = decode_cases [OF inv d]
    consider (err) e where "res = Inl e" | (half) "res = Inr None" | (frame) f where "res = Inr (Some f)"
      by (metis old.sum.exhaust option.exhaust)
    then show ?thesis
    proof cases
      case err
      with s(1) "1.prems"(2) show ?thesis by (simp add: decode_all_unfold)
    next
      case half
      with s "1.prems"(2) have "fs = []" "Buffer_contents b = r"
        by (auto simp: decode_all_unfold)
      with half d True s(2) show ?thesis
        by (intro exI [of _ b]) (simp add: decode_loop.simps [of c])
    next
      case frame
      obtain fs0 where all: "decode_all (Buffer_contents b) = (fs0, r, None)" and fs: "fs = f # fs0"
        using s(1) frame "1.prems"(2)
        by (cases "decode_all (Buffer_contents b)") (auto simp: decode_all_unfold)
      have "\<exists>b'. decode_loop (c\<lparr>recv_buf := b\<rparr>) (acc @ [f]) =
              (c\<lparr>recv_buf := b\<rparr>\<lparr>recv_buf := b'\<rparr>, (acc @ [f]) @ fs0) \<and> Buffer_inv b' \<and> Buffer_contents b' = r"
        using "1.IH"(2) [OF True d [symmetric] frame refl] s(2) all by simp
      with True d frame fs show ?thesis
        by (auto simp: decode_loop.simps [of c])
    qed
  qed
qed

text \<open>
  With an error, the frames before it are delivered, and the bad header, which is never consumed,
  is counted again and again in the same call until the connection is banned and closed.
\<close>

lemma illegal_step:
  assumes "n < kMaxIllegalCount" and "n + 1 \<ge> kMaxIllegalCount"
  shows "n + 1 = kMaxIllegalCount"
proof -
  have n: "unat n < 10"
    using assms(1) by (simp add: kMaxIllegalCount_def word_less_nat_alt)
  then have "unat (n + 1) = unat n + 1"
    by (simp add: unat_word_ariths)
  with n assms(2) have "unat (n + 1) = unat kMaxIllegalCount"
    by (simp add: kMaxIllegalCount_def word_le_nat_alt)
  then show ?thesis
    by (simp only: word_unat_eq_iff)
qed

lemma decode_loop_error:
  assumes "Buffer_inv (recv_buf c)" and "decode_all (Buffer_contents (recv_buf c)) = (fs, r, Some e)"
  shows "\<exists>b n. decode_loop c acc = (Connection_close (c\<lparr>recv_buf := b, illegal_count := n\<rparr>), acc @ fs) \<and>
           Buffer_inv b \<and> Buffer_contents b = r \<and> n \<ge> kMaxIllegalCount \<and>
           (illegal_count c < kMaxIllegalCount \<longrightarrow> n = kMaxIllegalCount)"
  using assms
proof (induction c acc arbitrary: fs rule: decode_loop.induct)
  case (1 c acc)
  note inv = "1.prems"(1)
  have True: "Buffer_readable (recv_buf c) \<ge> kHeaderSize"
    using "1.prems" decode_all_short [of "Buffer_contents (recv_buf c)"] readable_recv [OF inv]
    by (cases "Buffer_readable (recv_buf c) \<ge> kHeaderSize") auto
  obtain res b where d: "FrameCodec_decode (recv_buf c) = (res, b)" by (metis surj_pair)
  note s = decode_cases [OF inv d]
  consider (err) e' where "res = Inl e'" | (half) "res = Inr None" | (frame) f where "res = Inr (Some f)"
    by (metis old.sum.exhaust option.exhaust)
  then show ?case
  proof cases
    case err
    let ?c = "Connection_recordIllegal (c\<lparr>recv_buf := b\<rparr>)"
    have b: "b = recv_buf c" using d err by (simp add: decode_error_keeps)
    from err s(1) "1.prems"(2) have r: "fs = []" "Buffer_contents b = r"
      by (auto simp: decode_all_unfold)
    show ?thesis
    proof (cases "Connection_isBanned ?c")
      case banned: True
      then have "illegal_count c + 1 \<ge> kMaxIllegalCount"
        by (simp add: Connection_isBanned_def Connection_recordIllegal_def)
      with banned True d err r s(2) show ?thesis
        using illegal_step [of "illegal_count c"]
        by (intro exI [of _ b] exI [of _ "illegal_count c + 1"])
          (auto simp: decode_loop.simps [of c] Connection_recordIllegal_def)
    next
      case False
      have "illegal_count ?c < kMaxIllegalCount"
        using False by (simp add: Connection_isBanned_def not_le)
      moreover have "\<exists>b' n. decode_loop ?c acc = (Connection_close (?c\<lparr>recv_buf := b', illegal_count := n\<rparr>), acc @ fs) \<and>
           Buffer_inv b' \<and> Buffer_contents b' = r \<and> n \<ge> kMaxIllegalCount \<and>
           (illegal_count ?c < kMaxIllegalCount \<longrightarrow> n = kMaxIllegalCount)"
        using "1.IH"(1) [OF True d [symmetric] err refl False] "1.prems" b s(2)
        by (simp add: Connection_recordIllegal_def)
      ultimately show ?thesis
        using True d err False by (auto simp: decode_loop.simps [of c] Connection_recordIllegal_def)
    qed
  next
    case half
    with s(1) "1.prems"(2) show ?thesis by (simp add: decode_all_unfold)
  next
    case frame
    obtain fs0 where all: "decode_all (Buffer_contents b) = (fs0, r, Some e)" and fs: "fs = f # fs0"
      using s(1) frame "1.prems"(2)
      by (cases "decode_all (Buffer_contents b)") (auto simp: decode_all_unfold)
    from "1.IH"(2) [OF True d [symmetric] frame refl] s(2) all True d frame fs show ?thesis
      by (fastforce simp: decode_loop.simps [of c])
  qed
qed

section \<open>What a readable socket delivers\<close>

lemma updateActive_simps [simp]:
  "recv_buf (Connection_updateActive t c) = recv_buf c"
  "send_buf (Connection_updateActive t c) = send_buf c"
  "illegal_count (Connection_updateActive t c) = illegal_count c"
  "conn_state (Connection_updateActive t c) = C_ACTIVE"
  "conn_ident (Connection_updateActive t c) = conn_ident c"
  "conn_fd (Connection_updateActive t c) = conn_fd c"
  by (simp_all add: Connection_updateActive_def)

lemma close_simps [simp]:
  "recv_buf (Connection_close c) = recv_buf c"
  "send_buf (Connection_close c) = send_buf c"
  "illegal_count (Connection_close c) = illegal_count c"
  "conn_ident (Connection_close c) = conn_ident c"
  "conn_fd (Connection_close c) = conn_fd c"
  "last_active_ms (Connection_close c) = last_active_ms c"
  by (simp_all add: Connection_close_def)

lemma close_state: "conn_state (Connection_close c) = (if conn_state c = C_CLOSED then C_CLOSED else C_CLOSING)"
  by (simp add: Connection_close_def)

lemma onReadable_chunk:
  assumes "Buffer_inv (recv_buf c)" and "ch \<noteq> []" and "length ch \<le> 4096"
    and "decode_all (Buffer_contents (recv_buf c) @ ch) = (fs, r, None)"
  obtains b where "Connection_onReadable t (chunk_waiting ch) c = (Connection_updateActive t (c\<lparr>recv_buf := b\<rparr>), fs)"
    and "Buffer_inv b" and "Buffer_contents b = r"
proof -
  obtain b0 where b0: "Buffer_readFromFd (chunk_waiting ch) (recv_buf c) = (Inr (length ch), b0)"
      "Buffer_inv b0" "Buffer_contents b0 = Buffer_contents (recv_buf c) @ ch"
    using readFromFd_chunk [OF assms(1-3)] .
  let ?c = "Connection_updateActive t (c\<lparr>recv_buf := b0\<rparr>)"
  from decode_loop_clean [of ?c fs r "[]"] b0 assms(4) obtain b
    where "decode_loop ?c [] = (?c\<lparr>recv_buf := b\<rparr>, fs)" "Buffer_inv b" "Buffer_contents b = r"
    by auto
  with b0 assms(2) show ?thesis
    by (intro that [of b]) (auto simp: Connection_onReadable_def Connection_updateActive_def)
qed

text \<open>A connection that is fed chunk after chunk, each with the time it is read at.\<close>

fun Connection_feed :: "connection \<Rightarrow> (u64 \<times> bytes) list \<Rightarrow> connection \<times> frame list" where
  "Connection_feed c [] = (c, [])"
| "Connection_feed c ((t, ch) # chunks) =
     (let (c', fs) = Connection_onReadable t (chunk_waiting ch) c;
          (c'', gs) = Connection_feed c' chunks
      in (c'', fs @ gs))"

definition chunk_ok :: "u64 \<times> bytes \<Rightarrow> bool" where
  "chunk_ok x \<longleftrightarrow> snd x \<noteq> [] \<and> length (snd x) \<le> 4096"

lemma decode_all_rest: "decode_all bs = (fs, r, None) \<Longrightarrow> decode_all r = ([], r, None)"
proof (induction bs arbitrary: fs rule: decode_all.induct)
  case (1 bs)
  obtain res r0 where d: "decode_spec bs = (res, r0)" by (metis surj_pair)
  consider (err) e' where "res = Inl e'" | (half) "res = Inr None" | (frame) f where "res = Inr (Some f)"
    by (metis old.sum.exhaust option.exhaust)
  then show ?case
  proof cases
    case half
    with d have "r0 = bs" by (simp add: decode_spec_None_rest)
    with half d "1.prems" show ?thesis by (auto simp: decode_all_unfold)
  next
    case frame
    obtain fs0 r1 e1 where "decode_all r0 = (fs0, r1, e1)" by (metis prod_cases3)
    with "1.IH" [OF d [symmetric] frame refl] d frame "1.prems" show ?thesis
      by (auto simp: decode_all_unfold)
  qed (use d "1.prems" in \<open>simp add: decode_all_unfold\<close>)
qed

text \<open>A string whose decoding ends cleanly splits at any point into a clean part and the rest.\<close>

lemma decode_all_split:
  assumes "decode_all (a @ b) = (fs, r, None)"
  obtains fs1 r1 fs2 where "decode_all a = (fs1, r1, None)" and "decode_all (r1 @ b) = (fs2, r, None)"
    and "fs = fs1 @ fs2"
proof -
  obtain fs1 r1 e1 where a: "decode_all a = (fs1, r1, e1)" by (metis prod_cases3)
  have "e1 = None"
    using assms a decode_all_error_append [of a fs1 r1 _ b] by (cases e1) auto
  moreover obtain fs2 r2 e2 where b: "decode_all (r1 @ b) = (fs2, r2, e2)" by (metis prod_cases3)
  ultimately show ?thesis
    using that a decode_all_append [of a fs1 r1 b] assms by auto
qed

lemma feed_delivers:
  assumes "Buffer_inv (recv_buf c)" and "list_all chunk_ok chunks"
    and "decode_all (Buffer_contents (recv_buf c)) = ([], Buffer_contents (recv_buf c), None)"
    and "decode_all (Buffer_contents (recv_buf c) @ concat (map snd chunks)) = (fs, r, None)"
  shows "\<exists>c'. Connection_feed c chunks = (c', fs) \<and> Buffer_contents (recv_buf c') = r \<and>
           Buffer_inv (recv_buf c') \<and> illegal_count c' = illegal_count c \<and>
           conn_state c' = (if chunks = [] then conn_state c else C_ACTIVE)"
  using assms
proof (induction chunks arbitrary: c fs)
  case Nil
  then show ?case by simp
next
  case (Cons x chunks)
  obtain t ch where x: "x = (t, ch)" by (cases x)
  with Cons.prems have ch: "ch \<noteq> []" "length ch \<le> 4096" "list_all chunk_ok chunks"
    by (simp_all add: chunk_ok_def [of "(t, ch)"])
  obtain fs1 r1 fs2 where sp: "decode_all (Buffer_contents (recv_buf c) @ ch) = (fs1, r1, None)"
      "decode_all (r1 @ concat (map snd chunks)) = (fs2, r, None)" "fs = fs1 @ fs2"
  proof (rule decode_all_split)
    show "decode_all ((Buffer_contents (recv_buf c) @ ch) @ concat (map snd chunks)) = (fs, r, None)"
      using Cons.prems(4) x by simp
  qed
  obtain b where b: "Connection_onReadable t (chunk_waiting ch) c = (Connection_updateActive t (c\<lparr>recv_buf := b\<rparr>), fs1)"
      "Buffer_inv b" "Buffer_contents b = r1"
    using onReadable_chunk [OF Cons.prems(1) ch(1,2) sp(1)] .
  with Cons.IH [of "Connection_updateActive t (c\<lparr>recv_buf := b\<rparr>)" fs2] sp(2) ch(3)
    decode_all_rest [OF sp(1)]
  show ?case
    by (auto simp: x sp(3))
qed

section \<open>Encoded frames survive any chunking\<close>

definition frame_encodes :: "frame \<Rightarrow> bytes \<Rightarrow> bool" where
  "frame_encodes f bs \<longleftrightarrow> FrameCodec_encode_frame f = Inr bs \<and> total_length f = of_nat (length bs)"

lemma decode_spec_frame: "frame_encodes f bs \<Longrightarrow> decode_spec (bs @ rest) = (Inr (Some f), rest)"
  using decode_spec_encode [of "message_id f" "flags f" "sequence f" "payload f" bs rest]
  by (auto simp: frame_encodes_def FrameCodec_encode_frame_def)

lemma decode_all_Nil: "decode_all [] = ([], [], None)"
  by (simp add: decode_all_short kHeaderSize_def)

lemma decode_all_encoded:
  "list_all2 frame_encodes fs bss \<Longrightarrow> decode_all (concat bss) = (fs, [], None)"
proof (induction rule: list_all2_induct)
  case Nil
  then show ?case by (simp add: decode_all_Nil)
next
  case (Cons f fs bs bss)
  then show ?case
    using decode_spec_frame [of f bs "concat bss"] by (simp add: decode_all_unfold)
qed

section \<open>The send queue\<close>

definition Connection_inv :: "connection \<Rightarrow> bool" where
  "Connection_inv c \<longleftrightarrow> Buffer_inv (recv_buf c) \<and> Buffer_inv (send_buf c) \<and>
     Buffer_readable (send_buf c) \<le> kSendQueueMax"

lemma new_conn_inv [simp]: "Connection_inv (Connection_new t i fd)"
  by (simp add: Connection_inv_def Connection_new_def Buffer_new_def Buffer_readable_def
      Buffer_inv_def kSendQueueMax_def)

lemma readable_write:
  "Buffer_inv b \<Longrightarrow> Buffer_readable (snd (Buffer_write d b)) = Buffer_readable b + length d"
  using contents_length [OF write_spec(1)] contents_length write_spec(2)
  by (metis length_append)

lemma close_inv: "Connection_inv c \<Longrightarrow> Connection_inv (Connection_close c)"
  by (simp add: Connection_inv_def)

lemma sendRaw_inv: "Connection_inv c \<Longrightarrow> Connection_inv (Connection_sendRaw d c)"
  by (auto simp: Connection_sendRaw_def Connection_inv_def write_spec readable_write)

lemma sendFrame_inv: "Connection_inv c \<Longrightarrow> Connection_inv (Connection_sendFrame m f s pl c)"
  by (auto simp: Connection_sendFrame_def Connection_inv_def write_spec readable_write split: sum.splits)

lemma onWritable_inv:
  "Connection_inv c \<Longrightarrow> sys_write_ok wr \<Longrightarrow> Connection_inv (Connection_onWritable wr c)"
  using writeToFd_spec(1,4) [of "send_buf c" wr]
  by (auto simp: Connection_onWritable_def Connection_inv_def case_prod_beta Let_def
      split: sum.splits intro: order_trans)

text \<open>What a call of \<open>onReadable\<close> can do to the connection, on every branch.\<close>

lemma decode_loop_frame:
  assumes "Buffer_inv (recv_buf c)"
  obtains b n where "Buffer_inv b"
    and "fst (decode_loop c acc) = c\<lparr>recv_buf := b\<rparr> \<or>
         fst (decode_loop c acc) = Connection_close (c\<lparr>recv_buf := b, illegal_count := n\<rparr>)"
proof -
  obtain fs r e where "decode_all (Buffer_contents (recv_buf c)) = (fs, r, e)"
    by (metis prod_cases3)
  then show ?thesis
    using that decode_loop_clean [OF assms, of fs r acc] decode_loop_error [OF assms, of fs r _ acc]
    by (cases e) fastforce+
qed

lemma onReadable_inv:
  assumes "Connection_inv c" and "sys_read_ok rd"
  shows "Connection_inv (fst (Connection_onReadable t rd c))"
proof -
  obtain n b where f: "Buffer_readFromFd rd (recv_buf c) = (n, b)" by (metis surj_pair)
  have b: "Buffer_inv b"
    using readFromFd_spec(1) [of "recv_buf c" rd] assms f by (simp add: Connection_inv_def)
  obtain b' m where b': "Buffer_inv b'"
      "fst (decode_loop (Connection_updateActive t (c\<lparr>recv_buf := b\<rparr>)) []) =
         Connection_updateActive t (c\<lparr>recv_buf := b\<rparr>)\<lparr>recv_buf := b'\<rparr> \<or>
       fst (decode_loop (Connection_updateActive t (c\<lparr>recv_buf := b\<rparr>)) []) =
         Connection_close (Connection_updateActive t (c\<lparr>recv_buf := b\<rparr>)\<lparr>recv_buf := b', illegal_count := m\<rparr>)"
    using decode_loop_frame [of "Connection_updateActive t (c\<lparr>recv_buf := b\<rparr>)" "[]"] b by auto
  have "Connection_inv (fst (decode_loop (Connection_updateActive t (c\<lparr>recv_buf := b\<rparr>)) []))"
    using b' assms(1) by (auto simp: Connection_inv_def)
  with b assms(1) f show ?thesis
    by (auto simp: Connection_onReadable_def Connection_inv_def Let_def split: sum.splits)
qed

text \<open>A connection as a machine driven by its event loop.\<close>

datatype conn_event =
    Readable u64 sys_read
  | Writable sys_write
  | SendFrame u32 u16 u64 bytes
  | SendRaw bytes
  | Close

fun Connection_step :: "connection \<Rightarrow> conn_event \<Rightarrow> connection" where
  "Connection_step c (Readable t rd) = fst (Connection_onReadable t rd c)"
| "Connection_step c (Writable wr) = Connection_onWritable wr c"
| "Connection_step c (SendFrame m f s pl) = Connection_sendFrame m f s pl c"
| "Connection_step c (SendRaw d) = Connection_sendRaw d c"
| "Connection_step c Close = Connection_close c"

fun kernel_ok :: "connection \<Rightarrow> conn_event \<Rightarrow> bool" where
  "kernel_ok c (Readable t rd) = sys_read_ok rd"
| "kernel_ok c (Writable wr) = sys_write_ok wr"
| "kernel_ok c e = True"

interpretation conn: machine Connection_step kernel_ok Connection_inv
proof unfold_locales
  fix c e
  assume "Connection_inv c" "kernel_ok c e"
  then show "Connection_inv (Connection_step c e)"
    by (cases e) (auto intro: onReadable_inv onWritable_inv sendFrame_inv sendRaw_inv close_inv)
qed

section \<open>Properties\<close>



text \<open>The hypotheses hold for a new connection and one heartbeat frame that arrives in two pieces.\<close>

definition heartbeat_frame :: frame where
  "heartbeat_frame = \<lparr>total_length = 20, message_id = 1101, flags = 0, sequence = 7, payload = [8, 1]\<rparr>"

definition heartbeat_bytes :: bytes where
  "heartbeat_bytes = [0, 0, 0, 20, 0, 0, 4, 77, 0, 0, 0, 0, 0, 0, 0, 0, 0, 7, 8, 1]"

lemma heartbeat_encodes: "frame_encodes heartbeat_frame heartbeat_bytes"
  by (simp add: frame_encodes_def FrameCodec_encode_frame_def FrameCodec_encode_def frame_consts
      heartbeat_frame_def heartbeat_bytes_def FrameCodec_writeHeader_def be32_def be16_def
      seq_hi_def seq_lo_take_bit)





text \<open>
  C31. The send queue is bounded. Whatever a new connection is asked to do (reads, writes, frames and
  raw data to send, closing), in any order and for any kernel that keeps the contracts of \<open>read\<close> and
  \<open>write\<close>, at most \<open>kSendQueueMax\<close> bytes are ever waiting to be sent and both buffers stay
  well-formed.
\<close>

theorem send_queue_bounded:
  assumes "admitted Connection_step kernel_ok (Connection_new t i fd) es"
  shows "Buffer_readable (send_buf (run_events Connection_step (Connection_new t i fd) es)) \<le> kSendQueueMax \<and>
         Connection_inv (run_events Connection_step (Connection_new t i fd) es)"
  using conn.run_inv [OF new_conn_inv assms] by (simp add: Connection_inv_def)

theorem send_queue_bounded_witness:
  "Buffer_readable (send_buf (run_events Connection_step (Connection_new 5 1 9)
     [SendRaw [1, 2, 3], Readable 6 (chunk_waiting [4]), Close])) \<le> kSendQueueMax"
proof -
  have "admitted Connection_step kernel_ok (Connection_new 5 1 9)
     [SendRaw [1, 2, 3], Readable 6 (chunk_waiting [4]), Close]"
    by (simp add: chunk_waiting_ok)
  then show ?thesis
    by (rule send_queue_bounded [THEN conjunct1])
qed

text \<open>
  Sending either queues the whole frame or closes. On an open connection \<open>sendFrame\<close> appends the
  complete encoding to the send queue when it fits; when it does not fit the connection is marked
  closing and no byte of the frame is queued; a payload that is too large is dropped without effect,
  and a connection that is closing takes nothing.
\<close>

theorem sendFrame_all_or_nothing:
  assumes "Connection_inv c"
  shows "Buffer_contents (send_buf (Connection_sendFrame m f s pl c)) =
           Buffer_contents (send_buf c) @
           (if Connection_open c \<and> length pl \<le> kMaxPayload \<and>
               Buffer_readable (send_buf c) + kHeaderSize + length pl \<le> kSendQueueMax
            then FrameCodec_writeHeader (of_nat (kHeaderSize + length pl)) m f s @ pl else []) \<and>
         (conn_state (Connection_sendFrame m f s pl c) =
           (if Connection_open c \<and> length pl \<le> kMaxPayload \<and>
               Buffer_readable (send_buf c) + kHeaderSize + length pl > kSendQueueMax
            then C_CLOSING else conn_state c))"
proof -
  have "Buffer_inv (send_buf c)"
    using assms by (simp add: Connection_inv_def)
  then show ?thesis
    by (auto simp: Connection_sendFrame_def FrameCodec_encode_def Let_def write_spec Connection_open_def
        close_state simp del: of_nat_add)
qed

theorem sendFrame_all_or_nothing_witness:
  "Buffer_contents (send_buf (Connection_sendFrame 1102 0 0 [] (Connection_new 5 1 9))) =
     FrameCodec_writeHeader 18 1102 0 0"
  using sendFrame_all_or_nothing [of "Connection_new 5 1 9" 1102 0 0 "[]"]
  by (simp add: Connection_open_def frame_consts kSendQueueMax_def Buffer_readable_def Buffer_new_def
      Buffer_contents_def)

text \<open>
  A closing connection can come back to life. \<open>onReadable\<close> calls \<open>updateActive\<close>, which sets the state
  to active without looking at it: a connection that was marked closing (send queue full, heartbeat
  or idle timeout, write error) and still has bytes to flush becomes active again as soon as the peer
  sends anything that is not illegal, and is then no longer due for cleanup.
\<close>

theorem closing_connection_resurrected:
  assumes "Connection_inv c" and "conn_state c = C_CLOSING" and "ch \<noteq> []" and "length ch \<le> 4096"
    and "decode_all (Buffer_contents (recv_buf c) @ ch) = (fs, r, None)"
  shows "conn_state (fst (Connection_onReadable t (chunk_waiting ch) c)) = C_ACTIVE \<and>
         snd (Connection_onReadable t (chunk_waiting ch) c) = fs \<and>
         \<not> Connection_shouldCleanup (fst (Connection_onReadable t (chunk_waiting ch) c))"
proof -
  obtain b where "Connection_onReadable t (chunk_waiting ch) c = (Connection_updateActive t (c\<lparr>recv_buf := b\<rparr>), fs)"
    using onReadable_chunk [OF _ assms(3,4,5), of t] assms(1) by (metis Connection_inv_def)
  then show ?thesis
    by (simp add: Connection_shouldCleanup_def)
qed

theorem closing_connection_resurrected_witness:
  "conn_state (Connection_close (Connection_new 5 1 9)) = C_CLOSING \<and>
   conn_state (fst (Connection_onReadable 6 (chunk_waiting [0]) (Connection_close (Connection_new 5 1 9)))) = C_ACTIVE"
proof -
  have "decode_all [0] = ([], [0], None)"
    by (simp add: decode_all_short frame_consts)
  moreover have "conn_state (Connection_close (Connection_new 5 1 9)) = C_CLOSING"
    by (simp add: close_state)
  ultimately show ?thesis
    using closing_connection_resurrected [of "Connection_close (Connection_new 5 1 9)" "[0]" "[]" "[0]" 6]
      close_inv [OF new_conn_inv] by simp
qed

end
