(* ===== verification/Timer_Wheel.thy ===== *)
theory Timer_Wheel
  imports Prelude
begin

text \<open>
  \<open>src/src/network/timer_wheel.{h,cpp}\<close>: the timing wheel of an event loop. Callbacks are values of a
  type \<open>'cb\<close> and \<open>tick\<close> is given what running one does to the wheel and to the state around it, so
  that a callback that calls back into the wheel is visible: the C++ loop iterates over the bucket
  while it runs the callbacks, and a callback that changes that bucket invalidates the iteration.
  The wheel is shown to implement a countdown per timer.
\<close>

section \<open>State\<close>

record 'cb timer_entry =
  te_id :: conn_id
  te_callback :: "'cb option"

record 'cb timer_wheel =
  slots :: "'cb timer_entry list list"
  current_slot :: nat
  id_to_slot :: "(conn_id, nat) umap"
  entries :: nat

definition kTickMs :: u64 where "kTickMs = 10"
definition kSlots :: nat where "kSlots = 6000"

definition TimerWheel_new :: "'cb timer_wheel" where
  "TimerWheel_new = \<lparr>slots = replicate kSlots [], current_slot = 0, id_to_slot = [], entries = 0\<rparr>"

section \<open>Operations\<close>

definition TimerWheel_size :: "'cb timer_wheel \<Rightarrow> nat" where
  "TimerWheel_size w = entries w"

definition TimerWheel_slotOf :: "u64 \<Rightarrow> 'cb timer_wheel \<Rightarrow> nat" where
  "TimerWheel_slotOf delay_ms w =
     (let ticks = (delay_ms + kTickMs - 1) div kTickMs;
          ticks = (if ticks = 0 then 1 else ticks)
      in unat ((of_nat (current_slot w) + ticks) mod of_nat kSlots))"

text \<open>The search loop of \<open>remove\<close> and \<open>refresh\<close>: erase the first entry with the id.\<close>

fun erase_entry :: "conn_id \<Rightarrow> 'cb timer_entry list \<Rightarrow> 'cb timer_entry list" where
  "erase_entry i [] = []"
| "erase_entry i (e # es) = (if te_id e = i then es else e # erase_entry i es)"

fun callback_of :: "conn_id \<Rightarrow> 'cb timer_entry list \<Rightarrow> 'cb option" where
  "callback_of i [] = None"
| "callback_of i (e # es) = (if te_id e = i then te_callback e else callback_of i es)"

definition insert_entry :: "conn_id \<Rightarrow> nat \<Rightarrow> 'cb option \<Rightarrow> 'cb timer_wheel \<Rightarrow> 'cb timer_wheel" where
  "insert_entry i s cb w =
     w\<lparr>slots := (slots w)[s := slots w ! s @ [\<lparr>te_id = i, te_callback = cb\<rparr>]],
       id_to_slot := uput i s (id_to_slot w),
       entries := entries w + 1\<rparr>"

definition TimerWheel_remove :: "conn_id \<Rightarrow> 'cb timer_wheel \<Rightarrow> 'cb timer_wheel" where
  "TimerWheel_remove i w =
     (case uget (id_to_slot w) i of
        None \<Rightarrow> w
      | Some s \<Rightarrow>
          w\<lparr>slots := (slots w)[s := erase_entry i (slots w ! s)],
            id_to_slot := uerase i (id_to_slot w),
            entries := entries w - 1\<rparr>)"

definition TimerWheel_add :: "conn_id \<Rightarrow> u64 \<Rightarrow> 'cb option \<Rightarrow> 'cb timer_wheel \<Rightarrow> 'cb timer_wheel" where
  "TimerWheel_add i timeout_ms cb w =
     (let w' = TimerWheel_remove i w in insert_entry i (TimerWheel_slotOf timeout_ms w') cb w')"

definition TimerWheel_refresh :: "conn_id \<Rightarrow> u64 \<Rightarrow> 'cb timer_wheel \<Rightarrow> 'cb timer_wheel" where
  "TimerWheel_refresh i timeout_ms w =
     (case uget (id_to_slot w) i of
        None \<Rightarrow> w
      | Some old_slot \<Rightarrow>
          let cb = callback_of i (slots w ! old_slot);
              w' = w\<lparr>slots := (slots w)[old_slot := erase_entry i (slots w ! old_slot)],
                     id_to_slot := uerase i (id_to_slot w),
                     entries := entries w - 1\<rparr>
          in insert_entry i (TimerWheel_slotOf timeout_ms w') cb w')"

text \<open>
  The range-for loop of \<open>tick\<close> over the bucket of the current slot. \<open>run cb i\<close> is the effect of
  calling callback \<open>cb\<close> with \<open>i\<close> on the wheel and the surrounding state. When the call changes the
  bucket, the reference to the entry and the loop's end iterator are invalid and their next use is
  undefined behaviour.
\<close>

datatype timer_fault = Iterator_invalidated

type_synonym ('cb, 'w) callback_run = "'cb \<Rightarrow> conn_id \<Rightarrow> 'cb timer_wheel \<times> 'w \<Rightarrow> 'cb timer_wheel \<times> 'w"

fun tick_loop ::
  "('cb, 'w) callback_run \<Rightarrow> 'cb timer_entry list \<Rightarrow> 'cb timer_entry list \<Rightarrow> conn_id list \<Rightarrow>
   'cb timer_wheel \<times> 'w \<Rightarrow> timer_fault + conn_id list \<times> 'cb timer_wheel \<times> 'w"
where
  "tick_loop run bucket [] expired (w, x) = Inr (expired, w, x)"
| "tick_loop run bucket (e # es) expired (w, x) =
     (let expired' = expired @ [te_id e];
          (w', x') = (case te_callback e of Some cb \<Rightarrow> run cb (te_id e) (w, x) | None \<Rightarrow> (w, x))
      in if slots w' ! current_slot w' \<noteq> bucket then Inl Iterator_invalidated
         else tick_loop run bucket es expired'
                (w'\<lparr>id_to_slot := uerase (te_id e) (id_to_slot w')\<rparr>, x'))"

definition TimerWheel_tick ::
  "('cb, 'w) callback_run \<Rightarrow> 'cb timer_wheel \<times> 'w \<Rightarrow> timer_fault + conn_id list \<times> 'cb timer_wheel \<times> 'w"
where
  "TimerWheel_tick run wx =
     (let (w, x) = wx;
          w1 = w\<lparr>current_slot := (current_slot w + 1) mod kSlots\<rparr>;
          bucket = slots w1 ! current_slot w1
      in res_bind (tick_loop run bucket bucket [] (w1, x))
           (\<lambda>(expired, w2, x2).
              Inr (expired,
                   w2\<lparr>entries := entries w2 - length (slots w2 ! current_slot w2),
                      slots := (slots w2)[current_slot w2 := []]\<rparr>, x2)))"

section \<open>Invariant\<close>

abbreviation slot_ids :: "'cb timer_wheel \<Rightarrow> nat \<Rightarrow> conn_id list" where
  "slot_ids w s \<equiv> map te_id (slots w ! s)"

definition TimerWheel_inv :: "'cb timer_wheel \<Rightarrow> bool" where
  "TimerWheel_inv w \<longleftrightarrow>
     length (slots w) = kSlots \<and> current_slot w < kSlots \<and> umap_ok (id_to_slot w) \<and>
     (\<forall>i s. uget (id_to_slot w) i = Some s \<longrightarrow> s < kSlots) \<and>
     (\<forall>s < kSlots. distinct (slot_ids w s) \<and>
        (\<forall>i. i \<in> set (slot_ids w s) \<longleftrightarrow> uget (id_to_slot w) i = Some s)) \<and>
     entries w = length (id_to_slot w)"

lemma kSlots_pos [simp]: "0 < kSlots"
  by (simp add: kSlots_def)

lemma new_wheel_inv [simp]: "TimerWheel_inv TimerWheel_new"
  by (simp add: TimerWheel_inv_def TimerWheel_new_def)

lemma erase_entry_ids: "distinct (map te_id es) \<Longrightarrow> map te_id (erase_entry i es) = removeAll i (map te_id es)"
  by (induction es) (auto simp: removeAll_id)

lemma erase_entry_set:
  "distinct (map te_id es) \<Longrightarrow> te_id ` set (erase_entry i es) = te_id ` set es - {i}"
  using arg_cong [OF erase_entry_ids, of es set i] by simp

lemma erase_entry_distinct: "distinct (map te_id es) \<Longrightarrow> distinct (map te_id (erase_entry i es))"
  by (simp add: erase_entry_ids distinct_removeAll)

lemma slotOf_bound: "TimerWheel_slotOf t w < kSlots"
proof -
  have "(of_nat (current_slot w) + x :: u64) mod of_nat kSlots < of_nat kSlots" for x
    by (rule word_mod_less_divisor) (simp add: kSlots_def)
  moreover have "unat (of_nat kSlots :: u64) = kSlots"
    by (simp add: kSlots_def)
  ultimately show ?thesis
    by (simp add: TimerWheel_slotOf_def Let_def word_less_nat_alt)
qed

lemma slotOf_cong: "current_slot w = current_slot w' \<Longrightarrow> TimerWheel_slotOf t w = TimerWheel_slotOf t w'"
  by (simp add: TimerWheel_slotOf_def)

lemma remove_inv:
  assumes "TimerWheel_inv w"
  shows "TimerWheel_inv (TimerWheel_remove i w)"
proof (cases "uget (id_to_slot w) i")
  case None
  with assms show ?thesis by (simp add: TimerWheel_remove_def)
next
  case (Some s)
  with assms show ?thesis
    by (auto simp: TimerWheel_remove_def TimerWheel_inv_def nth_list_update erase_entry_distinct
        erase_entry_set length_uerase)
qed

lemma insert_entry_inv:
  assumes "TimerWheel_inv w" and "uget (id_to_slot w) i = None" and "s < kSlots"
  shows "TimerWheel_inv (insert_entry i s cb w)"
  using assms
  by (auto simp: insert_entry_def TimerWheel_inv_def nth_list_update length_uput)

lemma remove_lookup: "uget (id_to_slot (TimerWheel_remove i w)) j = (if j = i then None else uget (id_to_slot w) j)"
  by (auto simp: TimerWheel_remove_def split: option.splits)

lemma remove_current [simp]: "current_slot (TimerWheel_remove i w) = current_slot w"
  by (simp add: TimerWheel_remove_def split: option.splits)

lemma add_inv: "TimerWheel_inv w \<Longrightarrow> TimerWheel_inv (TimerWheel_add i t cb w)"
  by (simp add: TimerWheel_add_def Let_def insert_entry_inv remove_inv remove_lookup slotOf_bound)

text \<open>Refreshing is removing and inserting again, with the callback the entry had.\<close>

lemma refresh_as_insert:
  "uget (id_to_slot w) i = Some s \<Longrightarrow>
   TimerWheel_refresh i t w =
     insert_entry i (TimerWheel_slotOf t w) (callback_of i (slots w ! s)) (TimerWheel_remove i w)"
  by (simp add: TimerWheel_refresh_def TimerWheel_remove_def Let_def TimerWheel_slotOf_def)

lemma refresh_inv: "TimerWheel_inv w \<Longrightarrow> TimerWheel_inv (TimerWheel_refresh i t w)"
  by (cases "uget (id_to_slot w) i")
    (simp_all add: refresh_as_insert insert_entry_inv remove_inv remove_lookup slotOf_bound,
     simp add: TimerWheel_refresh_def)

section \<open>The wheel as a set of countdowns\<close>

text \<open>
  \<open>remaining w i\<close> is how many ticks are left before the timer of \<open>i\<close> fires, between 1 and the number
  of slots. A callback that leaves the wheel alone is \<^emph>\<open>quiet\<close>.
\<close>

definition remaining :: "'cb timer_wheel \<Rightarrow> conn_id \<Rightarrow> nat option" where
  "remaining w i = map_option (\<lambda>s. (s + kSlots - current_slot w - 1) mod kSlots + 1) (uget (id_to_slot w) i)"

definition quiet :: "('cb, 'w) callback_run \<Rightarrow> bool" where
  "quiet run \<longleftrightarrow> (\<forall>cb i w x. fst (run cb i (w, x)) = w)"

text \<open>
  The number of ticks of a timeout: rounded up, at least one. The addition is the 64-bit one, so the
  rounding is exact below the last nine values.
\<close>

definition ticks_of :: "u64 \<Rightarrow> nat" where
  "ticks_of t = max 1 (unat (t + 9) div 10)"

lemma ticks_of_pos: "1 \<le> ticks_of t"
  by (simp add: ticks_of_def)

lemma ticks_of_exact: "unat t < 2 ^ 64 - 9 \<Longrightarrow> ticks_of t = max 1 ((unat t + 9) div 10)"
  by (simp add: ticks_of_def unat_word_ariths)

lemma slot_distance:
  assumes "c < k" and "0 < d"
  shows "((c + d) mod k + k - c - 1) mod k = (d - 1) mod (k :: nat)"
proof -
  let ?s = "(c + d) mod k" and ?q = "(c + d) div k"
  have "?q * k + ?s = c + d" by simp
  then have "(?s + k - c - 1) + ?q * k = (d - 1) + k"
    using assms by linarith
  then have "((?s + k - c - 1) + ?q * k) mod k = (d - 1) mod k"
    by simp
  then show ?thesis by simp
qed

lemma slotOf_ticks:
  assumes "current_slot w < kSlots"
  shows "TimerWheel_slotOf t w = (current_slot w + ticks_of t) mod kSlots"
proof -
  let ?x = "(t + kTickMs - 1) div kTickMs"
  have e: "t + kTickMs - 1 = t + 9" by (simp add: kTickMs_def)
  have "?x = (t + 9) div 10"
    unfolding e by (simp only: kTickMs_def)
  then have d: "unat ?x = unat (t + 9) div 10"
    by (simp add: unat_div)
  have tk: "unat (if ?x = 0 then 1 else ?x) = ticks_of t"
  proof (cases "?x = 0")
    case True
    then have "unat ?x = 0" by simp
    with d True show ?thesis by (simp add: ticks_of_def)
  next
    case False
    then have "unat ?x \<noteq> 0" by (simp only: unat_eq_0 simp_thms)
    with d False show ?thesis by (simp add: ticks_of_def)
  qed
  have "unat (t + 9) < 2 ^ 64"
    using unsigned_less [of "t + 9"] by simp
  then have bound: "current_slot w + ticks_of t < 2 ^ 64"
    using assms by (auto simp: ticks_of_def kSlots_def max_def)
  have "unat (of_nat (current_slot w) + (if ?x = 0 then 1 else ?x)) = current_slot w + ticks_of t"
    using bound tk assms by (simp add: unat_word_ariths unat_of_nat kSlots_def)
  then show ?thesis
    by (simp add: TimerWheel_slotOf_def Let_def unat_mod kSlots_def)
qed

lemma remaining_insert:
  assumes "TimerWheel_inv w"
  shows "remaining (insert_entry i (TimerWheel_slotOf t w) cb w) j =
     (if j = i then Some ((ticks_of t - 1) mod kSlots + 1) else remaining w j)"
proof -
  have "current_slot w < kSlots"
    using assms(1) by (simp add: TimerWheel_inv_def)
  with slot_distance [of "current_slot w" kSlots "ticks_of t"] slotOf_ticks [of w t]
  show ?thesis
    by (simp add: remaining_def insert_entry_def ticks_of_def max_def)
qed

lemma remaining_remove: "remaining (TimerWheel_remove i w) = (remaining w)(i := None)"
  by (rule ext) (simp add: remaining_def remove_lookup)

lemma remaining_add:
  assumes "TimerWheel_inv w"
  shows "remaining (TimerWheel_add i t cb w) = (remaining w)(i \<mapsto> (ticks_of t - 1) mod kSlots + 1)"
  using remaining_insert [of "TimerWheel_remove i w" i t cb] remove_inv [OF assms(1)]
  by (auto simp: TimerWheel_add_def Let_def remaining_remove fun_eq_iff)

lemma remaining_refresh:
  assumes "TimerWheel_inv w"
  shows "remaining (TimerWheel_refresh i t w) =
     (if remaining w i = None then remaining w
      else (remaining w)(i \<mapsto> (ticks_of t - 1) mod kSlots + 1))"
proof (cases "uget (id_to_slot w) i")
  case None
  then show ?thesis by (simp add: TimerWheel_refresh_def remaining_def)
next
  case (Some s)
  have "TimerWheel_refresh i t w =
      insert_entry i (TimerWheel_slotOf t (TimerWheel_remove i w)) (callback_of i (slots w ! s)) (TimerWheel_remove i w)"
    using Some slotOf_cong [of "TimerWheel_remove i w" w t] by (simp add: refresh_as_insert)
  then have "remaining (TimerWheel_refresh i t w) j =
      (if j = i then Some ((ticks_of t - 1) mod kSlots + 1) else remaining w j)" for j
    using remaining_insert [of "TimerWheel_remove i w" i t] remove_inv [OF assms(1)]
    by (simp add: remaining_remove)
  moreover have "remaining w i \<noteq> None"
    using Some by (simp add: remaining_def)
  ultimately show ?thesis by auto
qed

section \<open>Ticking\<close>

lemma tick_loop_quiet:
  assumes "quiet run" and "slots w ! current_slot w = bucket"
  shows "\<exists>x'. tick_loop run bucket es expired (w, x) =
     Inr (expired @ map te_id es, w\<lparr>id_to_slot := fold uerase (map te_id es) (id_to_slot w)\<rparr>, x')"
  using assms(2)
proof (induction es arbitrary: expired w x)
  case Nil
  then show ?case by simp
next
  case (Cons e es)
  obtain x1 where "(case te_callback e of Some cb \<Rightarrow> run cb (te_id e) (w, x) | None \<Rightarrow> (w, x)) = (w, x1)"
    using assms(1) by (cases "te_callback e") (auto simp: quiet_def prod_eq_iff)
  with Cons.prems Cons.IH [of "w\<lparr>id_to_slot := uerase (te_id e) (id_to_slot w)\<rparr>" "expired @ [te_id e]" x1]
  show ?case by simp
qed

lemma uget_fold_uerase: "uget (fold uerase ks m) k = (if k \<in> set ks then None else uget m k)"
  by (induction ks arbitrary: m) auto

lemma umap_ok_fold_uerase: "umap_ok m \<Longrightarrow> umap_ok (fold uerase ks m)"
  by (induction ks arbitrary: m) auto

lemma length_fold_uerase:
  "umap_ok m \<Longrightarrow> distinct ks \<Longrightarrow> (\<And>k. k \<in> set ks \<Longrightarrow> uget m k \<noteq> None) \<Longrightarrow>
   length (fold uerase ks m) = length m - length ks"
proof (induction ks arbitrary: m)
  case Nil
  then show ?case by simp
next
  case (Cons k ks)
  have "length (fold uerase ks (uerase k m)) = length (uerase k m) - length ks"
    using Cons.prems by (intro Cons.IH) auto
  moreover have "uget m k \<noteq> None"
    using Cons.prems(3) [of k] by simp
  ultimately show ?case
    using Cons.prems(1) by (simp add: length_uerase)
qed

text \<open>With quiet callbacks a tick never faults; this is the wheel it leaves.\<close>

definition advance :: "'cb timer_wheel \<Rightarrow> 'cb timer_wheel" where
  "advance w =
     (let c = (current_slot w + 1) mod kSlots
      in w\<lparr>current_slot := c, slots := (slots w)[c := []],
           id_to_slot := fold uerase (slot_ids w c) (id_to_slot w),
           entries := entries w - length (slots w ! c)\<rparr>)"

lemma tick_quiet:
  assumes "quiet run"
  shows "\<exists>x'. TimerWheel_tick run (w, x) = Inr (slot_ids w ((current_slot w + 1) mod kSlots), advance w, x')"
proof -
  let ?w = "w\<lparr>current_slot := (current_slot w + 1) mod kSlots\<rparr>"
  obtain x' where "tick_loop run (slots ?w ! current_slot ?w) (slots ?w ! current_slot ?w) [] (?w, x) =
      Inr ([] @ map te_id (slots ?w ! current_slot ?w),
           ?w\<lparr>id_to_slot := fold uerase (map te_id (slots ?w ! current_slot ?w)) (id_to_slot ?w)\<rparr>, x')"
    using tick_loop_quiet [OF assms refl, of ?w "slots ?w ! current_slot ?w" "[]" x] by blast
  then show ?thesis
    by (auto simp: TimerWheel_tick_def advance_def Let_def)
qed

lemma advance_inv:
  assumes "TimerWheel_inv w"
  shows "TimerWheel_inv (advance w)"
proof -
  let ?c = "(current_slot w + 1) mod kSlots"
  have c: "?c < kSlots" by simp
  have "length (fold uerase (slot_ids w ?c) (id_to_slot w)) = length (id_to_slot w) - length (slot_ids w ?c)"
    using assms c by (intro length_fold_uerase) (auto simp: TimerWheel_inv_def)
  with assms c show ?thesis
    by (auto simp: TimerWheel_inv_def advance_def Let_def nth_list_update uget_fold_uerase umap_ok_fold_uerase
        split: if_splits)
qed

lemma next_slot_distance:
  assumes "c < k" and "s < k" and "s \<noteq> (c + 1) mod (k :: nat)"
  shows "(s + k - c - 1) mod k + 1 = Suc ((s + k - (c + 1) mod k - 1) mod k + 1)"
proof (cases "c + 1 = k")
  case True
  with assms show ?thesis
    by (cases s) (auto simp: mod_if)
next
  case False
  with assms have c: "(c + 1) mod k = c + 1" "s \<noteq> c + 1" "c + 1 < k" by auto
  show ?thesis
  proof (cases "s \<le> c")
    case True
    with c assms have "(s + k - c - 1) mod k = s + k - c - 1" "(s + k - (c + 1) - 1) mod k = s + k - c - 2"
      by auto
    with True c assms show ?thesis by simp
  next
    case False
    with c assms obtain d where d: "s = c + 2 + d"
      by (metis add.commute add_2_eq_Suc' le_Suc_ex less_eq_Suc_le not_less_eq_eq order_antisym_conv plus_1_eq_Suc add.assoc)
    have "(d + k) mod k = d" "Suc (d + k) mod k = Suc d"
      using d assms mod_add_self2 [of "Suc d" k] by auto
    with d c assms show ?thesis by simp
  qed
qed

lemma remaining_advance:
  assumes "TimerWheel_inv w"
  shows "remaining (advance w) i =
     (case remaining w i of Some (Suc (Suc n)) \<Rightarrow> Some (Suc n) | _ \<Rightarrow> None)"
proof (cases "uget (id_to_slot w) i")
  case None
  then show ?thesis by (simp add: remaining_def advance_def Let_def uget_fold_uerase)
next
  case (Some s)
  let ?c = "(current_slot w + 1) mod kSlots"
  have w: "current_slot w < kSlots" "s < kSlots"
      "\<And>j. j \<in> set (slot_ids w ?c) \<longleftrightarrow> uget (id_to_slot w) j = Some ?c"
    using assms Some by (auto simp: TimerWheel_inv_def)
  show ?thesis
  proof (cases "s = ?c")
    case True
    with Some w(3) [of i] slot_distance [of "current_slot w" kSlots 1] w(1) show ?thesis
      by (simp add: remaining_def advance_def Let_def uget_fold_uerase)
  next
    case False
    with Some w(3) [of i] next_slot_distance [OF w(1,2)] show ?thesis
      by (simp add: remaining_def advance_def Let_def uget_fold_uerase)
  qed
qed

lemma expired_iff:
  assumes "TimerWheel_inv w"
  shows "i \<in> set (slot_ids w ((current_slot w + 1) mod kSlots)) \<longleftrightarrow> remaining w i = Some 1"
proof (cases "uget (id_to_slot w) i")
  case None
  with assms show ?thesis by (auto simp: remaining_def TimerWheel_inv_def)
next
  case (Some s)
  let ?c = "(current_slot w + 1) mod kSlots"
  have w: "current_slot w < kSlots" "s < kSlots"
      "i \<in> set (slot_ids w ?c) \<longleftrightarrow> uget (id_to_slot w) i = Some ?c"
    using assms Some by (auto simp: TimerWheel_inv_def)
  show ?thesis
  proof (cases "s = ?c")
    case True
    with Some w(3) slot_distance [of "current_slot w" kSlots 1] w(1) show ?thesis
      by (simp add: remaining_def)
  next
    case False
    with Some w(3) next_slot_distance [OF w(1,2)] show ?thesis
      by (simp add: remaining_def)
  qed
qed

section \<open>Refinement to countdowns\<close>

datatype 'cb timer_op = TAdd conn_id u64 "'cb option" | TRemove conn_id | TRefresh conn_id u64 | TTick

fun TimerWheel_op :: "'cb timer_op \<Rightarrow> 'cb timer_wheel \<Rightarrow> conn_id set \<times> 'cb timer_wheel" where
  "TimerWheel_op (TAdd i t cb) w = ({}, TimerWheel_add i t cb w)"
| "TimerWheel_op (TRemove i) w = ({}, TimerWheel_remove i w)"
| "TimerWheel_op (TRefresh i t) w = ({}, TimerWheel_refresh i t w)"
| "TimerWheel_op TTick w =
     (case TimerWheel_tick (\<lambda>cb i wx. wx) (w, ()) of
        Inl f \<Rightarrow> ({}, w)
      | Inr (expired, w', x) \<Rightarrow> (set expired, w'))"

fun countdown_step :: "'cb timer_op \<Rightarrow> (conn_id \<rightharpoonup> nat) \<Rightarrow> conn_id set \<times> (conn_id \<rightharpoonup> nat)" where
  "countdown_step (TAdd i t cb) m = ({}, m(i \<mapsto> (ticks_of t - 1) mod kSlots + 1))"
| "countdown_step (TRemove i) m = ({}, m(i := None))"
| "countdown_step (TRefresh i t) m =
     ({}, if m i = None then m else m(i \<mapsto> (ticks_of t - 1) mod kSlots + 1))"
| "countdown_step TTick m =
     ({i. m i = Some 1}, \<lambda>i. case m i of Some (Suc (Suc n)) \<Rightarrow> Some (Suc n) | _ \<Rightarrow> None)"

lemma tick_op:
  "TimerWheel_op TTick w = (set (slot_ids w ((current_slot w + 1) mod kSlots)), advance w)"
  using tick_quiet [of "\<lambda>cb i wx. wx" w "()"] by (auto simp: quiet_def)

interpretation wheel: simulation TimerWheel_op countdown_step TimerWheel_inv remaining
proof unfold_locales
  fix w :: "'a timer_wheel" and oper
  assume w: "TimerWheel_inv w"
  show "TimerWheel_inv (snd (TimerWheel_op oper w))"
    using w by (cases oper) (simp_all add: tick_op add_inv remove_inv refresh_inv advance_inv del: TimerWheel_op.simps(4))
  show "remaining (snd (TimerWheel_op oper w)) = snd (countdown_step oper (remaining w))"
    using w by (cases oper)
      (simp_all add: tick_op remaining_add remaining_remove remaining_refresh remaining_advance fun_eq_iff
        del: TimerWheel_op.simps(4))
  show "fst (TimerWheel_op oper w) = fst (countdown_step oper (remaining w))"
  proof (cases oper)
    case TTick
    with expired_iff [OF w] show ?thesis
      by (simp add: tick_op set_eq_iff del: TimerWheel_op.simps(4) set_map)
  qed simp_all
qed

section \<open>Properties\<close>

lemma countdown_fires:
  "m i = Some (Suc d) \<Longrightarrow> k < n \<Longrightarrow>
   i \<in> fst (run_ops countdown_step (replicate n (TTick :: 'cb timer_op)) m) ! k \<longleftrightarrow> k = d"
proof (induction n arbitrary: m d k)
  case 0
  then show ?case by simp
next
  case (Suc n)
  let ?m = "snd (countdown_step (TTick :: 'cb timer_op) m)"
  have gone: "m' i = None \<Longrightarrow> j < l \<Longrightarrow> i \<notin> fst (run_ops countdown_step (replicate l (TTick :: 'cb timer_op)) m') ! j"
    for m' j l
    by (induction l arbitrary: m' j) (auto simp: Let_def case_prod_beta nth_Cons split: nat.splits)
  show ?case
  proof (cases k)
    case 0
    with Suc.prems show ?thesis by (simp add: Let_def case_prod_beta)
  next
    case (Suc k')
    then show ?thesis
      using Suc.prems Suc.IH [of ?m "d - 1" k'] gone [of ?m k' n]
      by (cases d) (auto simp: Let_def case_prod_beta)
  qed
qed

text \<open>
  C11. The wheel is a set of countdowns. For every sequence of add, remove, refresh and tick operations
  (with callbacks that do not call back into the wheel) the wheel reports as expired at each tick
  exactly the timers whose countdown reached zero, keeps its index, its buckets and its entry count
  consistent, and never faults.
\<close>

theorem wheel_refines_countdowns:
  "fst (run_ops TimerWheel_op opers TimerWheel_new) = fst (run_ops countdown_step opers Map.empty) \<and>
   TimerWheel_inv (snd (run_ops TimerWheel_op opers TimerWheel_new)) \<and>
   TimerWheel_size (snd (run_ops TimerWheel_op opers TimerWheel_new)) =
     card (dom (snd (run_ops countdown_step opers Map.empty)))"
proof -
  have abs: "remaining TimerWheel_new = Map.empty"
    by (rule ext) (simp add: remaining_def TimerWheel_new_def)
  note r = wheel.run_refines [OF new_wheel_inv, of opers, unfolded abs]
  have card: "TimerWheel_inv w \<Longrightarrow> TimerWheel_size w = card (dom (remaining w))" for w :: "'a timer_wheel"
  proof -
    assume w: "TimerWheel_inv w"
    have "dom (remaining w) = set (ukeys (id_to_slot w))"
      by (auto simp: remaining_def dom_def map_of_eq_None_iff image_iff dest: map_of_SomeD)
    moreover have "card (set (ukeys (id_to_slot w))) = length (id_to_slot w)"
      using w distinct_card by (fastforce simp: TimerWheel_inv_def umap_ok_def)
    ultimately show ?thesis
      using w by (simp add: TimerWheel_inv_def TimerWheel_size_def)
  qed
  show ?thesis
    using r card by auto
qed

text \<open>
  A timer fires exactly on time. On a consistent wheel, after adding a timer whose timeout is at
  most one turn of the wheel (60 seconds), the \<open>k\<close>-th of the following ticks reports it if and only if
  \<open>k\<close> is the timeout in ticks, rounded up and at least one.
\<close>

theorem timer_fires_exactly:
  assumes "TimerWheel_inv w" and "ticks_of t \<le> kSlots" and "1 \<le> k" and "k \<le> n"
  shows "i \<in> fst (run_ops TimerWheel_op (TAdd i t cb # replicate n TTick) w) ! k \<longleftrightarrow> k = ticks_of t"
proof -
  let ?m = "(remaining w)(i \<mapsto> (ticks_of t - 1) mod kSlots + 1)"
  have "fst (run_ops TimerWheel_op (TAdd i t cb # replicate n TTick) w) =
      {} # fst (run_ops countdown_step (replicate n (TTick :: 'a timer_op)) ?m)"
    using wheel.run_outputs [OF assms(1), of "TAdd i t cb # replicate n TTick"]
    by (simp add: Let_def case_prod_beta)
  moreover have "?m i = Some (Suc (ticks_of t - 1))"
    using assms(2) ticks_of_pos [of t] by simp
  ultimately show ?thesis
    using countdown_fires [of ?m i "ticks_of t - 1" "k - 1" n] assms(3,4) ticks_of_pos [of t]
    by (cases k) auto
qed

theorem timer_fires_exactly_witness:
  "7 \<in> fst (run_ops TimerWheel_op (TAdd 7 5000 (Some ()) # replicate 500 TTick) TimerWheel_new) ! 500"
  using timer_fires_exactly [of "TimerWheel_new :: unit timer_wheel" 5000 500 500 7 "Some ()"]
  by (simp add: ticks_of_def kSlots_def)

end
