(* ===== verification/Room.thy ===== *)
theory Room
  imports Prelude
begin

text \<open>
  \<open>src/src/game/room.{h,cpp}\<close>, \<open>room_manager.{h,cpp}\<close> and the runtime records of \<open>player.h\<close>: the room
  state machine with its player table and ready counter, and the table of rooms. \<open>int\<close> values are
  integers here; the counts they hold are bounded by the number of players.
\<close>

section \<open>State\<close>

datatype room_state =
  R_CREATED | R_WAITING_PLAYERS | R_LOADING | R_RUNNING | R_SETTLING | R_DESTROYED

record room_player_info =
  rp_player_id :: player_id
  rp_username :: string
  rp_ready :: bool

record room =
  room_ident :: room_id
  room_state :: room_state
  max_players :: int
  ready_count :: int
  room_players :: "(player_id, room_player_info) umap"

definition Room_new :: "room_id \<Rightarrow> int \<Rightarrow> room" where
  "Room_new i n = \<lparr>room_ident = i, room_state = R_CREATED, max_players = n, ready_count = 0, room_players = []\<rparr>"

section \<open>Operations\<close>

definition Room_playerCount :: "room \<Rightarrow> int" where
  "Room_playerCount r = int (length (room_players r))"

definition Room_isFull :: "room \<Rightarrow> bool" where
  "Room_isFull r \<longleftrightarrow> Room_playerCount r \<ge> max_players r"

definition Room_hasPlayer :: "player_id \<Rightarrow> room \<Rightarrow> bool" where
  "Room_hasPlayer p r \<longleftrightarrow> uget (room_players r) p \<noteq> None"

definition Room_addPlayer :: "player_id \<Rightarrow> string \<Rightarrow> room \<Rightarrow> int \<times> room" where
  "Room_addPlayer p name r =
     (if room_state r \<noteq> R_CREATED \<and> room_state r \<noteq> R_WAITING_PLAYERS then (40003, r)
      else if Room_isFull r then (40002, r)
      else
        let r' = r\<lparr>room_players := uput p \<lparr>rp_player_id = p, rp_username = name, rp_ready = False\<rparr> (room_players r)\<rparr>
        in (0, if room_state r' = R_CREATED then r'\<lparr>room_state := R_WAITING_PLAYERS\<rparr> else r'))"

definition Room_removePlayer :: "player_id \<Rightarrow> room \<Rightarrow> room" where
  "Room_removePlayer p r =
     (case uget (room_players r) p of
        None \<Rightarrow> r
      | Some info \<Rightarrow>
          r\<lparr>ready_count := (if rp_ready info then ready_count r - 1 else ready_count r),
            room_players := uerase p (room_players r)\<rparr>)"

definition Room_playerReady :: "player_id \<Rightarrow> room \<Rightarrow> room" where
  "Room_playerReady p r =
     (case uget (room_players r) p of
        None \<Rightarrow> r
      | Some info \<Rightarrow>
          if \<not> rp_ready info
          then r\<lparr>room_players := uput p (info\<lparr>rp_ready := True\<rparr>) (room_players r),
                 ready_count := ready_count r + 1\<rparr>
          else r)"

definition Room_allReady :: "room \<Rightarrow> bool" where
  "Room_allReady r \<longleftrightarrow> ready_count r = int (length (room_players r)) \<and> room_players r \<noteq> []"

definition Room_startLoading :: "room \<Rightarrow> room" where
  "Room_startLoading r =
     (if room_state r = R_WAITING_PLAYERS \<and> Room_isFull r then r\<lparr>room_state := R_LOADING\<rparr> else r)"

definition Room_startBattle :: "room \<Rightarrow> room" where
  "Room_startBattle r =
     (if room_state r = R_LOADING \<and> Room_allReady r then r\<lparr>room_state := R_RUNNING\<rparr> else r)"

definition Room_endBattle :: "room \<Rightarrow> room" where
  "Room_endBattle r = (if room_state r = R_RUNNING then r\<lparr>room_state := R_SETTLING\<rparr> else r)"

definition Room_destroy :: "room \<Rightarrow> room" where
  "Room_destroy r = r\<lparr>room_state := R_DESTROYED, room_players := []\<rparr>"

lemmas room_op_defs = Room_addPlayer_def Room_removePlayer_def Room_playerReady_def
  Room_startLoading_def Room_startBattle_def Room_endBattle_def Room_destroy_def

section \<open>The room as a machine\<close>

datatype room_event =
    AddPlayer player_id string
  | RemovePlayer player_id
  | PlayerReady player_id
  | StartLoading
  | StartBattle
  | EndBattle
  | Destroy

fun Room_step :: "room \<Rightarrow> room_event \<Rightarrow> room" where
  "Room_step r (AddPlayer p name) = snd (Room_addPlayer p name r)"
| "Room_step r (RemovePlayer p) = Room_removePlayer p r"
| "Room_step r (PlayerReady p) = Room_playerReady p r"
| "Room_step r StartLoading = Room_startLoading r"
| "Room_step r StartBattle = Room_startBattle r"
| "Room_step r EndBattle = Room_endBattle r"
| "Room_step r Destroy = Room_destroy r"

text \<open>The life cycle the states are meant to follow.\<close>

inductive lifecycle :: "room_state \<Rightarrow> room_state \<Rightarrow> bool" where
  first_player: "lifecycle R_CREATED R_WAITING_PLAYERS"
| load: "lifecycle R_WAITING_PLAYERS R_LOADING"
| start: "lifecycle R_LOADING R_RUNNING"
| settle: "lifecycle R_RUNNING R_SETTLING"
| destroy: "lifecycle s R_DESTROYED"

inductive_cases lifecycle_elims: "lifecycle s t"
inductive_simps lifecycle_simps: "lifecycle s t"

text \<open>How far along the life cycle a state is: no operation goes back.\<close>

fun phase :: "room_state \<Rightarrow> nat" where
  "phase R_CREATED = 0"
| "phase R_WAITING_PLAYERS = 1"
| "phase R_LOADING = 2"
| "phase R_RUNNING = 3"
| "phase R_SETTLING = 4"
| "phase R_DESTROYED = 5"

lemma lifecycle_phase: "lifecycle s t \<Longrightarrow> phase s \<le> phase t"
  by (cases s; auto elim: lifecycle_elims)

lemma step_lifecycle: "room_state (Room_step r e) = room_state r \<or> lifecycle (room_state r) (room_state (Room_step r e))"
  by (cases e) (auto simp: room_op_defs Let_def lifecycle_simps split: option.splits)

lemma step_phase: "phase (room_state r) \<le> phase (room_state (Room_step r e))"
  using step_lifecycle [of r e] lifecycle_phase by auto

section \<open>Invariants\<close>

definition ready_players :: "room \<Rightarrow> player_id list" where
  "ready_players r = map fst (filter (\<lambda>(p, info). rp_ready info) (room_players r))"

text \<open>
  What every sequence of operations keeps: one entry per player, at most as many players as the room
  is made for, keys that agree with the records, and a ready counter that is at least the number of
  ready players.
\<close>

definition Room_inv :: "room \<Rightarrow> bool" where
  "Room_inv r \<longleftrightarrow>
     umap_ok (room_players r) \<and>
     Room_playerCount r \<le> max 0 (max_players r) \<and>
     (\<forall>p info. uget (room_players r) p = Some info \<longrightarrow> rp_player_id info = p) \<and>
     int (length (ready_players r)) \<le> ready_count r"

text \<open>The stronger invariant that holds as long as no player is added twice and the room is not destroyed.\<close>

definition Room_counted :: "room \<Rightarrow> bool" where
  "Room_counted r \<longleftrightarrow> Room_inv r \<and> ready_count r = int (length (ready_players r))"

definition fresh_player :: "room \<Rightarrow> room_event \<Rightarrow> bool" where
  "fresh_player r e \<longleftrightarrow> (case e of AddPlayer p name \<Rightarrow> \<not> Room_hasPlayer p r | Destroy \<Rightarrow> False | _ \<Rightarrow> True)"

lemma new_room_inv [simp]: "Room_counted (Room_new i n)"
  by (simp add: Room_counted_def Room_inv_def Room_new_def Room_playerCount_def ready_players_def)

text \<open>The number of entries that satisfy a predicate after one entry is written or erased.\<close>

definition entries_with :: "('v \<Rightarrow> bool) \<Rightarrow> ('k, 'v) umap \<Rightarrow> nat" where
  "entries_with P m = length (filter (\<lambda>(k, v). P v) m)"

lemma entries_with_uput:
  "umap_ok m \<Longrightarrow> int (entries_with P (uput k v m)) =
     int (entries_with P m) + of_bool (P v) - of_bool (\<exists>u. uget m k = Some u \<and> P u)"
  by (induction m) (auto simp: entries_with_def umap_ok_def map_of_eq_None_iff dest: map_of_SomeD)

lemma entries_with_uerase:
  "umap_ok m \<Longrightarrow> int (entries_with P (uerase k m)) =
     int (entries_with P m) - of_bool (\<exists>u. uget m k = Some u \<and> P u)"
  by (induction m) (auto simp: entries_with_def umap_ok_def map_of_eq_None_iff dest: map_of_SomeD)

lemma ready_players_length: "length (ready_players r) = entries_with rp_ready (room_players r)"
  by (simp add: ready_players_def entries_with_def)

lemma step_inv:
  assumes "Room_inv r"
  shows "Room_inv (Room_step r e)"
proof (cases e)
  case (AddPlayer p name)
  with assms show ?thesis
    by (auto simp: Room_inv_def ready_players_length Room_addPlayer_def Let_def Room_isFull_def
        Room_playerCount_def entries_with_uput length_uput)
next
  case (RemovePlayer p)
  with assms show ?thesis
    by (auto simp: Room_inv_def ready_players_length Room_removePlayer_def Room_playerCount_def
        entries_with_uerase length_uerase split: option.splits)
next
  case (PlayerReady p)
  with assms show ?thesis
    by (auto simp: Room_inv_def ready_players_length Room_playerReady_def Room_playerCount_def
        entries_with_uput length_uput split: option.splits)
next
  case Destroy
  with assms show ?thesis
    by (auto simp: Room_inv_def ready_players_length Room_destroy_def Room_playerCount_def entries_with_def)
qed (use assms in \<open>auto simp: Room_inv_def ready_players_length Room_playerCount_def
       Room_startLoading_def Room_startBattle_def Room_endBattle_def\<close>)

lemma step_counted:
  assumes "Room_counted r" and "fresh_player r e"
  shows "Room_counted (Room_step r e)"
proof -
  have r: "Room_inv r" "umap_ok (room_players r)" "ready_count r = int (entries_with rp_ready (room_players r))"
    using assms(1) by (auto simp: Room_counted_def Room_inv_def ready_players_length)
  then have "ready_count (Room_step r e) = int (entries_with rp_ready (room_players (Room_step r e)))"
    using assms(2)
    by (cases e) (auto simp: fresh_player_def Room_hasPlayer_def room_op_defs Let_def entries_with_uput
        entries_with_uerase split: option.splits)
  with step_inv [OF r(1), of e] show ?thesis
    by (simp add: Room_counted_def ready_players_length)
qed

interpretation rm: machine Room_step "\<lambda>r e. True" Room_inv
  by unfold_locales (rule step_inv)

interpretation rmc: machine Room_step fresh_player Room_counted
  by unfold_locales (rule step_counted)

lemma step_max_players: "max_players (Room_step r e) = max_players r"
  by (cases e) (auto simp: room_op_defs Let_def split: option.splits)

lemma run_max_players: "max_players (run_events Room_step r es) = max_players r"
  by (induction es arbitrary: r) (simp_all add: step_max_players)

lemma run_phase: "phase (room_state r) \<le> phase (room_state (run_events Room_step r es))"
  by (induction es arbitrary: r) (auto intro: order_trans step_phase)

lemma all_ready_iff:
  assumes "Room_counted r"
  shows "Room_allReady r \<longleftrightarrow> room_players r \<noteq> [] \<and> (\<forall>(p, info) \<in> set (room_players r). rp_ready info)"
proof -
  have "entries_with rp_ready (room_players r) = length (room_players r) \<longleftrightarrow>
      (\<forall>(p, info) \<in> set (room_players r). rp_ready info)"
    unfolding entries_with_def
    by (metis (no_types, lifting) case_prodI2 filter_True length_filter_less nat_neq_iff prod.case_eq_if)
  with assms show ?thesis
    by (auto simp: Room_allReady_def Room_counted_def ready_players_length)
qed

section \<open>The table of rooms\<close>

record room_manager =
  rooms :: "(room_id, room) umap"
  next_room_id :: u64

definition RoomManager_new :: room_manager where
  "RoomManager_new = \<lparr>rooms = [], next_room_id = 1\<rparr>"

definition RoomManager_createRoom :: "int \<Rightarrow> room_manager \<Rightarrow> room_id \<times> room_manager" where
  "RoomManager_createRoom n m =
     (let i = next_room_id m
      in (i, m\<lparr>next_room_id := next_room_id m + 1, rooms := uput i (Room_new i n) (rooms m)\<rparr>))"

definition RoomManager_getRoom :: "room_id \<Rightarrow> room_manager \<Rightarrow> room option" where
  "RoomManager_getRoom i m = uget (rooms m) i"

definition RoomManager_destroyRoom :: "room_id \<Rightarrow> room_manager \<Rightarrow> room_manager" where
  "RoomManager_destroyRoom i m = m\<lparr>rooms := uerase i (rooms m)\<rparr>"

definition RoomManager_roomCount :: "room_manager \<Rightarrow> nat" where
  "RoomManager_roomCount m = length (rooms m)"

text \<open>A pointer from \<open>getRoom\<close> lets the caller change the room in place.\<close>

definition RoomManager_update :: "room_id \<Rightarrow> (room \<Rightarrow> room) \<Rightarrow> room_manager \<Rightarrow> room_manager" where
  "RoomManager_update i f m =
     (case uget (rooms m) i of None \<Rightarrow> m | Some r \<Rightarrow> m\<lparr>rooms := uput i (f r) (rooms m)\<rparr>)"

definition RoomManager_inv :: "room_manager \<Rightarrow> bool" where
  "RoomManager_inv m \<longleftrightarrow>
     umap_ok (rooms m) \<and>
     (\<forall>i r. uget (rooms m) i = Some r \<longrightarrow> i < next_room_id m \<and> 0 < i \<and> room_ident r = i) \<and> 0 < next_room_id m"

lemma new_rooms_inv [simp]: "RoomManager_inv RoomManager_new"
  by (simp add: RoomManager_inv_def RoomManager_new_def)

lemma next_id_greater:
  assumes "(n :: u64) \<noteq> - 1"
  shows "n < n + 1"
proof -
  have "n + 1 \<noteq> 0"
    using assms by (metis add.commute add.inverse_unique)
  then show ?thesis
    using unatSuc [of n] by (simp add: word_less_nat_alt add.commute)
qed

lemma createRoom_spec:
  assumes "RoomManager_inv m" and "next_room_id m \<noteq> - 1"
  shows "RoomManager_inv (snd (RoomManager_createRoom n m))"
    and "RoomManager_getRoom (fst (RoomManager_createRoom n m)) m = None"
    and "RoomManager_getRoom i (snd (RoomManager_createRoom n m)) =
         (if i = fst (RoomManager_createRoom n m) then Some (Room_new i n) else RoomManager_getRoom i m)"
    and "RoomManager_roomCount (snd (RoomManager_createRoom n m)) = RoomManager_roomCount m + 1"
proof -
  note less = next_id_greater [OF assms(2)]
  have fresh: "uget (rooms m) (next_room_id m) = None"
    using assms(1) unfolding RoomManager_inv_def by (metis less_irrefl option.exhaust)
  show "RoomManager_inv (snd (RoomManager_createRoom n m))"
    using assms(1) less by (auto simp: RoomManager_inv_def RoomManager_createRoom_def Let_def Room_new_def
        intro: less_trans)
  show "RoomManager_getRoom (fst (RoomManager_createRoom n m)) m = None"
    using fresh by (simp add: RoomManager_getRoom_def RoomManager_createRoom_def Let_def)
  show "RoomManager_getRoom i (snd (RoomManager_createRoom n m)) =
         (if i = fst (RoomManager_createRoom n m) then Some (Room_new i n) else RoomManager_getRoom i m)"
    by (simp add: RoomManager_getRoom_def RoomManager_createRoom_def Let_def)
  show "RoomManager_roomCount (snd (RoomManager_createRoom n m)) = RoomManager_roomCount m + 1"
    using fresh by (simp add: RoomManager_roomCount_def RoomManager_createRoom_def Let_def length_uput)
qed

section \<open>Properties\<close>

text \<open>
  C30. From its construction on, whatever operations are called in whatever order, a room never goes back
  in its life cycle (created, waiting for players, loading, running, settling, destroyed) and it never
  has more players than it was created for, one entry per player.
\<close>
theorem room_lifecycle_and_capacity:
  fixes i :: room_id and n :: int and es fs :: "room_event list"
  defines "r \<equiv> run_events Room_step (Room_new i n) es"
  defines "r' \<equiv> run_events Room_step (Room_new i n) (es @ fs)"
  shows "phase (room_state r) \<le> phase (room_state r') \<and>
         Room_playerCount r' \<le> max 0 n \<and> distinct (ukeys (room_players r'))"
proof -
  have "Room_inv r'"
    unfolding r'_def by (rule rm.run_inv) (use new_room_inv [of i n] in \<open>auto simp: Room_counted_def intro: admitted_True\<close>)
  moreover have "max_players r' = n"
    unfolding r'_def run_max_players by (simp add: Room_new_def)
  ultimately show ?thesis
    using run_phase [of r fs] unfolding r_def r'_def run_events_append
    by (simp add: Room_inv_def umap_ok_def)
qed

text \<open>
  As long as no player is added a second time, \<open>allReady\<close> says what its name says: the room has
  players and every one of them is ready. A battle then starts (\<open>startBattle\<close> reaches RUNNING) exactly
  from LOADING with all players ready.
\<close>
theorem allReady_correct:
  assumes "admitted Room_step fresh_player (Room_new i n) es"
  defines "r \<equiv> run_events Room_step (Room_new i n) es"
  shows "(Room_allReady r \<longleftrightarrow> room_players r \<noteq> [] \<and> (\<forall>(p, info) \<in> set (room_players r). rp_ready info)) \<and>
         (room_state r \<noteq> R_RUNNING \<longrightarrow>
            (room_state (Room_startBattle r) = R_RUNNING \<longleftrightarrow>
             room_state r = R_LOADING \<and> room_players r \<noteq> [] \<and> (\<forall>(p, info) \<in> set (room_players r). rp_ready info)))"
proof -
  have "Room_counted r"
    unfolding r_def by (rule rmc.run_inv) (simp_all add: assms)
  from all_ready_iff [OF this] show ?thesis
    by (auto simp: Room_startBattle_def)
qed

definition two_ready :: "room_event list" where
  "two_ready = [AddPlayer 1 ''a'', AddPlayer 2 ''b'', StartLoading, PlayerReady 2, PlayerReady 1]"

theorem allReady_correct_witness:
  "admitted Room_step fresh_player (Room_new 1 2) two_ready \<and>
   Room_allReady (run_events Room_step (Room_new 1 2) two_ready) \<and>
   room_state (Room_startBattle (run_events Room_step (Room_new 1 2) two_ready)) = R_RUNNING"
proof -
  have "admitted Room_step fresh_player (Room_new 1 2) two_ready"
    by code_simp
  with allReady_correct [of 1 2 two_ready] show ?thesis
    by (simp add: two_ready_def Room_new_def room_op_defs Room_isFull_def Room_playerCount_def Let_def)
qed

text \<open>
  Adding a player again after \<open>playerReady\<close> resets that player's flag but not the counter: in a room
  of three in which two players are present, the counter says that all are ready while player 2 never
  sent a ready message.
\<close>
theorem ready_counter_desync:
  "let r = run_events Room_step (Room_new 1 3)
             [AddPlayer 1 ''a'', AddPlayer 2 ''b'', PlayerReady 1, AddPlayer 1 ''a'', PlayerReady 1]
   in Room_allReady r \<and> map_option rp_ready (uget (room_players r) 2) = Some False"
  by code_simp

text \<open>
  Rooms are created under fresh ids: a manager whose id counter has not reached its maximum gives
  the new room an id no other room has, adds exactly that room, and leaves every other room as it was.
\<close>
theorem createRoom_fresh:
  fixes n :: int
  assumes "RoomManager_inv m" and "next_room_id m \<noteq> - 1"
  defines "i \<equiv> fst (RoomManager_createRoom n m)" and "m' \<equiv> snd (RoomManager_createRoom n m)"
  shows "RoomManager_getRoom i m = None \<and> RoomManager_getRoom i m' = Some (Room_new i n) \<and>
         (\<forall>j. j \<noteq> i \<longrightarrow> RoomManager_getRoom j m' = RoomManager_getRoom j m) \<and>
         RoomManager_roomCount m' = RoomManager_roomCount m + 1 \<and> RoomManager_inv m'"
  using createRoom_spec [OF assms(1,2)] unfolding i_def m'_def by simp

theorem createRoom_fresh_witness:
  "RoomManager_getRoom 1 (snd (RoomManager_createRoom 4 RoomManager_new)) = Some (Room_new 1 4) \<and>
   RoomManager_roomCount (snd (RoomManager_createRoom 4 RoomManager_new)) = 1"
proof -
  have "next_room_id RoomManager_new \<noteq> - 1" by code_simp
  from createRoom_fresh [OF new_rooms_inv this, of 4] show ?thesis
    by (simp add: RoomManager_new_def RoomManager_createRoom_def RoomManager_roomCount_def Let_def)
qed

end
