(* ===== verification/Float32.thy ===== *)
theory Float32
  imports Complex_Main Prelude
begin

text \<open>
  The C++ type \<open>float\<close> as the battle code uses it: IEEE 754 binary32 with rounding to nearest, ties to
  even, each operation rounded once (no excess precision, no fused multiply-add). A finite number is
  its sign, its significand below \<open>2 ^ 24\<close> and its exponent, so not-a-number, the infinities,
  signed zeros, subnormals and overflow behave as they do in the program. The conversions to
  \<open>int32_t\<close> give \<open>None\<close> where C++ leaves them undefined.
\<close>

section \<open>Numbers\<close>

text \<open>The undefined behaviours of C++ arithmetic that a computation can run into.\<close>

datatype ub = Float_cast_out_of_range | Int32_overflow

datatype f32 = F_NaN | F_Inf bool | F_Fin bool nat int

definition f32_ok :: "f32 \<Rightarrow> bool" where
  "f32_ok x \<longleftrightarrow> (case x of F_Fin s m e \<Rightarrow>
     m < 2 ^ 24 \<and> - 149 \<le> e \<and> e \<le> 104 \<and> (2 ^ 23 \<le> m \<or> e = - 149) | _ \<Rightarrow> True)"

definition f_zero :: "bool \<Rightarrow> f32" where
  "f_zero s = F_Fin s 0 (- 149)"

fun nbits :: "nat \<Rightarrow> nat" where
  "nbits n = (if n = 0 then 0 else Suc (nbits (n div 2)))"

declare nbits.simps [simp del]

text \<open>The fraction \<open>a / b\<close> divided by \<open>2 powr e\<close>, again as a fraction.\<close>

definition scaled :: "nat \<Rightarrow> nat \<Rightarrow> int \<Rightarrow> nat \<times> nat" where
  "scaled a b e = (if e \<ge> 0 then (a, b * 2 ^ nat e) else (a * 2 ^ nat (- e), b))"

text \<open>The exponent of the last significant bit of \<open>a / b\<close>.\<close>

definition round_exp :: "nat \<Rightarrow> nat \<Rightarrow> int" where
  "round_exp a b =
     (let k = int (nbits a) - int (nbits b) - 24; (n, d) = scaled a b k
      in max (- 149) (if n < 2 ^ 24 * d then k else k + 1))"

definition nearest_even :: "nat \<Rightarrow> nat \<Rightarrow> nat" where
  "nearest_even n d =
     (if 2 * (n mod d) > d \<or> (2 * (n mod d) = d \<and> odd (n div d)) then n div d + 1 else n div d)"

definition f_norm :: "bool \<Rightarrow> nat \<Rightarrow> int \<Rightarrow> f32" where
  "f_norm s q e =
     (let (m, x) = (if q = 2 ^ 24 then (2 ^ 23, e + 1) else (q, e))
      in if x > 104 then F_Inf s else F_Fin s m x)"

text \<open>The float nearest to \<open>a / b\<close> (\<open>b > 0\<close>) with the given sign.\<close>

definition f_round :: "bool \<Rightarrow> nat \<Rightarrow> nat \<Rightarrow> f32" where
  "f_round s a b =
     (if a = 0 then f_zero s
      else let e = round_exp a b; (n, d) = scaled a b e in f_norm s (nearest_even n d) e)"

definition f_round_pow :: "bool \<Rightarrow> nat \<Rightarrow> int \<Rightarrow> f32" where
  "f_round_pow s m e = (if e \<ge> 0 then f_round s (m * 2 ^ nat e) 1 else f_round s m (2 ^ nat (- e)))"

definition f_lit :: "nat \<Rightarrow> nat \<Rightarrow> f32" where
  "f_lit a b = f_round False a b"

definition f_of_int :: "int \<Rightarrow> f32" where
  "f_of_int i = f_round (i < 0) (nat \<bar>i\<bar>) 1"

section \<open>Arithmetic\<close>

definition signed :: "bool \<Rightarrow> nat \<Rightarrow> int" where
  "signed s m = (if s then - int m else int m)"

text \<open>Two finite numbers on a common exponent.\<close>

definition aligned :: "bool \<Rightarrow> nat \<Rightarrow> int \<Rightarrow> bool \<Rightarrow> nat \<Rightarrow> int \<Rightarrow> int \<times> int" where
  "aligned s m e t n f =
     (signed s (m * 2 ^ nat (e - min e f)), signed t (n * 2 ^ nat (f - min e f)))"

fun f_neg :: "f32 \<Rightarrow> f32" where
  "f_neg F_NaN = F_NaN"
| "f_neg (F_Inf s) = F_Inf (\<not> s)"
| "f_neg (F_Fin s m e) = F_Fin (\<not> s) m e"

fun f_add :: "f32 \<Rightarrow> f32 \<Rightarrow> f32" where
  "f_add (F_Fin s m e) (F_Fin t n f) =
     (let (i, j) = aligned s m e t n f
      in if i + j = 0 then f_zero (s \<and> t) else f_round_pow (i + j < 0) (nat \<bar>i + j\<bar>) (min e f))"
| "f_add (F_Inf s) (F_Inf t) = (if s = t then F_Inf s else F_NaN)"
| "f_add (F_Inf s) (F_Fin t n f) = F_Inf s"
| "f_add (F_Fin s m e) (F_Inf t) = F_Inf t"
| "f_add F_NaN y = F_NaN"
| "f_add x F_NaN = F_NaN"

definition f_sub :: "f32 \<Rightarrow> f32 \<Rightarrow> f32" where
  "f_sub x y = f_add x (f_neg y)"

fun f_mul :: "f32 \<Rightarrow> f32 \<Rightarrow> f32" where
  "f_mul (F_Fin s m e) (F_Fin t n f) = f_round_pow (s \<noteq> t) (m * n) (e + f)"
| "f_mul (F_Inf s) (F_Inf t) = F_Inf (s \<noteq> t)"
| "f_mul (F_Inf s) (F_Fin t n f) = (if n = 0 then F_NaN else F_Inf (s \<noteq> t))"
| "f_mul (F_Fin s m e) (F_Inf t) = (if m = 0 then F_NaN else F_Inf (s \<noteq> t))"
| "f_mul F_NaN y = F_NaN"
| "f_mul x F_NaN = F_NaN"

fun f_div :: "f32 \<Rightarrow> f32 \<Rightarrow> f32" where
  "f_div (F_Fin s m e) (F_Fin t n f) =
     (if n = 0 then (if m = 0 then F_NaN else F_Inf (s \<noteq> t))
      else if e \<ge> f then f_round (s \<noteq> t) (m * 2 ^ nat (e - f)) n
      else f_round (s \<noteq> t) m (n * 2 ^ nat (f - e)))"
| "f_div (F_Inf s) (F_Inf t) = F_NaN"
| "f_div (F_Inf s) (F_Fin t n f) = F_Inf (s \<noteq> t)"
| "f_div (F_Fin s m e) (F_Inf t) = f_zero (s \<noteq> t)"
| "f_div F_NaN y = F_NaN"
| "f_div x F_NaN = F_NaN"

fun isqrt :: "nat \<Rightarrow> nat" where
  "isqrt n = (if n = 0 then 0 else let r = 2 * isqrt (n div 4) in if (r + 1)\<^sup>2 \<le> n then r + 1 else r)"

declare isqrt.simps [simp del]

text \<open>
  \<open>std::sqrt\<close>: the significand is scaled to 47 or 48 bits with an even exponent, so the integer square
  root has 24 bits; the root of a float is never half-way between two floats.
\<close>

fun f_sqrt :: "f32 \<Rightarrow> f32" where
  "f_sqrt (F_Fin s m e) =
     (if m = 0 then F_Fin s m e
      else if s then F_NaN
      else
        let k = 48 - nbits m; k' = (if odd (e - int k) then k - 1 else k);
            w = m * 2 ^ k'; q = isqrt w
        in f_norm False (if q\<^sup>2 + q < w then q + 1 else q) ((e - int k') div 2))"
| "f_sqrt (F_Inf s) = (if s then F_NaN else F_Inf s)"
| "f_sqrt F_NaN = F_NaN"

section \<open>Comparison and conversion\<close>

text \<open>Every comparison with a not-a-number is false.\<close>

fun f_lt :: "f32 \<Rightarrow> f32 \<Rightarrow> bool" where
  "f_lt (F_Fin s m e) (F_Fin t n f) = (let (i, j) = aligned s m e t n f in i < j)"
| "f_lt (F_Inf s) (F_Inf t) = (s \<and> \<not> t)"
| "f_lt (F_Inf s) (F_Fin t n f) = s"
| "f_lt (F_Fin s m e) (F_Inf t) = (\<not> t)"
| "f_lt F_NaN y = False"
| "f_lt x F_NaN = False"

fun f_le :: "f32 \<Rightarrow> f32 \<Rightarrow> bool" where
  "f_le (F_Fin s m e) (F_Fin t n f) = (let (i, j) = aligned s m e t n f in i \<le> j)"
| "f_le (F_Inf s) (F_Inf t) = (s \<or> \<not> t)"
| "f_le (F_Inf s) (F_Fin t n f) = s"
| "f_le (F_Fin s m e) (F_Inf t) = (\<not> t)"
| "f_le F_NaN y = False"
| "f_le x F_NaN = False"

fun f_floor :: "f32 \<Rightarrow> f32" where
  "f_floor (F_Fin s m e) =
     (if e \<ge> 0 then F_Fin s m e
      else let i = signed s m div 2 ^ nat (- e) in if i = 0 then f_zero s else f_of_int i)"
| "f_floor x = x"

definition int32_range :: "int \<Rightarrow> bool" where
  "int32_range i \<longleftrightarrow> - (2 ^ 31) \<le> i \<and> i < 2 ^ 31"

text \<open>\<open>static_cast<int32_t>\<close>: truncation toward zero, undefined outside the range of the type.\<close>

fun f_to_int32 :: "f32 \<Rightarrow> int option" where
  "f_to_int32 (F_Fin s m e) =
     (let i = (if e \<ge> 0 then signed s (m * 2 ^ nat e) else signed s (m div 2 ^ nat (- e)))
      in if int32_range i then Some i else None)"
| "f_to_int32 x = None"

section \<open>Rounding is correct\<close>

lemma nbits_0 [simp]: "nbits 0 = 0"
  by (subst nbits.simps) simp

lemma nbits_bounds: "n > 0 \<Longrightarrow> 2 ^ nbits n \<le> 2 * n \<and> n < 2 ^ nbits n"
proof (induction n rule: nbits.induct)
  case (1 n)
  then have n: "nbits n = Suc (nbits (n div 2))"
    by (subst nbits.simps) simp
  show ?case
  proof (cases "n div 2 = 0")
    case True
    with 1 have "n = 1" by (simp add: div_eq_0_iff)
    with n True show ?thesis by simp
  next
    case False
    with 1 have "2 ^ nbits (n div 2) \<le> 2 * (n div 2)" "n div 2 < 2 ^ nbits (n div 2)" by auto
    then show ?thesis unfolding n power_Suc by linarith
  qed
qed

lemma nbits_pos: "n > 0 \<Longrightarrow> nbits n > 0"
  by (subst nbits.simps) simp

lemma nearest_even_bounds:
  assumes "d > 0"
  shows "2 * nearest_even n d * d \<le> 2 * n + d \<and> 2 * n \<le> 2 * nearest_even n d * d + d"
proof -
  have n: "n = n div d * d + n mod d" by simp
  have r: "n mod d < d" using assms by simp
  define q where "q = n div d"
  define r where "r = n mod d"
  have nq: "n = q * d + r" and rd: "r < d" using n r by (simp_all add: q_def r_def)
  show ?thesis
    unfolding nearest_even_def q_def [symmetric] r_def [symmetric]
    using nq rd by (auto simp: algebra_simps)
qed

lemma nearest_even_le: "d > 0 \<Longrightarrow> n < k * d \<Longrightarrow> nearest_even n d \<le> k"
  using div_less_iff_less_mult [of d n k] by (simp add: nearest_even_def)

lemma nearest_even_ge: "d > 0 \<Longrightarrow> k * d \<le> n \<Longrightarrow> k \<le> nearest_even n d"
  using less_eq_div_iff_mult_less_eq [of d k n] by (simp add: nearest_even_def)

lemma f_norm_ok:
  assumes "q \<le> 2 ^ 24" and "- 149 \<le> e" and "2 ^ 23 \<le> q \<or> e = - 149"
  shows "f32_ok (f_norm s q e)"
  using assms by (auto simp: f_norm_def f32_ok_def)

lemma scaled_den: "b > 0 \<Longrightarrow> snd (scaled a b e) > 0"
  by (simp add: scaled_def)

lemma scaled_value:
  "b > 0 \<Longrightarrow>
   real (fst (scaled a b e)) / real (snd (scaled a b e)) = real a / real b / 2 powi e"
  by (auto simp: scaled_def power_int_def divide_simps)

lemma frac_less: "d > 0 \<Longrightarrow> real n / real d < real k \<longleftrightarrow> n < k * d"
  by (simp add: divide_less_eq flip: of_nat_mult)

lemma frac_ge: "d > 0 \<Longrightarrow> real k \<le> real n / real d \<longleftrightarrow> k * d \<le> n"
  by (simp add: le_divide_eq flip: of_nat_mult)

lemma quotient_bits:
  assumes "a > 0" and "b > 0"
  defines "v \<equiv> real a / real b / 2 powi (int (nbits a) - int (nbits b) - 24)"
  shows "2 ^ 23 \<le> v" and "v < 2 ^ 25"
proof -
  define A B where "A = (2 :: real) ^ nbits a" and "B = (2 :: real) ^ nbits b"
  have ab: "A \<le> 2 * real a" "real a < A" "B \<le> 2 * real b" "real b < B" and pos: "A > 0" "B > 0"
    using nbits_bounds [OF assms(1)] nbits_bounds [OF assms(2)] unfolding A_def B_def
    by (metis of_nat_le_iff of_nat_less_iff of_nat_mult of_nat_numeral of_nat_power zero_less_numeral zero_less_power)+
  have "2 powi (int (nbits a) - int (nbits b) - 24) = A / (B * 2 ^ 24)"
    by (simp add: A_def B_def power_int_diff)
  then have v: "v = real a * B * 2 ^ 24 / (real b * A)"
    by (simp add: v_def field_simps)
  have "real b * A \<le> B * (2 * real a)"
    using ab pos assms(2) by (intro mult_mono) auto
  then show "2 ^ 23 \<le> v"
    unfolding v using assms(2) pos by (simp add: le_divide_eq algebra_simps)
  have "real a * B < A * (2 * real b)"
    using ab pos assms(1,2) by (intro mult_less_le_imp_less) auto
  then show "v < 2 ^ 25"
    unfolding v using assms(2) pos by (simp add: divide_less_eq algebra_simps)
qed

lemma round_exp_spec:
  assumes "a > 0" and "b > 0"
  defines "v \<equiv> real a / real b / 2 powi round_exp a b"
  shows "v < 2 ^ 24" and "2 ^ 23 \<le> v \<or> round_exp a b = - 149" and "- 149 \<le> round_exp a b"
proof -
  define k where "k = int (nbits a) - int (nbits b) - 24"
  define w where "w e = real a / real b / 2 powi e" for e
  define k' where "k' = (if w k < 2 ^ 24 then k else k + 1)"
  have "fst (scaled a b k) < 2 ^ 24 * snd (scaled a b k) \<longleftrightarrow> w k < 2 ^ 24"
    using frac_less [OF scaled_den [OF assms(2), of a k], of "fst (scaled a b k)" "2 ^ 24"]
    unfolding w_def scaled_value [OF assms(2)] by simp
  then have e: "round_exp a b = max (- 149) k'"
    by (simp add: round_exp_def Let_def case_prod_beta k_def k'_def)
  have half: "w (k + 1) = w k / 2"
    by (simp add: w_def power_int_add)
  have w': "2 ^ 23 \<le> w k'" "w k' < 2 ^ 24"
    using quotient_bits [OF assms(1,2)] half unfolding k_def [symmetric] w_def [symmetric] k'_def by auto
  have "2 powi k' \<le> (2 :: real) powi round_exp a b"
    by (simp add: e power_int_increasing)
  then have "w (round_exp a b) \<le> w k'"
    unfolding w_def using assms(1,2) by (simp add: divide_left_mono)
  with w' e show "v < 2 ^ 24" and "2 ^ 23 \<le> v \<or> round_exp a b = - 149" and "- 149 \<le> round_exp a b"
    unfolding v_def w_def by (auto simp: max_def split: if_splits)
qed

text \<open>Rounding gives a well-formed float, and one at most half a unit in the last place away.\<close>

lemma f_round_ok:
  assumes "b > 0"
  shows "f32_ok (f_round s a b)"
proof -
  define e where "e = round_exp a b"
  obtain n d where nd: "scaled a b e = (n, d)" by (cases "scaled a b e")
  have d: "d > 0" using scaled_den [OF assms, of a e] nd by simp
  have v: "real n / real d = real a / real b / 2 powi e" using scaled_value [OF assms, of a e] nd by simp
  show "f32_ok (f_round s a b)"
  proof (cases "a = 0")
    case True
    then show ?thesis by (simp add: f_round_def f_zero_def f32_ok_def)
  next
    case False
    with round_exp_spec [of a b] assms v
    have "real n / real d < 2 ^ 24" "2 ^ 23 \<le> real n / real d \<or> e = - 149" "- 149 \<le> e"
      by (auto simp: e_def)
    then have "n < 2 ^ 24 * d" "2 ^ 23 * d \<le> n \<or> e = - 149"
      using frac_less [OF d, of n "2 ^ 24"] frac_ge [OF d, of "2 ^ 23" n] by simp_all
    then have "f32_ok (f_norm s (nearest_even n d) e)"
      using d \<open>- 149 \<le> e\<close> by (intro f_norm_ok) (auto intro: nearest_even_le nearest_even_ge)
    with False nd show ?thesis
      by (simp add: f_round_def Let_def e_def)
  qed
qed

lemma nearest_even_error:
  assumes "d > 0"
  shows "\<bar>real (nearest_even n d) - real n / real d\<bar> \<le> 1 / 2"
proof -
  have "2 * (real (nearest_even n d) * real d) \<le> 2 * real n + real d"
    and "2 * real n \<le> 2 * (real (nearest_even n d) * real d) + real d"
    using nearest_even_bounds [OF assms, of n]
    by (metis mult.assoc of_nat_add of_nat_le_iff of_nat_mult of_nat_numeral)+
  with assms have "\<bar>real (nearest_even n d) * real d - real n\<bar> \<le> real d / 2"
    by linarith
  moreover have "real (nearest_even n d) - real n / real d = (real (nearest_even n d) * real d - real n) / real d"
    using assms by (simp add: field_simps)
  ultimately show ?thesis
    using assms by (simp add: abs_divide divide_le_eq)
qed

lemma f_norm_value: "f_norm s q e = F_Fin t m x \<Longrightarrow> t = s \<and> real m * 2 powi x = real q * 2 powi e"
  by (auto simp: f_norm_def power_int_add split: if_splits)

lemma f_norm_exp: "f_norm s q e = F_Fin t m x \<Longrightarrow> e \<le> x"
  by (auto simp: f_norm_def split: if_splits)

lemma f_round_error:
  assumes "b > 0" and "f_round s a b = F_Fin t m x"
  shows "t = s \<and> \<bar>real m * 2 powi x - real a / real b\<bar> \<le> 2 powi x / 2"
proof (cases "a = 0")
  case True
  with assms show ?thesis by (auto simp: f_round_def f_zero_def)
next
  case False
  define e where "e = round_exp a b"
  obtain n d where nd: "scaled a b e = (n, d)" by (cases "scaled a b e")
  have d: "d > 0" using scaled_den [OF assms(1), of a e] nd by simp
  have v: "real a / real b = real n / real d * 2 powi e"
    using scaled_value [OF assms(1), of a e] nd by simp
  have r: "f_norm s (nearest_even n d) e = F_Fin t m x"
    using assms(2) False nd by (simp add: f_round_def Let_def e_def)
  note m = f_norm_value [OF r]
  have "\<bar>real m * 2 powi x - real a / real b\<bar> = \<bar>real (nearest_even n d) - real n / real d\<bar> * 2 powi e"
    unfolding v conjunct2 [OF m] left_diff_distrib [symmetric] abs_mult by simp
  also have "\<dots> \<le> 1 / 2 * 2 powi e"
    using nearest_even_error [OF d] by (intro mult_right_mono) auto
  also have "\<dots> \<le> 2 powi x / 2"
    using f_norm_exp [OF r] power_int_increasing [of e x "2 :: real"] by simp
  finally show ?thesis using m by simp
qed

section \<open>Every operation gives a well-formed float\<close>

named_theorems f32_oks \<open>well-formedness of the results of float operations\<close>

lemma f_simple_ok [simp, f32_oks]: "f32_ok F_NaN" "f32_ok (F_Inf s)" "f32_ok (f_zero s)"
  by (simp_all add: f32_ok_def f_zero_def)

lemma f_round_pow_ok [simp, f32_oks]: "f32_ok (f_round_pow s m e)"
  by (simp add: f_round_pow_def f_round_ok)

lemma f_lit_ok [simp, f32_oks]: "b > 0 \<Longrightarrow> f32_ok (f_lit a b)"
  by (simp add: f_lit_def f_round_ok)

lemma f_of_int_ok [simp, f32_oks]: "f32_ok (f_of_int i)"
  by (simp add: f_of_int_def f_round_ok)

lemma f_neg_ok [simp, f32_oks]: "f32_ok x \<Longrightarrow> f32_ok (f_neg x)"
  by (cases x) (auto simp: f32_ok_def)

lemma f_add_ok [simp, f32_oks]: "f32_ok (f_add x y)"
  by (cases "(x, y)" rule: f_add.cases) (auto simp: Let_def case_prod_beta)

lemma f_sub_ok [simp, f32_oks]: "f32_ok (f_sub x y)"
  by (simp add: f_sub_def)

lemma f_mul_ok [simp, f32_oks]: "f32_ok (f_mul x y)"
  by (cases "(x, y)" rule: f_mul.cases) auto

lemma f_div_ok [simp, f32_oks]: "f32_ok (f_div x y)"
  by (cases "(x, y)" rule: f_div.cases) (auto intro!: f_round_ok)

lemma isqrt_bounds: "(isqrt n)\<^sup>2 \<le> n \<and> n < (isqrt n + 1)\<^sup>2"
proof (induction n rule: isqrt.induct)
  case (1 n)
  show ?case
  proof (cases "n = 0")
    case True
    then show ?thesis by (simp add: isqrt.simps)
  next
    case False
    define r where "r = isqrt (n div 4)"
    have "r\<^sup>2 \<le> n div 4" "n div 4 < (r + 1)\<^sup>2" using 1 [OF False] by (simp_all add: r_def)
    then have "4 * r\<^sup>2 \<le> n" "n < 4 * (r + 1)\<^sup>2" by linarith+
    then have "(2 * r)\<^sup>2 \<le> n" "n < (2 * r + 1 + 1)\<^sup>2"
      by (simp_all add: power2_eq_square algebra_simps)
    with False show ?thesis
      by (subst (1 2) isqrt.simps) (auto simp: Let_def r_def [symmetric])
  qed
qed

lemma isqrt_range:
  assumes "l\<^sup>2 \<le> n" and "n < u\<^sup>2"
  shows "l \<le> isqrt n \<and> isqrt n < u"
proof -
  have "l\<^sup>2 < (isqrt n + 1)\<^sup>2" and "(isqrt n)\<^sup>2 < u\<^sup>2"
    using isqrt_bounds [of n] assms by linarith+
  then show ?thesis
    by (auto dest: power_less_imp_less_base)
qed

lemma f_sqrt_ok [simp, f32_oks]:
  assumes "f32_ok x"
  shows "f32_ok (f_sqrt x)"
proof (cases "\<exists>m e. x = F_Fin False m e \<and> m > 0")
  case False
  with assms show ?thesis by (cases x) auto
next
  case True
  then obtain m e where x: "x = F_Fin False m e" and m: "m > 0" by blast
  define k where "k = 48 - nbits m"
  define k' where "k' = (if odd (e - int k) then k - 1 else k)"
  define w where "w = m * 2 ^ k'"
  have m24: "m < 2 ^ 24" and e: "- 149 \<le> e" using assms x by (auto simp: f32_ok_def)
  have nb: "2 ^ nbits m \<le> 2 * m" "m < 2 ^ nbits m" using nbits_bounds [OF m] by auto
  have "nbits m \<le> 24"
  proof (rule ccontr)
    assume "\<not> nbits m \<le> 24"
    then have "(2 :: nat) ^ 25 \<le> 2 ^ nbits m" by (intro power_increasing) auto
    with nb m24 show False by simp
  qed
  then have k: "nbits m + k = 48" "k' \<le> k" "k \<le> Suc k'" by (auto simp: k_def k'_def)
  have "2 ^ 47 \<le> 2 ^ nbits m * (2 :: nat) ^ k'"
    unfolding power_add [symmetric] using k by (intro power_increasing) auto
  also have "\<dots> \<le> 2 * m * 2 ^ k'" using nb by (intro mult_right_mono) auto
  finally have lo: "(2 ^ 23)\<^sup>2 \<le> w" by (simp add: w_def)
  have "w < 2 ^ nbits m * 2 ^ k'" unfolding w_def using nb by (intro mult_strict_right_mono) auto
  also have "\<dots> \<le> (2 :: nat) ^ 48"
    unfolding power_add [symmetric] using k by (intro power_increasing) auto
  finally have hi: "w < (2 ^ 24)\<^sup>2" by simp
  have "k \<le> 48" by (simp add: k_def)
  with k e have "- 149 \<le> (e - int k') div 2" by linarith
  with isqrt_range [OF lo hi]
  have "f32_ok (f_norm False (if (isqrt w)\<^sup>2 + isqrt w < w then isqrt w + 1 else isqrt w) ((e - int k') div 2))"
    by (intro f_norm_ok) auto
  then show ?thesis
    unfolding x f_sqrt.simps Let_def k_def [symmetric] k'_def [symmetric] w_def [symmetric] using m by simp
qed

lemma f_floor_ok [simp, f32_oks]: "f32_ok x \<Longrightarrow> f32_ok (f_floor x)"
  by (cases x) (auto simp: Let_def)

lemma f_lt_le: "f_lt x y \<Longrightarrow> f_le x y"
  by (cases "(x, y)" rule: f_lt.cases) (auto simp: Let_def case_prod_beta)

lemma f_cmp_NaN [simp]: "\<not> f_lt F_NaN y" "\<not> f_lt x F_NaN" "\<not> f_le F_NaN y" "\<not> f_le x F_NaN"
  by (cases x; simp)+

lemma f_arith_NaN [simp]:
  "f_add F_NaN y = F_NaN" "f_add x F_NaN = F_NaN" "f_mul F_NaN y = F_NaN" "f_mul x F_NaN = F_NaN"
  "f_div F_NaN y = F_NaN" "f_div x F_NaN = F_NaN" "f_sub F_NaN y = F_NaN" "f_sub x F_NaN = F_NaN"
  by (cases x; cases y; simp add: f_sub_def)+

lemma f_to_int32_range: "f_to_int32 x = Some i \<Longrightarrow> int32_range i"
  by (cases x) (auto simp: Let_def split: if_splits)

text \<open>Evaluation on concrete floats by rewriting.\<close>

lemma isqrt_small [simp]: "isqrt 0 = 0" "isqrt (Suc 0) = 1"
  by (simp_all add: isqrt.simps)

lemma nbits_1 [simp]: "nbits (Suc 0) = 1"
  by (simp add: nbits.simps)

lemmas isqrt_numeral = isqrt.simps [of "numeral k" for k]
lemmas nbits_numeral = nbits.simps [of "numeral k" for k]

lemmas f32_eval = f_round_def f_round_pow_def f_lit_def f_of_int_def f_norm_def f_zero_def f_sub_def
  nearest_even_def round_exp_def scaled_def signed_def aligned_def int32_range_def
  nbits_numeral isqrt_numeral Let_def

end
