(* ===== verification/Command.thy ===== *)
theory Command
  imports Float32
begin

text \<open>
  \<open>src/src/game/command.{h,cpp}\<close>: the battle commands and the mutex-protected queue that hands them from
  the I/O threads to a logic worker. Every method holds the lock for its whole body, so a concurrent
  use is a sequence of these operations.
\<close>

datatype command_type = MOVE | STOP_MOVE | ATTACK | SKILL | LEAVE

record command =
  cmd_type :: command_type
  cmd_player_id :: player_id
  cmd_sequence :: u64
  cmd_timestamp_ms :: u64
  move_dir_x :: f32
  move_dir_y :: f32
  target_id :: player_id
  skill_id :: int
  skill_target_x :: f32
  skill_target_y :: f32

text \<open>A command with the default member initialisers.\<close>

definition Command_default :: "command_type \<Rightarrow> player_id \<Rightarrow> command" where
  "Command_default t p =
     \<lparr>cmd_type = t, cmd_player_id = p, cmd_sequence = 0, cmd_timestamp_ms = 0, move_dir_x = f_zero False,
      move_dir_y = f_zero False, target_id = 0, skill_id = 0, skill_target_x = f_zero False,
      skill_target_y = f_zero False\<rparr>"

record command_queue =
  cmd_queue :: "command list"

definition CommandQueue_new :: command_queue where
  "CommandQueue_new = \<lparr>cmd_queue = []\<rparr>"

definition CommandQueue_push :: "command \<Rightarrow> command_queue \<Rightarrow> command_queue" where
  "CommandQueue_push cmd q = q\<lparr>cmd_queue := cmd_queue q @ [cmd]\<rparr>"

text \<open>The loop of \<open>drain\<close>: pop the front, append to the result, until the queue is empty.\<close>

fun drain_cmds :: "command list \<Rightarrow> command list \<Rightarrow> command list \<times> command list" where
  "drain_cmds [] result = (result, [])"
| "drain_cmds (c # cs) result = drain_cmds cs (result @ [c])"

definition CommandQueue_drain :: "command_queue \<Rightarrow> command list \<times> command_queue" where
  "CommandQueue_drain q = (let (r, rest) = drain_cmds (cmd_queue q) [] in (r, q\<lparr>cmd_queue := rest\<rparr>))"

definition CommandQueue_size :: "command_queue \<Rightarrow> nat" where
  "CommandQueue_size q = length (cmd_queue q)"

lemma drain_cmds_eq: "drain_cmds cs r = (r @ cs, [])"
  by (induction cs arbitrary: r) auto

interpretation cq: handover_queue CommandQueue_push CommandQueue_drain cmd_queue
  by unfold_locales (simp_all add: CommandQueue_push_def CommandQueue_drain_def drain_cmds_eq)

text \<open>Two drains one after the other: each command is handed over once, in the order of the pushes.\<close>

lemma command_handover:
  "fst (CommandQueue_drain (fold CommandQueue_push ys (snd (CommandQueue_drain (fold CommandQueue_push xs q))))) = ys"
  by (rule cq.no_loss_no_duplication)

end
