(* ===== verification/Messages.thy ===== *)
theory Messages
  imports Float32
begin

text \<open>
  The protocol-buffer messages the server exchanges (\<open>src/proto/messages.proto\<close>), with the fields of
  the schema. The generated classes and the wire format are code outside the repository:
  serialisation and parsing are the fields of a \<open>codec\<close> record that every definition which needs them
  takes as an argument. \<open>ParseFromString\<close> returns its success together with the message, because
  some handlers read the message without looking at the result.
\<close>

record player_state =
  ps_player_id :: u64
  ps_position_x :: f32
  ps_position_y :: f32
  ps_direction_x :: f32
  ps_direction_y :: f32
  ps_hp :: int
  ps_max_hp :: int
  ps_alive :: bool

datatype server_msg =
    LoginResponse int u64 u64 string
  | HeartbeatResponse u64
  | MatchStartResponse int string
  | MatchSuccessNotify u64 string
  | EnterRoomResponse int string u64
  | BattleStartNotify u64 int
  | BattleStateNotify u64 u64 "player_state list"
  | PlayerDeathNotify u64 u64 int
  | ReconnectResponse int string
  | BattleSnapshotNotify u64 u64 "player_state list"
  | BattleEndNotify u64 int
  | BattleSettlementNotify u64 int int int int int

record login_request =
  req_username :: string
  req_password :: string

record skill_request =
  req_skill_id :: int
  req_skill_target :: u64
  req_target_x :: f32
  req_target_y :: f32

record codec =
  SerializeToString :: "server_msg \<Rightarrow> bytes"
  Parse_LoginRequest :: "bytes \<Rightarrow> bool \<times> login_request"
  Parse_MatchStartRequest :: "bytes \<Rightarrow> bool \<times> int"
  Parse_EnterRoomRequest :: "bytes \<Rightarrow> bool \<times> u64"
  Parse_PlayerMoveRequest :: "bytes \<Rightarrow> bool \<times> f32 \<times> f32"
  Parse_PlayerAttackRequest :: "bytes \<Rightarrow> bool \<times> u64"
  Parse_PlayerSkillRequest :: "bytes \<Rightarrow> bool \<times> skill_request"
  Parse_ReconnectRequest :: "bytes \<Rightarrow> bool \<times> u64"

text \<open>A message on its way to a player: the arguments of the \<open>SendCallback\<close> of the battle code.\<close>

type_synonym player_send = "player_id \<times> u32 \<times> bytes"

text \<open>
  A codec for the worked examples: one tag byte per kind of message, and requests that carry at most
  one small number.
\<close>

fun msg_tag :: "server_msg \<Rightarrow> byte" where
  "msg_tag (LoginResponse _ _ _ _) = 1"
| "msg_tag (HeartbeatResponse _) = 2"
| "msg_tag (MatchStartResponse _ _) = 3"
| "msg_tag (MatchSuccessNotify _ _) = 4"
| "msg_tag (EnterRoomResponse _ _ _) = 5"
| "msg_tag (BattleStartNotify _ _) = 6"
| "msg_tag (BattleStateNotify _ _ _) = 7"
| "msg_tag (PlayerDeathNotify _ _ _) = 8"
| "msg_tag (ReconnectResponse _ _) = 9"
| "msg_tag (BattleSnapshotNotify _ _ _) = 10"
| "msg_tag (BattleEndNotify _ _) = 11"
| "msg_tag (BattleSettlementNotify _ _ _ _ _ _) = 12"

definition first_byte :: "bytes \<Rightarrow> u64" where
  "first_byte bs = (case bs of [] \<Rightarrow> 0 | b # _ \<Rightarrow> ucast b)"

definition example_codec :: codec where
  "example_codec =
     \<lparr>SerializeToString = (\<lambda>m. [msg_tag m]),
      Parse_LoginRequest = (\<lambda>bs. (bs \<noteq> [], \<lparr>req_username = ''alice'', req_password = ''secret''\<rparr>)),
      Parse_MatchStartRequest = (\<lambda>bs. (True, 0)),
      Parse_EnterRoomRequest = (\<lambda>bs. (bs \<noteq> [], first_byte bs)),
      Parse_PlayerMoveRequest = (\<lambda>bs. (bs \<noteq> [], f_of_int 1, f_of_int 0)),
      Parse_PlayerAttackRequest = (\<lambda>bs. (bs \<noteq> [], first_byte bs)),
      Parse_PlayerSkillRequest = (\<lambda>bs. (bs \<noteq> [], \<lparr>req_skill_id = 1, req_skill_target = first_byte bs,
         req_target_x = f_of_int 0, req_target_y = f_of_int 0\<rparr>)),
      Parse_ReconnectRequest = (\<lambda>bs. (bs \<noteq> [], first_byte bs))\<rparr>"

end
