(* ===== verification/Broadcaster.thy ===== *)
theory Broadcaster
  imports Messages
begin

text \<open>
  \<open>src/src/game/broadcaster.{h,cpp}\<close>: immediate and overridable messages of a battle. The send
  callback is either unset or set; what an operation hands to it, in order, is its result.
\<close>

section \<open>State and operations\<close>

record broadcaster =
  send_cb_set :: bool
  overrides :: "(player_id, u32 \<times> bytes) umap"

definition Broadcaster_new :: broadcaster where
  "Broadcaster_new = \<lparr>send_cb_set = False, overrides = []\<rparr>"

definition Broadcaster_setSendCallback :: "bool \<Rightarrow> broadcaster \<Rightarrow> broadcaster" where
  "Broadcaster_setSendCallback cb b = b\<lparr>send_cb_set := cb\<rparr>"

text \<open>Player 0 is meant as \<open>broadcast to all\<close>.\<close>

definition Broadcaster_broadcastToRoom :: "u32 \<Rightarrow> bytes \<Rightarrow> broadcaster \<Rightarrow> player_send list" where
  "Broadcaster_broadcastToRoom msg_id payload b = (if send_cb_set b then [(0, msg_id, payload)] else [])"

definition Broadcaster_broadcastToAoi :: "player_id list \<Rightarrow> u32 \<Rightarrow> bytes \<Rightarrow> broadcaster \<Rightarrow> player_send list" where
  "Broadcaster_broadcastToAoi receivers msg_id payload b =
     (if \<not> send_cb_set b then [] else map (\<lambda>pid. (pid, msg_id, payload)) receivers)"

definition Broadcaster_queueOverride :: "player_id \<Rightarrow> u32 \<Rightarrow> bytes \<Rightarrow> broadcaster \<Rightarrow> broadcaster" where
  "Broadcaster_queueOverride pid msg_id payload b = b\<lparr>overrides := uput pid (msg_id, payload) (overrides b)\<rparr>"

definition Broadcaster_flushOverrides :: "broadcaster \<Rightarrow> player_send list \<times> broadcaster" where
  "Broadcaster_flushOverrides b =
     (concat (map (\<lambda>(pid, msg). if send_cb_set b then [(pid, fst msg, snd msg)] else []) (overrides b)),
      b\<lparr>overrides := []\<rparr>)"

section \<open>The overridable channel\<close>

text \<open>Queueing a sequence of messages, in order.\<close>

fun queue_all :: "(player_id \<times> u32 \<times> bytes) list \<Rightarrow> broadcaster \<Rightarrow> broadcaster" where
  "queue_all [] b = b"
| "queue_all ((pid, m, d) # qs) b = queue_all qs (Broadcaster_queueOverride pid m d b)"

lemma queue_all_cb [simp]: "send_cb_set (queue_all qs b) = send_cb_set b"
  by (induction qs b rule: queue_all.induct) (simp_all add: Broadcaster_queueOverride_def)

lemma queue_all_ok: "umap_ok (overrides b) \<Longrightarrow> umap_ok (overrides (queue_all qs b))"
  by (induction qs b rule: queue_all.induct) (simp_all add: Broadcaster_queueOverride_def)

lemma queue_all_get:
  "uget (overrides (queue_all qs b)) p =
     (case uget (rev qs) p of None \<Rightarrow> uget (overrides b) p | Some md \<Rightarrow> Some md)"
proof (induction qs b rule: queue_all.induct)
  case (1 b)
  then show ?case by simp
next
  case (2 pid m d qs b)
  then show ?case
    by (cases "uget (rev qs) p") (auto simp: Broadcaster_queueOverride_def map_add_def)
qed

lemma flush_set: "send_cb_set b \<Longrightarrow> fst (Broadcaster_flushOverrides b) = overrides b"
proof -
  have "concat (map (\<lambda>(pid, msg). [(pid, fst msg, snd msg)]) m) = m" for m :: "(player_id, u32 \<times> bytes) umap"
    by (induction m) auto
  then show "send_cb_set b \<Longrightarrow> fst (Broadcaster_flushOverrides b) = overrides b"
    by (simp add: Broadcaster_flushOverrides_def)
qed

section \<open>Properties\<close>

text \<open>
  The overridable channel keeps the newest message: whatever was queued for the players since
  the last flush, a flush hands each player who has one exactly one message, the last that was queued
  for that player, and a second flush hands out nothing.
\<close>
theorem flush_sends_latest:
  fixes qs :: "(player_id \<times> u32 \<times> bytes) list"
  assumes "send_cb_set b" and "overrides b = []"
  defines "r \<equiv> Broadcaster_flushOverrides (queue_all qs b)"
  shows "distinct (map fst (fst r)) \<and>
         (\<forall>p md. (p, md) \<in> set (fst r) \<longleftrightarrow> uget (rev qs) p = Some md) \<and>
         fst (Broadcaster_flushOverrides (snd r)) = []"
proof -
  have ok: "umap_ok (overrides (queue_all qs b))"
    by (rule queue_all_ok) (simp add: assms)
  have out: "fst r = overrides (queue_all qs b)"
    unfolding r_def by (rule flush_set) (simp add: assms)
  have "(p, md) \<in> set (fst r) \<longleftrightarrow> uget (rev qs) p = Some md" for p md
    unfolding out uget_mem [OF ok, symmetric] queue_all_get by (simp add: assms split: option.splits)
  moreover have "fst (Broadcaster_flushOverrides (snd r)) = []"
    by (simp add: r_def Broadcaster_flushOverrides_def)
  ultimately show ?thesis
    using ok out by (simp add: umap_ok_def)
qed

theorem flush_sends_latest_witness:
  "let b = Broadcaster_setSendCallback True Broadcaster_new;
       r = Broadcaster_flushOverrides (queue_all [(1, 4004, [1]), (2, 4004, [2]), (1, 4004, [3])] b)
   in (1, 4004, [3]) \<in> set (fst r) \<and> (1, 4004, [1]) \<notin> set (fst r) \<and>
      fst (Broadcaster_flushOverrides (snd r)) = []"
proof -
  let ?b = "Broadcaster_setSendCallback True Broadcaster_new"
  have "send_cb_set ?b" "overrides ?b = []"
    by (simp_all add: Broadcaster_setSendCallback_def Broadcaster_new_def)
  from flush_sends_latest [OF this, of "[(1, 4004, [1]), (2, 4004, [2]), (1, 4004, [3])]"] show ?thesis
    by (simp add: Let_def)
qed

text \<open>
  The channel has one slot per player, not one per player and message id: a queued message of one
  kind discards the pending message of another kind.
\<close>
theorem override_discards_other_messages:
  "m \<noteq> m' \<Longrightarrow>
   (p, m, d) \<notin> set (fst (Broadcaster_flushOverrides
      (Broadcaster_queueOverride p m' d' (Broadcaster_queueOverride p m d Broadcaster_new))))"
  by (simp add: Broadcaster_flushOverrides_def Broadcaster_queueOverride_def Broadcaster_new_def)

theorem override_discards_other_messages_witness:
  "(7, 4005, [1]) \<notin> set (fst (Broadcaster_flushOverrides
      (Broadcaster_queueOverride 7 4004 [2] (Broadcaster_queueOverride 7 4005 [1] Broadcaster_new))))"
  by (rule override_discards_other_messages) simp

end
