(* ===== verification/Aoi_Grid.thy ===== *)
theory Aoi_Grid
  imports Float32
begin

text \<open>
  \<open>src/src/game/aoi_grid.{h,cpp}\<close>: the area-of-interest grid, two mutually inverse tables (the players of
  a cell, the cell of a player). An \<open>unordered_set\<close> is a list without duplicates. The specification
  is a single map from players to cells; the grid refines it, and the nine-cell query returns exactly
  the players whose cell differs by at most one in each coordinate.
\<close>

section \<open>State and operations\<close>

type_synonym cell_key = "int \<times> int"

record aoi_grid =
  cells :: "(cell_key, player_id list) umap"
  player_cells :: "(player_id, cell_key) umap"

definition AoiGrid_new :: aoi_grid where
  "AoiGrid_new = \<lparr>cells = [], player_cells = []\<rparr>"

definition kCellSize :: f32 where
  "kCellSize = f_lit 200 1"

text \<open>\<open>static_cast<int32_t>(std::floor(x / kCellSize))\<close>, undefined when the quotient does not fit.\<close>

definition cell_coord :: "f32 \<Rightarrow> ub + int" where
  "cell_coord x =
     (case f_to_int32 (f_floor (f_div x kCellSize)) of None \<Rightarrow> Inl Float_cast_out_of_range | Some i \<Rightarrow> Inr i)"

definition AoiGrid_cellOf :: "f32 \<Rightarrow> f32 \<Rightarrow> ub + cell_key" where
  "AoiGrid_cellOf x y = res_bind (cell_coord x) (\<lambda>cx. res_bind (cell_coord y) (\<lambda>cy. Inr (cx, cy)))"

text \<open>\<open>grid_[c]\<close>: an absent cell reads as the empty set.\<close>

definition cell_players :: "(cell_key, player_id list) umap \<Rightarrow> cell_key \<Rightarrow> player_id list" where
  "cell_players g c = (case uget g c of None \<Rightarrow> [] | Some s \<Rightarrow> s)"

definition leave_cell :: "player_id \<Rightarrow> cell_key \<Rightarrow> (cell_key, player_id list) umap \<Rightarrow> (cell_key, player_id list) umap" where
  "leave_cell p c g =
     (let s = remove1 p (cell_players g c) in if s = [] then uerase c g else uput c s g)"

definition enter_cell :: "player_id \<Rightarrow> cell_key \<Rightarrow> (cell_key, player_id list) umap \<Rightarrow> (cell_key, player_id list) umap" where
  "enter_cell p c g =
     (let s = cell_players g c in uput c (if p \<in> set s then s else p # s) g)"

definition AoiGrid_place :: "player_id \<Rightarrow> cell_key \<Rightarrow> aoi_grid \<Rightarrow> aoi_grid" where
  "AoiGrid_place p c a =
     (case uget (player_cells a) p of
        None \<Rightarrow> \<lparr>cells = enter_cell p c (cells a), player_cells = uput p c (player_cells a)\<rparr>
      | Some old \<Rightarrow>
          if old = c then a
          else \<lparr>cells = enter_cell p c (leave_cell p old (cells a)), player_cells = uput p c (player_cells a)\<rparr>)"

definition AoiGrid_update :: "player_id \<Rightarrow> f32 \<Rightarrow> f32 \<Rightarrow> aoi_grid \<Rightarrow> ub + aoi_grid" where
  "AoiGrid_update p x y a = res_bind (AoiGrid_cellOf x y) (\<lambda>c. Inr (AoiGrid_place p c a))"

definition AoiGrid_remove :: "player_id \<Rightarrow> aoi_grid \<Rightarrow> aoi_grid" where
  "AoiGrid_remove p a =
     (case uget (player_cells a) p of
        None \<Rightarrow> a
      | Some old \<Rightarrow> \<lparr>cells = leave_cell p old (cells a), player_cells = uerase p (player_cells a)\<rparr>)"

text \<open>The double loop over \<open>dx\<close> and \<open>dy\<close>; the additions are on \<open>int32_t\<close>.\<close>

definition nine_cells :: "cell_key \<Rightarrow> cell_key list" where
  "nine_cells c = concat (map (\<lambda>dx. map (\<lambda>dy. (fst c + dx, snd c + dy)) [-1, 0, 1]) [-1, 0, 1])"

definition AoiGrid_getNearby :: "player_id \<Rightarrow> aoi_grid \<Rightarrow> ub + player_id list" where
  "AoiGrid_getNearby p a =
     (case uget (player_cells a) p of
        None \<Rightarrow> Inr []
      | Some c \<Rightarrow>
          if list_all (\<lambda>(x, y). int32_range x \<and> int32_range y) (nine_cells c)
          then Inr (concat (map (cell_players (cells a)) (nine_cells c)))
          else Inl Int32_overflow)"

definition AoiGrid_playerCount :: "aoi_grid \<Rightarrow> nat" where
  "AoiGrid_playerCount a = length (player_cells a)"

section \<open>The two tables are inverse to each other\<close>

definition no_empty_cell :: "(cell_key, player_id list) umap \<Rightarrow> bool" where
  "no_empty_cell g \<longleftrightarrow> (\<forall>c. uget g c \<noteq> Some [])"

definition AoiGrid_inv :: "aoi_grid \<Rightarrow> bool" where
  "AoiGrid_inv a \<longleftrightarrow>
     umap_ok (cells a) \<and> umap_ok (player_cells a) \<and>
     (\<forall>c. distinct (cell_players (cells a) c)) \<and>
     no_empty_cell (cells a) \<and>
     (\<forall>p c. p \<in> set (cell_players (cells a) c) \<longleftrightarrow> uget (player_cells a) p = Some c)"

lemma cell_players_leave:
  "cell_players (leave_cell p c g) c' = (if c' = c then remove1 p (cell_players g c) else cell_players g c')"
  by (auto simp: leave_cell_def cell_players_def Let_def)

lemma cell_players_enter:
  "cell_players (enter_cell p c g) c' =
     (if c' = c then (if p \<in> set (cell_players g c) then cell_players g c else p # cell_players g c)
      else cell_players g c')"
  by (auto simp: enter_cell_def cell_players_def Let_def)

lemma leave_cell_ok: "umap_ok g \<Longrightarrow> umap_ok (leave_cell p c g)"
  by (simp add: leave_cell_def Let_def)

lemma enter_cell_ok: "umap_ok g \<Longrightarrow> umap_ok (enter_cell p c g)"
  by (simp add: enter_cell_def Let_def)

lemma leave_cell_nonempty: "no_empty_cell g \<Longrightarrow> no_empty_cell (leave_cell p c g)"
  by (simp add: no_empty_cell_def leave_cell_def Let_def)

lemma enter_cell_nonempty: "no_empty_cell g \<Longrightarrow> no_empty_cell (enter_cell p c g)"
  by (auto simp: no_empty_cell_def enter_cell_def Let_def)

lemmas cell_update_intros = leave_cell_ok enter_cell_ok leave_cell_nonempty enter_cell_nonempty

lemma new_grid_inv [simp]: "AoiGrid_inv AoiGrid_new"
  by (simp add: AoiGrid_inv_def AoiGrid_new_def cell_players_def no_empty_cell_def)

lemma place_inv:
  assumes "AoiGrid_inv a"
  shows "AoiGrid_inv (AoiGrid_place p c a)"
  using assms
  by (auto simp: AoiGrid_inv_def AoiGrid_place_def cell_players_enter cell_players_leave
      intro: cell_update_intros split: option.splits)

lemma grid_remove_inv:
  assumes "AoiGrid_inv a"
  shows "AoiGrid_inv (AoiGrid_remove p a)"
  using assms
  by (auto simp: AoiGrid_inv_def AoiGrid_remove_def cell_players_leave
      intro: cell_update_intros split: option.splits)

section \<open>Refinement of a map from players to cells\<close>

datatype aoi_op = Update player_id f32 f32 | Remove player_id | Nearby player_id

text \<open>What a caller sees: nothing of an update that succeeds, the set of players of a query, or a fault.\<close>

fun AoiGrid_op :: "aoi_op \<Rightarrow> aoi_grid \<Rightarrow> (ub + player_id set) \<times> aoi_grid" where
  "AoiGrid_op (Update p x y) a =
     (case AoiGrid_update p x y a of Inl f \<Rightarrow> (Inl f, a) | Inr a' \<Rightarrow> (Inr {}, a'))"
| "AoiGrid_op (Remove p) a = (Inr {}, AoiGrid_remove p a)"
| "AoiGrid_op (Nearby p) a = (map_sum id set (AoiGrid_getNearby p a), a)"

definition adjacent :: "cell_key \<Rightarrow> cell_key \<Rightarrow> bool" where
  "adjacent c d \<longleftrightarrow> \<bar>fst c - fst d\<bar> \<le> 1 \<and> \<bar>snd c - snd d\<bar> \<le> 1"

definition inner_cell :: "cell_key \<Rightarrow> bool" where
  "inner_cell c \<longleftrightarrow> int32_range (fst c - 1) \<and> int32_range (fst c + 1) \<and>
                   int32_range (snd c - 1) \<and> int32_range (snd c + 1)"

text \<open>The specification: where each player is.\<close>

fun whereabouts_step :: "aoi_op \<Rightarrow> (player_id \<rightharpoonup> cell_key) \<Rightarrow> (ub + player_id set) \<times> (player_id \<rightharpoonup> cell_key)" where
  "whereabouts_step (Update p x y) w =
     (case AoiGrid_cellOf x y of Inl f \<Rightarrow> (Inl f, w) | Inr c \<Rightarrow> (Inr {}, w(p \<mapsto> c)))"
| "whereabouts_step (Remove p) w = (Inr {}, w(p := None))"
| "whereabouts_step (Nearby p) w =
     (case w p of
        None \<Rightarrow> Inr {}
      | Some c \<Rightarrow> if inner_cell c then Inr {q. \<exists>d. w q = Some d \<and> adjacent c d} else Inl Int32_overflow, w)"

definition whereabouts :: "aoi_grid \<Rightarrow> (player_id \<rightharpoonup> cell_key)" where
  "whereabouts a = uget (player_cells a)"

lemma set_nine_cells: "set (nine_cells c) = {d. adjacent c d}"
proof -
  have near: "\<bar>i - j\<bar> \<le> 1 \<longleftrightarrow> j = i - 1 \<or> j = i \<or> j = i + 1" for i j :: int
    by arith
  have "d \<in> set (nine_cells c) \<longleftrightarrow> adjacent c d" for d
    unfolding adjacent_def near by (cases c; cases d) (simp add: nine_cells_def, blast)
  then show ?thesis by blast
qed

lemma distinct_nine_cells: "distinct (nine_cells c)"
  by (cases c) (simp add: nine_cells_def)

lemma nine_cells_in_range:
  "list_all (\<lambda>(x, y). int32_range x \<and> int32_range y) (nine_cells c) \<longleftrightarrow> inner_cell c"
  by (cases c) (auto simp: nine_cells_def inner_cell_def int32_range_def)

lemma nearby_set:
  assumes "AoiGrid_inv a" and "uget (player_cells a) p = Some c" and "inner_cell c"
  shows "\<exists>qs. AoiGrid_getNearby p a = Inr qs \<and> distinct qs \<and>
           set qs = {q. \<exists>d. uget (player_cells a) q = Some d \<and> adjacent c d}"
proof -
  let ?qs = "concat (map (cell_players (cells a)) (nine_cells c))"
  have in_cell: "q \<in> set (cell_players (cells a) d) \<longleftrightarrow> uget (player_cells a) q = Some d" for q d
    using assms(1) by (cases d) (simp add: AoiGrid_inv_def)
  have "set ?qs = {q. \<exists>d. uget (player_cells a) q = Some d \<and> adjacent c d}"
    by (auto simp: set_nine_cells in_cell)
  moreover have "distinct ?qs"
  proof -
    have cells: "distinct (cell_players (cells a) d)" for d
      using assms(1) by (cases d) (simp add: AoiGrid_inv_def)
    have "distinct ds \<Longrightarrow> distinct (concat (map (cell_players (cells a)) ds))" for ds
      by (induction ds) (auto simp: cells in_cell)
    then show ?thesis using distinct_nine_cells by blast
  qed
  ultimately show ?thesis
    using assms(2,3) nine_cells_in_range [of c] by (simp add: AoiGrid_getNearby_def)
qed

lemma nearby_out:
  assumes "AoiGrid_inv a"
  shows "map_sum id set (AoiGrid_getNearby p a) = fst (whereabouts_step (Nearby p) (whereabouts a))"
proof (cases "uget (player_cells a) p")
  case None
  then show ?thesis by (simp add: AoiGrid_getNearby_def whereabouts_def)
next
  case (Some c)
  show ?thesis
  proof (cases "inner_cell c")
    case True
    with nearby_set [OF assms Some] Some show ?thesis
      by (auto simp: whereabouts_def)
  next
    case False
    with Some nine_cells_in_range [of c] show ?thesis
      by (simp add: AoiGrid_getNearby_def whereabouts_def)
  qed
qed

lemma whereabouts_place: "whereabouts (AoiGrid_place p c a) = (whereabouts a)(p \<mapsto> c)"
  by (rule ext) (auto simp: whereabouts_def AoiGrid_place_def split: option.splits)

lemma whereabouts_remove: "whereabouts (AoiGrid_remove p a) = (whereabouts a)(p := None)"
  by (rule ext) (auto simp: whereabouts_def AoiGrid_remove_def split: option.splits)

lemma AoiGrid_op_correct:
  assumes "AoiGrid_inv a"
  shows "AoiGrid_inv (snd (AoiGrid_op oper a)) \<and>
         whereabouts (snd (AoiGrid_op oper a)) = snd (whereabouts_step oper (whereabouts a)) \<and>
         fst (AoiGrid_op oper a) = fst (whereabouts_step oper (whereabouts a))"
proof (cases oper)
  case (Update p x y)
  with assms show ?thesis
    by (cases "AoiGrid_cellOf x y") (auto simp: AoiGrid_update_def whereabouts_place intro: place_inv)
next
  case (Remove p)
  with assms show ?thesis
    by (simp add: grid_remove_inv whereabouts_remove)
next
  case (Nearby p)
  with assms nearby_out [OF assms, of p] show ?thesis
    by simp
qed

interpretation aoi: simulation AoiGrid_op whereabouts_step AoiGrid_inv whereabouts
  by unfold_locales (simp_all add: AoiGrid_op_correct)

section \<open>Properties\<close>

text \<open>
  C15. The area-of-interest grid behaves as a single map from players to cells, for every sequence of
  updates, removals and queries: after any history, a query returns exactly the players whose cell
  is the player's own or one of its eight neighbours, an unknown player sees nobody, and an undefined
  conversion or addition is reached only where the specification says so.
\<close>
theorem aoi_refines_whereabouts:
  "fst (run_ops AoiGrid_op opers AoiGrid_new) = fst (run_ops whereabouts_step opers Map.empty)"
  using aoi.run_outputs [OF new_grid_inv, of opers] by (simp add: whereabouts_def AoiGrid_new_def)

text \<open>
  A query never names a player twice, so nobody receives the same broadcast twice for one centre;
  a known player away from the edge of the coordinate range always sees itself.
\<close>
theorem nearby_distinct_and_reflexive:
  assumes "snd (run_ops AoiGrid_op opers AoiGrid_new) = a"
    and "uget (player_cells a) p = Some c" and "inner_cell c"
  shows "\<exists>qs. AoiGrid_getNearby p a = Inr qs \<and> distinct qs \<and> p \<in> set qs"
proof -
  have "AoiGrid_inv a" using aoi.run_inv [OF new_grid_inv, of opers] assms(1) by simp
  from nearby_set [OF this assms(2,3)] assms(2) show ?thesis
    by (cases c) (auto simp: adjacent_def)
qed

lemma cell_coord_examples:
  "cell_coord (f_of_int 0) = Inr 0" "cell_coord (f_of_int 150) = Inr 0" "cell_coord (f_of_int 250) = Inr 1"
  "cell_coord (f_of_int (- 1)) = Inr (- 1)"
  by (simp_all add: cell_coord_def kCellSize_def f32_eval)

definition two_neighbours :: "aoi_op list" where
  "two_neighbours = [Update 1 (f_of_int 0) (f_of_int 0), Update 2 (f_of_int 250) (f_of_int 150),
                     Update 1 (f_of_int (- 1)) (f_of_int 0), Update 1 (f_of_int 150) (f_of_int 0)]"

theorem nearby_distinct_and_reflexive_witness:
  "\<exists>qs. AoiGrid_getNearby 1 (snd (run_ops AoiGrid_op two_neighbours AoiGrid_new)) = Inr qs \<and>
        distinct qs \<and> 1 \<in> set qs"
proof (rule nearby_distinct_and_reflexive [OF refl])
  show "uget (player_cells (snd (run_ops AoiGrid_op two_neighbours AoiGrid_new))) 1 = Some (0, 0)"
    by (simp add: two_neighbours_def AoiGrid_update_def AoiGrid_cellOf_def cell_coord_examples
        AoiGrid_place_def AoiGrid_new_def)
  show "inner_cell (0, 0)" by (simp add: inner_cell_def int32_range_def)
qed

end
