(* ===== verification/Tick_Engine.thy ===== *)
theory Tick_Engine
  imports Command Broadcaster Aoi_Grid
begin

text \<open>
  \<open>src/src/game/tick_engine.{h,cpp}\<close> and \<open>battle_player.h\<close>: one tick of the battle logic. References to
  players are keys into the table of the room's players, so an attacker that is its own target is
  the same object, as in the code. \<open>int32_t\<close> statistics are integers; the invariant bounds them, so
  the additions never leave the range. What is handed to the broadcaster's callback during a tick is
  collected in order.
\<close>

section \<open>Battle players\<close>

record battle_player =
  bp_id :: player_id
  bp_username :: string
  pos_x :: f32
  pos_y :: f32
  dir_x :: f32
  dir_y :: f32
  hp :: int
  max_hp :: int
  atk :: int
  defence :: int
  move_speed :: f32
  alive :: bool
  cooldowns :: "(int, int) umap"
  kills :: int
  deaths :: int
  damage_dealt :: int
  damage_taken :: int

text \<open>The default member initialisers.\<close>

definition BattlePlayer_default :: battle_player where
  "BattlePlayer_default =
     \<lparr>bp_id = 0, bp_username = [], pos_x = f_zero False, pos_y = f_zero False, dir_x = f_zero False,
      dir_y = f_lit 1 1, hp = 1000, max_hp = 1000, atk = 100, defence = 50, move_speed = f_lit 200 1,
      alive = True, cooldowns = [], kills = 0, deaths = 0, damage_dealt = 0, damage_taken = 0\<rparr>"

type_synonym battle_players = "(player_id, battle_player) umap"

text \<open>Assignment through a reference to a table entry.\<close>

definition modify :: "'k \<Rightarrow> ('v \<Rightarrow> 'v) \<Rightarrow> ('k, 'v) umap \<Rightarrow> ('k, 'v) umap" where
  "modify k f m = (case uget m k of None \<Rightarrow> m | Some v \<Rightarrow> uput k (f v) m)"

section \<open>Skills\<close>

text \<open>The display name of a skill is never read and is left out.\<close>

record skill_def =
  sk_id :: int
  sk_cooldown_ms :: int
  sk_damage_ratio :: f32
  sk_range :: f32
  sk_aoe :: bool
  sk_aoe_radius :: f32

definition kSkills :: "skill_def list" where
  "kSkills =
    [\<lparr>sk_id = 1, sk_cooldown_ms = 3000, sk_damage_ratio = f_lit 15 10, sk_range = f_lit 50 1, sk_aoe = False,
      sk_aoe_radius = f_lit 0 1\<rparr>,
     \<lparr>sk_id = 2, sk_cooldown_ms = 5000, sk_damage_ratio = f_lit 8 10, sk_range = f_lit 80 1, sk_aoe = True,
      sk_aoe_radius = f_lit 60 1\<rparr>,
     \<lparr>sk_id = 3, sk_cooldown_ms = 8000, sk_damage_ratio = f_lit 5 10, sk_range = f_lit 200 1, sk_aoe = False,
      sk_aoe_radius = f_lit 0 1\<rparr>]"

definition kNumSkills :: int where
  "kNumSkills = 3"

definition kTickIntervalMs :: int where
  "kTickIntervalMs = 50"

section \<open>Damage\<close>

definition TickEngine_calcDamage :: "int \<Rightarrow> int \<Rightarrow> int" where
  "TickEngine_calcDamage a d = max 1 (a - int_quot d 2)"

text \<open>
  The damage bookkeeping, the same lines in \<open>processAttack\<close> and in both branches of \<open>processSkill\<close>:
  the result says whether the target died.
\<close>

definition deal_damage :: "player_id \<Rightarrow> player_id \<Rightarrow> int \<Rightarrow> battle_players \<Rightarrow> bool \<times> battle_players" where
  "deal_damage a t dmg ps =
     (let ps1 = modify t (\<lambda>p. p\<lparr>hp := hp p - dmg, damage_taken := damage_taken p + dmg\<rparr>) ps;
          ps2 = modify a (\<lambda>p. p\<lparr>damage_dealt := damage_dealt p + dmg\<rparr>) ps1;
          died = (case uget ps2 t of None \<Rightarrow> False | Some p \<Rightarrow> hp p \<le> 0)
      in if died
         then (True, modify a (\<lambda>p. p\<lparr>kills := kills p + 1\<rparr>)
                       (modify t (\<lambda>p. p\<lparr>hp := 0, alive := False, deaths := deaths p + 1\<rparr>) ps2))
         else (False, ps2))"

text \<open>The death notification, when there is a broadcaster.\<close>

definition death_notify :: "codec \<Rightarrow> player_id \<Rightarrow> player_id \<Rightarrow> battle_players \<Rightarrow> broadcaster option \<Rightarrow> player_send list" where
  "death_notify cdc a t ps bc =
     (case (bc, uget ps t, uget ps a) of
        (Some b, Some tp, Some ap) \<Rightarrow>
          Broadcaster_broadcastToRoom 4005
            (SerializeToString cdc (PlayerDeathNotify (bp_id tp) (bp_id ap) (deaths tp))) b
      | _ \<Rightarrow> [])"

definition distance :: "battle_player \<Rightarrow> battle_player \<Rightarrow> f32" where
  "distance target attacker =
     (let dx = f_sub (pos_x target) (pos_x attacker); dy = f_sub (pos_y target) (pos_y attacker)
      in f_sqrt (f_add (f_mul dx dx) (f_mul dy dy)))"

section \<open>Commands\<close>

definition TickEngine_processMove :: "battle_player \<Rightarrow> f32 \<Rightarrow> f32 \<Rightarrow> f32 \<Rightarrow> battle_player" where
  "TickEngine_processMove p dx dy dt_sec =
     (let len = f_sqrt (f_add (f_mul dx dx) (f_mul dy dy))
      in if f_lt len (f_lit 1 10000) then p
         else
           let ndx = f_div dx len; ndy = f_div dy len; dist = f_mul (move_speed p) dt_sec
           in p\<lparr>pos_x := f_add (pos_x p) (f_mul ndx dist), pos_y := f_add (pos_y p) (f_mul ndy dist),
                dir_x := ndx, dir_y := ndy\<rparr>)"

definition TickEngine_processAttack ::
    "codec \<Rightarrow> player_id \<Rightarrow> player_id \<Rightarrow> broadcaster option \<Rightarrow> battle_players \<Rightarrow> player_send list \<times> battle_players" where
  "TickEngine_processAttack cdc a t bc ps =
     (case (uget ps a, uget ps t) of
        (Some attacker, Some target) \<Rightarrow>
          if \<not> alive attacker \<or> \<not> alive target then ([], ps)
          else if f_lt (f_lit 60 1) (distance target attacker) then ([], ps)
          else
            let (died, ps') = deal_damage a t (TickEngine_calcDamage (atk attacker) (defence target)) ps
            in (if died then death_notify cdc a t ps' bc else [], ps')
      | _ \<Rightarrow> ([], ps))"

text \<open>\<open>static_cast<int32_t>(calcDamage(...) * skill.damage_ratio)\<close>\<close>

definition skill_damage :: "skill_def \<Rightarrow> battle_player \<Rightarrow> battle_player \<Rightarrow> ub + int" where
  "skill_damage sk caster target =
     (case f_to_int32 (f_mul (f_of_int (TickEngine_calcDamage (atk caster) (defence target))) (sk_damage_ratio sk)) of
        None \<Rightarrow> Inl Float_cast_out_of_range | Some d \<Rightarrow> Inr d)"

definition TickEngine_processSkill ::
    "codec \<Rightarrow> player_id \<Rightarrow> player_id option \<Rightarrow> command \<Rightarrow> broadcaster option \<Rightarrow> battle_players \<Rightarrow>
     ub + player_send list \<times> battle_players" where
  "TickEngine_processSkill cdc a t cmd bc ps =
     (case uget ps a of
        None \<Rightarrow> Inr ([], ps)
      | Some caster \<Rightarrow>
          if \<not> alive caster then Inr ([], ps)
          else if skill_id cmd < 1 \<or> skill_id cmd > kNumSkills then Inr ([], ps)
          else
            let sk = kSkills ! nat (skill_id cmd - 1)
            in if (case uget (cooldowns caster) (skill_id cmd) of None \<Rightarrow> False | Some c \<Rightarrow> c > 0) then Inr ([], ps)
               else
                 let ps0 = modify a (\<lambda>p. p\<lparr>cooldowns := uput (skill_id cmd) (sk_cooldown_ms sk) (cooldowns p)\<rparr>) ps
                 in (case t of
                       None \<Rightarrow> Inr ([], ps0)
                     | Some t' \<Rightarrow>
                         (case uget ps0 t' of
                            None \<Rightarrow> Inr ([], ps0)
                          | Some target \<Rightarrow>
                              if \<not> alive target then Inr ([], ps0)
                              else if sk_aoe sk then
                                res_bind (skill_damage sk caster target)
                                  (\<lambda>dmg. Inr ([], snd (deal_damage a t' dmg ps0)))
                              else if f_le (distance target caster) (sk_range sk) then
                                res_bind (skill_damage sk caster target)
                                  (\<lambda>dmg. let (died, ps') = deal_damage a t' dmg ps0
                                         in Inr (if died then death_notify cdc a t' ps' bc else [], ps'))
                              else Inr ([], ps0))))"

definition TickEngine_updateCooldowns :: "battle_players \<Rightarrow> int \<Rightarrow> battle_players" where
  "TickEngine_updateCooldowns ps dt_ms =
     map (\<lambda>(pid, p). (pid, p\<lparr>cooldowns := filter (\<lambda>(k, c). c > 0) (map (\<lambda>(k, c). (k, c - dt_ms)) (cooldowns p))\<rparr>)) ps"

section \<open>The tick\<close>

record tick_engine =
  last_seq :: "(player_id, u64) umap"

definition TickEngine_isDuplicate :: "player_id \<Rightarrow> u64 \<Rightarrow> tick_engine \<Rightarrow> bool \<times> tick_engine" where
  "TickEngine_isDuplicate pid seq e =
     (case uget (last_seq e) pid of
        Some l \<Rightarrow> if seq \<le> l then (True, e) else (False, e\<lparr>last_seq := uput pid seq (last_seq e)\<rparr>)
      | None \<Rightarrow> (False, e\<lparr>last_seq := uput pid seq (last_seq e)\<rparr>))"

definition dt_sec :: f32 where
  "dt_sec = f_div (f_of_int kTickIntervalMs) (f_lit 1000 1)"

text \<open>The body of the command \<open>switch\<close>, for a live player and a new sequence number.\<close>

definition execute_command ::
    "codec \<Rightarrow> broadcaster option \<Rightarrow> command \<Rightarrow> battle_players \<Rightarrow> ub + player_send list \<times> battle_players" where
  "execute_command cdc bc cmd ps =
     (let a = cmd_player_id cmd in
      case cmd_type cmd of
        MOVE \<Rightarrow> Inr ([], modify a (\<lambda>p. TickEngine_processMove p (move_dir_x cmd) (move_dir_y cmd) dt_sec) ps)
      | STOP_MOVE \<Rightarrow> Inr ([], modify a (\<lambda>p. p\<lparr>dir_x := f_zero False, dir_y := f_zero False\<rparr>) ps)
      | ATTACK \<Rightarrow>
          (case uget ps (target_id cmd) of
             None \<Rightarrow> Inr ([], ps)
           | Some _ \<Rightarrow> Inr (TickEngine_processAttack cdc a (target_id cmd) bc ps))
      | SKILL \<Rightarrow>
          TickEngine_processSkill cdc a
            (case uget ps (target_id cmd) of None \<Rightarrow> None | Some _ \<Rightarrow> Some (target_id cmd)) cmd bc ps
      | LEAVE \<Rightarrow> Inr ([], modify a (\<lambda>p. p\<lparr>alive := False\<rparr>) ps))"

text \<open>One iteration of the command loop: unknown and dead players first, then duplicates.\<close>

definition process_command ::
    "codec \<Rightarrow> broadcaster option \<Rightarrow> command \<Rightarrow> tick_engine \<times> battle_players \<Rightarrow>
     ub + player_send list \<times> tick_engine \<times> battle_players" where
  "process_command cdc bc cmd s =
     (case uget (snd s) (cmd_player_id cmd) of
        None \<Rightarrow> Inr ([], s)
      | Some p \<Rightarrow>
          if \<not> alive p then Inr ([], s)
          else
            let (dup, e) = TickEngine_isDuplicate (cmd_player_id cmd) (cmd_sequence cmd) (fst s)
            in if dup then Inr ([], s)
               else res_bind (execute_command cdc bc cmd (snd s)) (\<lambda>(out, ps). Inr (out, e, ps)))"

fun process_commands ::
    "codec \<Rightarrow> broadcaster option \<Rightarrow> command list \<Rightarrow> tick_engine \<times> battle_players \<Rightarrow>
     ub + player_send list \<times> tick_engine \<times> battle_players" where
  "process_commands cdc bc [] s = Inr ([], s)"
| "process_commands cdc bc (c # cs) s =
     res_bind (process_command cdc bc c s)
       (\<lambda>(out, s'). res_bind (process_commands cdc bc cs s') (\<lambda>(outs, s''). Inr (out @ outs, s'')))"

definition state_of :: "battle_player \<Rightarrow> player_state" where
  "state_of p =
     \<lparr>ps_player_id = bp_id p, ps_position_x = pos_x p, ps_position_y = pos_y p, ps_direction_x = dir_x p,
      ps_direction_y = dir_y p, ps_hp = hp p, ps_max_hp = max_hp p, ps_alive = alive p\<rparr>"

text \<open>The loop that queues the state of every player and moves the player in the grid.\<close>

fun publish_states ::
    "codec \<Rightarrow> battle_players \<Rightarrow> broadcaster option \<times> aoi_grid option \<Rightarrow> ub + broadcaster option \<times> aoi_grid option" where
  "publish_states cdc [] s = Inr s"
| "publish_states cdc ((pid, p) # ps) s =
     (let bc = map_option (Broadcaster_queueOverride pid 4004
                  (SerializeToString cdc (BattleStateNotify 0 0 [state_of p]))) (fst s)
      in case snd s of
           None \<Rightarrow> publish_states cdc ps (bc, None)
         | Some a \<Rightarrow> res_bind (AoiGrid_update pid (pos_x p) (pos_y p) a) (\<lambda>a'. publish_states cdc ps (bc, Some a')))"

record tick_out =
  t_sends :: "player_send list"
  t_engine :: tick_engine
  t_players :: battle_players
  t_bc :: "broadcaster option"
  t_aoi :: "aoi_grid option"

definition TickEngine_processTick ::
    "codec \<Rightarrow> tick_engine \<Rightarrow> battle_players \<Rightarrow> command list \<Rightarrow> broadcaster option \<Rightarrow> aoi_grid option \<Rightarrow> ub + tick_out" where
  "TickEngine_processTick cdc e ps cmds bc aoi =
     res_bind (process_commands cdc bc cmds (e, ps))
       (\<lambda>(out, e', ps1).
          let ps2 = TickEngine_updateCooldowns ps1 kTickIntervalMs
          in res_bind (publish_states cdc ps2 (bc, aoi))
               (\<lambda>(bc', aoi'). Inr \<lparr>t_sends = out, t_engine = e', t_players = ps2, t_bc = bc', t_aoi = aoi'\<rparr>))"

section \<open>Tables of players\<close>

lemma uget_modify [simp, umap_simps]:
  "uget (modify k f m) k' = (if k' = k then map_option f (uget m k) else uget m k')"
  by (auto simp: modify_def split: option.splits)

lemma umap_ok_modify [simp, invar_intros]: "umap_ok m \<Longrightarrow> umap_ok (modify k f m)"
  by (simp add: modify_def split: option.splits)

lemma ukeys_modify [simp]: "ukeys (modify k f m) = ukeys m"
  by (auto simp: modify_def uput_keys split: option.splits)

definition tally :: "('v \<Rightarrow> int) \<Rightarrow> ('k, 'v) umap \<Rightarrow> int" where
  "tally f m = sum_list (map (\<lambda>(k, v). f v) m)"

lemma tally_uput:
  "uget m k = Some u \<Longrightarrow> tally f (uput k v m) = tally f m + f v - f u"
  by (induction m) (auto simp: tally_def split: if_splits)

lemma tally_modify:
  "tally f (modify k g m) = tally f m + (case uget m k of None \<Rightarrow> 0 | Some u \<Rightarrow> f (g u) - f u)"
  by (auto simp: modify_def tally_uput split: option.splits)

lemma tally_modify_same: "(\<And>v. f (g v) = f v) \<Longrightarrow> tally f (modify k g m) = tally f m"
  by (simp add: tally_modify split: option.splits)

lemma tally_ge:
  assumes "umap_ok m" and "\<And>k v. uget m k = Some v \<Longrightarrow> 0 \<le> f v" and "uget m k = Some v"
  shows "f v \<le> tally f m"
  using assms
proof (induction m)
  case Nil
  then show ?case by simp
next
  case (Cons q m)
  obtain j u where q: "q = (j, u)" by (cases q)
  have ok: "umap_ok m" "uget m j = None" using Cons.prems(1) by (simp_all add: q umap_ok_Cons)
  have pos: "0 \<le> f w" if "uget m i = Some w" for i w
    using Cons.prems(2) [of i w] that ok(2) by (cases "i = j") (auto simp: q)
  have nonneg: "0 \<le> tally f m"
  proof -
    have "0 \<le> f w" if "(i, w) \<in> set m" for i w using pos uget_mem [OF ok(1)] that by auto
    then show ?thesis unfolding tally_def by (intro sum_list_nonneg) auto
  qed
  show ?case
  proof (cases "k = j")
    case True
    with Cons.prems(3) nonneg show ?thesis by (simp add: q tally_def)
  next
    case False
    with Cons.prems(3) have "uget m k = Some v" by (simp add: q)
    then have "f v \<le> tally f m" using Cons.IH ok(1) pos by blast
    with Cons.prems(2) [of j u] show ?thesis by (simp add: q tally_def)
  qed
qed

lemma tally_le:
  assumes "umap_ok m" and "\<And>k v. uget m k = Some v \<Longrightarrow> f v \<le> b"
  shows "tally f m \<le> b * int (length m)"
  using assms
proof (induction m)
  case Nil
  then show ?case by (simp add: tally_def)
next
  case (Cons q m)
  obtain j u where q: "q = (j, u)" by (cases q)
  have ok: "umap_ok m" "uget m j = None" using Cons.prems(1) by (simp_all add: q umap_ok_Cons)
  have "f w \<le> b" if "uget m i = Some w" for i w
    using Cons.prems(2) [of i w] that ok(2) by (cases "i = j") (auto simp: q)
  then have "tally f m \<le> b * int (length m)" using Cons.IH ok(1) by blast
  with Cons.prems(2) [of j u] show ?case
    by (simp add: q tally_def algebra_simps)
qed

section \<open>The battle invariant\<close>

text \<open>
  What holds of every player in a battle: fixed combat values, hit points that are what the damage
  taken has left of a thousand (or zero), at most one death, and cooldowns that are still running.
\<close>

definition bp_ok :: "player_id \<Rightarrow> battle_player \<Rightarrow> bool" where
  "bp_ok k p \<longleftrightarrow>
     bp_id p = k \<and> atk p = 100 \<and> defence p = 50 \<and> max_hp p = 1000 \<and>
     0 \<le> hp p \<and> (hp p = 0 \<or> hp p = 1000 - damage_taken p) \<and> (alive p \<longrightarrow> 0 < hp p) \<and>
     0 \<le> damage_taken p \<and> damage_taken p \<le> 1111 \<and>
     (deaths p = 0 \<or> deaths p = 1 \<and> hp p = 0 \<and> \<not> alive p) \<and> 0 \<le> kills p \<and> 0 \<le> damage_dealt p \<and>
     umap_ok (cooldowns p)"

text \<open>Books balance: every point of damage and every death is credited to exactly one player.\<close>

definition battle_inv :: "battle_players \<Rightarrow> bool" where
  "battle_inv ps \<longleftrightarrow>
     umap_ok ps \<and> (\<forall>k p. uget ps k = Some p \<longrightarrow> bp_ok k p) \<and>
     tally damage_dealt ps = tally damage_taken ps \<and> tally kills ps = tally deaths ps"

lemma battle_inv_player: "battle_inv ps \<Longrightarrow> uget ps k = Some p \<Longrightarrow> bp_ok k p"
  by (simp add: battle_inv_def)

text \<open>An update that does not touch the statistics keeps the invariant if it keeps the player well-formed.\<close>

lemma modify_inv:
  assumes "battle_inv ps" and "\<And>p. bp_ok k p \<Longrightarrow> bp_ok k (f p)"
    and "\<And>p. damage_dealt (f p) = damage_dealt p" "\<And>p. damage_taken (f p) = damage_taken p"
    and "\<And>p. kills (f p) = kills p" "\<And>p. deaths (f p) = deaths p"
  shows "battle_inv (modify k f ps)"
  using assms by (auto simp: battle_inv_def tally_modify_same)

text \<open>The two effects of a hit, on the target and on the attacker.\<close>

definition hurt :: "int \<Rightarrow> battle_player \<Rightarrow> battle_player" where
  "hurt dmg p =
     p\<lparr>hp := max 0 (hp p - dmg), damage_taken := damage_taken p + dmg, alive := alive p \<and> dmg < hp p,
       deaths := deaths p + of_bool (hp p \<le> dmg)\<rparr>"

definition credit :: "int \<Rightarrow> bool \<Rightarrow> battle_player \<Rightarrow> battle_player" where
  "credit dmg died p = p\<lparr>damage_dealt := damage_dealt p + dmg, kills := kills p + of_bool died\<rparr>"

lemma deal_damage_get:
  assumes "uget ps t = Some pt"
  shows "fst (deal_damage a t dmg ps) \<longleftrightarrow> hp pt \<le> dmg"
    and "uget (snd (deal_damage a t dmg ps)) k = uget (modify a (credit dmg (hp pt \<le> dmg)) (modify t (hurt dmg) ps)) k"
  using assms by (cases "uget ps a"; auto simp: deal_damage_def Let_def hurt_def credit_def)+

lemma deal_damage_ok [simp]:
  "umap_ok ps \<Longrightarrow> umap_ok (snd (deal_damage a t dmg ps))"
  "ukeys (snd (deal_damage a t dmg ps)) = ukeys ps"
  by (simp_all add: deal_damage_def Let_def)

lemma deal_damage_tally:
  fixes dmg :: int
  assumes "uget ps a = Some pa" and "uget ps t = Some pt"
  defines "ps' \<equiv> snd (deal_damage a t dmg ps)"
  shows "tally damage_dealt ps' = tally damage_dealt ps + dmg"
    and "tally damage_taken ps' = tally damage_taken ps + dmg"
    and "tally kills ps' = tally kills ps + of_bool (hp pt \<le> dmg)"
    and "tally deaths ps' = tally deaths ps + of_bool (hp pt \<le> dmg)"
  using assms(1,2) unfolding ps'_def by (auto simp: deal_damage_def Let_def tally_modify)

lemma hurt_ok: "bp_ok k p \<Longrightarrow> alive p \<Longrightarrow> 0 \<le> dmg \<Longrightarrow> dmg \<le> 112 \<Longrightarrow> bp_ok k (hurt dmg p)"
  by (auto simp: bp_ok_def hurt_def)

lemma credit_ok: "bp_ok k p \<Longrightarrow> 0 \<le> dmg \<Longrightarrow> bp_ok k (credit dmg died p)"
  by (auto simp: bp_ok_def credit_def)

lemma deal_damage_inv:
  assumes "battle_inv ps" and "uget ps a = Some pa" and "uget ps t = Some pt" and "alive pt"
    and "0 \<le> dmg" and "dmg \<le> 112"
  shows "battle_inv (snd (deal_damage a t dmg ps))"
proof -
  have others: "uget ps k = Some p \<Longrightarrow> bp_ok k p" for k p
    using assms(1) by (simp add: battle_inv_def)
  then have "bp_ok k p" if "uget (snd (deal_damage a t dmg ps)) k = Some p" for k p
    using that assms(2-6) unfolding deal_damage_get(2) [OF assms(3)]
    by (auto intro!: credit_ok hurt_ok split: if_splits)
  with assms(1) show ?thesis
    by (simp add: battle_inv_def deal_damage_tally [OF assms(2,3)])
qed

section \<open>Each command keeps it\<close>

lemma calcDamage_pos: "1 \<le> TickEngine_calcDamage x y"
  by (simp add: TickEngine_calcDamage_def)

lemma calcDamage_ok: "bp_ok k p \<Longrightarrow> bp_ok j q \<Longrightarrow> TickEngine_calcDamage (atk p) (defence q) = 75"
  by (simp add: bp_ok_def TickEngine_calcDamage_def int_quot_def)

lemma skill_damages:
  "f_to_int32 (f_mul (f_of_int 75) (f_lit 15 10)) = Some 112"
  "f_to_int32 (f_mul (f_of_int 75) (f_lit 8 10)) = Some 60"
  "f_to_int32 (f_mul (f_of_int 75) (f_lit 5 10)) = Some 37"
  by (simp_all add: f32_eval)

lemma skill_damage_ok:
  assumes "bp_ok k p" and "bp_ok j q" and "1 \<le> i" and "i \<le> kNumSkills"
  shows "skill_damage (kSkills ! nat (i - 1)) p q = Inr (if i = 1 then 112 else if i = 2 then 60 else 37)"
proof -
  have "i = 1 \<or> i = 2 \<or> i = 3" using assms(3,4) by (auto simp: kNumSkills_def)
  then show ?thesis
    using calcDamage_ok [OF assms(1,2)] by (auto simp: skill_damage_def kSkills_def skill_damages)
qed

lemma processAttack_inv:
  assumes "battle_inv ps"
  shows "battle_inv (snd (TickEngine_processAttack cdc a t bc ps)) \<and>
         ukeys (snd (TickEngine_processAttack cdc a t bc ps)) = ukeys ps"
proof (cases "uget ps a")
  case None
  with assms show ?thesis by (simp add: TickEngine_processAttack_def)
next
  case (Some pa)
  show ?thesis
  proof (cases "uget ps t")
    case None
    with assms Some show ?thesis by (simp add: TickEngine_processAttack_def)
  next
    case t: (Some pt)
    have "TickEngine_calcDamage (atk pa) (defence pt) = 75"
      using calcDamage_ok battle_inv_player [OF assms] Some t by blast
    with assms Some t deal_damage_inv [OF assms Some t, of 75] show ?thesis
      by (simp add: TickEngine_processAttack_def case_prod_beta)
  qed
qed

lemma cooldown_inv:
  "battle_inv ps \<Longrightarrow> battle_inv (modify a (\<lambda>p. p\<lparr>cooldowns := uput i c (cooldowns p)\<rparr>) ps)"
  by (rule modify_inv) (auto simp: bp_ok_def)

lemma processSkill_inv:
  assumes "battle_inv ps"
  shows "\<exists>out ps'. TickEngine_processSkill cdc a t cmd bc ps = Inr (out, ps') \<and> battle_inv ps' \<and> ukeys ps' = ukeys ps"
proof (cases "uget ps a")
  case None
  with assms show ?thesis by (simp add: TickEngine_processSkill_def)
next
  case (Some caster)
  define sk where "sk = kSkills ! nat (skill_id cmd - 1)"
  define ps0 where "ps0 = modify a (\<lambda>p. p\<lparr>cooldowns := uput (skill_id cmd) (sk_cooldown_ms sk) (cooldowns p)\<rparr>) ps"
  have inv0: "battle_inv ps0" and keys0: "ukeys ps0 = ukeys ps"
    using cooldown_inv [OF assms] by (simp_all add: ps0_def)
  obtain pa where a0: "uget ps0 a = Some pa" using Some by (simp add: ps0_def)
  have hit: "\<exists>d. skill_damage sk caster target = Inr d \<and> battle_inv (snd (deal_damage a t' d ps0))"
    if "uget ps0 t' = Some target" and "alive target" and "1 \<le> skill_id cmd" and "skill_id cmd \<le> kNumSkills" for t' target
  proof -
    have "bp_ok a caster" "bp_ok t' target"
      using battle_inv_player assms inv0 Some that(1) by auto
    from skill_damage_ok [OF this that(3,4)] deal_damage_inv [OF inv0 a0 that(1,2)] show ?thesis
      by (simp add: sk_def)
  qed
  show ?thesis
  proof (cases "t = None \<or> \<not> alive caster \<or> skill_id cmd < 1 \<or> skill_id cmd > kNumSkills \<or>
                (\<exists>t'. t = Some t' \<and> (case uget ps0 t' of None \<Rightarrow> True | Some target \<Rightarrow> \<not> alive target))")
    case True
    then show ?thesis
      using assms Some inv0 keys0
      by (auto simp: TickEngine_processSkill_def Let_def sk_def [symmetric] ps0_def [symmetric] split: option.splits)
  next
    case False
    then obtain t' target where t: "t = Some t'" "uget ps0 t' = Some target" "alive target"
      and sk: "1 \<le> skill_id cmd" "skill_id cmd \<le> kNumSkills" by (auto split: option.splits)
    from hit [OF t(2,3) sk] assms Some inv0 keys0 t sk False show ?thesis
      by (auto simp: TickEngine_processSkill_def Let_def sk_def [symmetric] ps0_def [symmetric] case_prod_beta
          split: option.splits)
  qed
qed

lemma processMove_stats:
  "damage_dealt (TickEngine_processMove p x y d) = damage_dealt p"
  "damage_taken (TickEngine_processMove p x y d) = damage_taken p"
  "kills (TickEngine_processMove p x y d) = kills p"
  "deaths (TickEngine_processMove p x y d) = deaths p"
  "alive (TickEngine_processMove p x y d) = alive p"
  "hp (TickEngine_processMove p x y d) = hp p"
  "bp_ok k (TickEngine_processMove p x y d) = bp_ok k p"
  by (auto simp: TickEngine_processMove_def Let_def bp_ok_def)

lemma execute_command_inv:
  assumes "battle_inv ps"
  shows "\<exists>out ps'. execute_command cdc bc cmd ps = Inr (out, ps') \<and> battle_inv ps' \<and> ukeys ps' = ukeys ps"
proof (cases "cmd_type cmd")
  case MOVE
  have "battle_inv (modify (cmd_player_id cmd) (\<lambda>p. TickEngine_processMove p (move_dir_x cmd) (move_dir_y cmd) dt_sec) ps)"
    by (rule modify_inv [OF assms]) (simp_all add: processMove_stats)
  with MOVE show ?thesis by (simp add: execute_command_def)
next
  case STOP_MOVE
  have "battle_inv (modify (cmd_player_id cmd) (\<lambda>p. p\<lparr>dir_x := f_zero False, dir_y := f_zero False\<rparr>) ps)"
    by (rule modify_inv [OF assms]) (simp_all add: bp_ok_def)
  with STOP_MOVE show ?thesis by (simp add: execute_command_def)
next
  case ATTACK
  with processAttack_inv [OF assms, of cdc "cmd_player_id cmd" "target_id cmd" bc] assms show ?thesis
    by (cases "uget ps (target_id cmd)"; cases "TickEngine_processAttack cdc (cmd_player_id cmd) (target_id cmd) bc ps")
      (simp_all add: execute_command_def)
next
  case SKILL
  with processSkill_inv [OF assms] show ?thesis by (simp add: execute_command_def)
next
  case LEAVE
  have "battle_inv (modify (cmd_player_id cmd) (\<lambda>p. p\<lparr>alive := False\<rparr>) ps)"
    by (rule modify_inv [OF assms]) (auto simp: bp_ok_def)
  with LEAVE show ?thesis by (simp add: execute_command_def)
qed

lemma process_command_inv:
  assumes "battle_inv (snd s)"
  shows "\<exists>out s'. process_command cdc bc cmd s = Inr (out, s') \<and> battle_inv (snd s') \<and> ukeys (snd s') = ukeys (snd s)"
proof -
  obtain out ps where "execute_command cdc bc cmd (snd s) = Inr (out, ps)" "battle_inv ps" "ukeys ps = ukeys (snd s)"
    using execute_command_inv [OF assms] by blast
  then show ?thesis
    using assms by (cases s; cases "TickEngine_isDuplicate (cmd_player_id cmd) (cmd_sequence cmd) (fst s)")
      (auto simp: process_command_def split: option.splits)
qed

lemma process_commands_inv:
  assumes "battle_inv (snd s)"
  shows "\<exists>out s'. process_commands cdc bc cmds s = Inr (out, s') \<and> battle_inv (snd s') \<and> ukeys (snd s') = ukeys (snd s)"
  using assms
proof (induction cmds arbitrary: s)
  case Nil
  then show ?case by simp
next
  case (Cons c cs)
  obtain out s' where s': "process_command cdc bc c s = Inr (out, s')" "battle_inv (snd s')" "ukeys (snd s') = ukeys (snd s)"
    using process_command_inv [OF Cons.prems] by blast
  obtain outs s'' where "process_commands cdc bc cs s' = Inr (outs, s'')" "battle_inv (snd s'')" "ukeys (snd s'') = ukeys (snd s')"
    using Cons.IH [OF s'(2)] by blast
  with s' show ?case by simp
qed

lemma updateCooldowns_get:
  "uget (TickEngine_updateCooldowns ps dt) k =
     map_option (\<lambda>p. p\<lparr>cooldowns := filter (\<lambda>(k, c). c > 0) (map (\<lambda>(k, c). (k, c - dt)) (cooldowns p))\<rparr>) (uget ps k)"
  unfolding TickEngine_updateCooldowns_def by (induction ps) auto

lemma updateCooldowns_keys [simp]: "ukeys (TickEngine_updateCooldowns ps dt) = ukeys ps"
  unfolding TickEngine_updateCooldowns_def by (induction ps) auto

lemma updateCooldowns_tally:
  assumes "\<And>p c. f (p\<lparr>cooldowns := c\<rparr>) = f p"
  shows "tally f (TickEngine_updateCooldowns ps dt) = tally f ps"
  unfolding TickEngine_updateCooldowns_def tally_def by (induction ps) (auto simp: assms)

lemma updateCooldowns_inv:
  assumes "battle_inv ps"
  shows "battle_inv (TickEngine_updateCooldowns ps dt)"
proof -
  have "umap_ok (TickEngine_updateCooldowns ps dt)"
    using assms by (simp add: battle_inv_def umap_ok_def)
  moreover have "bp_ok k p" if get: "uget (TickEngine_updateCooldowns ps dt) k = Some p" for k p
  proof -
    obtain q where "uget ps k = Some q"
      and "p = q\<lparr>cooldowns := filter (\<lambda>(k, c). c > 0) (map (\<lambda>(k, c). (k, c - dt)) (cooldowns q))\<rparr>"
      using get by (auto simp: updateCooldowns_get)
    with battle_inv_player [OF assms] show ?thesis by (auto simp: bp_ok_def)
  qed
  ultimately show ?thesis
    using assms by (simp add: battle_inv_def updateCooldowns_tally)
qed

text \<open>Publishing fails only in the grid, and does not touch the players.\<close>

lemma publish_no_aoi: "\<exists>bc'. publish_states cdc ps (bc, None) = Inr (bc', None)"
  by (induction ps arbitrary: bc) auto

lemma processTick_inv:
  assumes "battle_inv ps" and "TickEngine_processTick cdc e ps cmds bc aoi = Inr r"
  shows "battle_inv (t_players r) \<and> ukeys (t_players r) = ukeys ps"
proof -
  obtain out s' where c: "process_commands cdc bc cmds (e, ps) = Inr (out, s')" "battle_inv (snd s')" "ukeys (snd s') = ukeys ps"
    using process_commands_inv [of "(e, ps)" cdc bc cmds] assms(1) by auto
  then show ?thesis
    using assms(2) by (cases s') (auto simp: TickEngine_processTick_def res_bind_Inr_iff Let_def updateCooldowns_inv)
qed

lemma processTick_no_aoi:
  assumes "battle_inv ps"
  shows "\<exists>r. TickEngine_processTick cdc e ps cmds bc None = Inr r"
proof -
  obtain out s' where c: "process_commands cdc bc cmds (e, ps) = Inr (out, s')"
    using process_commands_inv [of "(e, ps)" cdc bc cmds] assms by auto
  obtain bc' where "publish_states cdc (TickEngine_updateCooldowns (snd s') kTickIntervalMs) (bc, None) = Inr (bc', None)"
    using publish_no_aoi by blast
  with c show ?thesis
    by (cases s') (simp add: TickEngine_processTick_def Let_def)
qed

section \<open>Sequence numbers\<close>

lemma isDuplicate_mono:
  assumes "uget (last_seq e) p = Some l"
  shows "\<exists>l'. uget (last_seq (snd (TickEngine_isDuplicate q n e))) p = Some l' \<and> l \<le> l'"
  using assms by (cases "uget (last_seq e) q") (auto simp: TickEngine_isDuplicate_def)

lemma process_command_engine:
  assumes "process_command cdc bc cmd s = Inr (out, s')"
  shows "fst s' = fst s \<or> fst s' = snd (TickEngine_isDuplicate (cmd_player_id cmd) (cmd_sequence cmd) (fst s))"
  using assms
  by (auto simp: process_command_def res_bind_Inr_iff case_prod_beta Let_def split: option.splits if_splits)

lemma process_commands_mono:
  assumes "process_commands cdc bc cmds s = Inr (out, s')" and "uget (last_seq (fst s)) p = Some l"
  shows "\<exists>l'. uget (last_seq (fst s')) p = Some l' \<and> l \<le> l'"
  using assms
proof (induction cmds arbitrary: s out l)
  case Nil
  then show ?case by auto
next
  case (Cons c cs)
  then obtain o1 s1 o2 where c: "process_command cdc bc c s = Inr (o1, s1)"
    and cs: "process_commands cdc bc cs s1 = Inr (o2, s')"
    by (auto simp: res_bind_Inr_iff case_prod_beta)
  obtain l1 where "uget (last_seq (fst s1)) p = Some l1" "l \<le> l1"
    using process_command_engine [OF c] isDuplicate_mono [OF Cons.prems(2)] Cons.prems(2) by force
  with Cons.IH [OF cs] show ?case by (meson order_trans)
qed

text \<open>Once a player's command has been looked at, its sequence number is on record.\<close>

lemma process_command_records:
  assumes "process_command cdc bc c s = Inr (out, s')"
    and "uget (snd s) (cmd_player_id c) = Some p" and "alive p"
  shows "\<exists>l. uget (last_seq (fst s')) (cmd_player_id c) = Some l \<and> cmd_sequence c \<le> l"
  using assms
  by (auto simp: process_command_def TickEngine_isDuplicate_def res_bind_Inr_iff case_prod_beta Let_def
      split: option.splits if_splits)

lemma process_command_duplicate:
  assumes "uget (last_seq (fst s)) (cmd_player_id c) = Some l" and "cmd_sequence c \<le> l"
  shows "process_command cdc bc c s = Inr ([], s)"
  using assms by (simp add: process_command_def TickEngine_isDuplicate_def split: option.splits)

section \<open>The dead\<close>

text \<open>What a command may not do: change a player who is not alive, or bring one back.\<close>

definition dead_kept :: "battle_players \<Rightarrow> battle_players \<Rightarrow> bool" where
  "dead_kept ps ps' \<longleftrightarrow> (\<forall>k p. uget ps k = Some p \<and> \<not> alive p \<longrightarrow> uget ps' k = Some p)"

lemma dead_kept_refl [simp]: "dead_kept ps ps"
  by (simp add: dead_kept_def)

lemma dead_kept_trans: "dead_kept ps qs \<Longrightarrow> dead_kept qs rs \<Longrightarrow> dead_kept ps rs"
  by (simp add: dead_kept_def)

lemma modify_dead_kept:
  "uget ps k = Some p \<Longrightarrow> alive p \<Longrightarrow> dead_kept ps (modify k f ps)"
  by (auto simp: dead_kept_def)

lemma deal_damage_dead_kept:
  assumes "uget ps a = Some pa" "alive pa" and "uget ps t = Some pt" "alive pt"
  shows "dead_kept ps (snd (deal_damage a t dmg ps))"
  unfolding dead_kept_def deal_damage_get(2) [OF assms(3)] using assms by auto

lemma processAttack_dead_kept: "dead_kept ps (snd (TickEngine_processAttack cdc a t bc ps))"
  by (auto simp: TickEngine_processAttack_def case_prod_beta deal_damage_dead_kept split: option.splits)

lemma processSkill_dead_kept:
  assumes "TickEngine_processSkill cdc a t cmd bc ps = Inr (out, ps')"
  shows "dead_kept ps ps'"
proof (cases "\<exists>caster. uget ps a = Some caster \<and> alive caster")
  case False
  with assms have "ps' = ps" by (auto simp: TickEngine_processSkill_def split: option.splits)
  then show ?thesis by simp
next
  case True
  then obtain caster where a: "uget ps a = Some caster" "alive caster" by blast
  define sk where "sk = kSkills ! nat (skill_id cmd - 1)"
  define ps0 where "ps0 = modify a (\<lambda>p. p\<lparr>cooldowns := uput (skill_id cmd) (sk_cooldown_ms sk) (cooldowns p)\<rparr>) ps"
  have 0: "dead_kept ps ps0" unfolding ps0_def by (rule modify_dead_kept) (use a in auto)
  obtain pa where a0: "uget ps0 a = Some pa" "alive pa" using a by (simp add: ps0_def)
  have "ps' = ps \<or> ps' = ps0 \<or> (\<exists>t' pt d. uget ps0 t' = Some pt \<and> alive pt \<and> ps' = snd (deal_damage a t' d ps0))"
    using assms a
    by (auto simp: TickEngine_processSkill_def Let_def sk_def [symmetric] ps0_def [symmetric] res_bind_Inr_iff
        case_prod_beta split: option.splits if_splits)
  then show ?thesis
    using 0 deal_damage_dead_kept [OF a0] dead_kept_trans dead_kept_refl by blast
qed

lemma execute_command_dead_kept:
  assumes "execute_command cdc bc cmd ps = Inr (out, ps')"
    and "uget ps (cmd_player_id cmd) = Some p" and "alive p"
  shows "dead_kept ps ps'"
proof (cases "cmd_type cmd")
  case SKILL
  with assms(1) processSkill_dead_kept show ?thesis by (auto simp: execute_command_def)
next
  case ATTACK
  with assms(1) processAttack_dead_kept [of ps cdc "cmd_player_id cmd" "target_id cmd" bc] show ?thesis
    by (auto simp: execute_command_def split: option.splits)
qed (use assms modify_dead_kept [OF assms(2,3)] in \<open>auto simp: execute_command_def\<close>)

lemma process_commands_dead_kept:
  "process_commands cdc bc cmds s = Inr (out, s') \<Longrightarrow> dead_kept (snd s) (snd s')"
proof (induction cmds arbitrary: s out)
  case Nil
  then show ?case by simp
next
  case (Cons c cs)
  then obtain o1 s1 o2 where c: "process_command cdc bc c s = Inr (o1, s1)"
    and cs: "process_commands cdc bc cs s1 = Inr (o2, s')"
    by (auto simp: res_bind_Inr_iff case_prod_beta)
  have "dead_kept (snd s) (snd s1)"
    using c execute_command_dead_kept
    by (auto simp: process_command_def res_bind_Inr_iff case_prod_beta Let_def split: option.splits if_splits)
  with Cons.IH [OF cs] show ?case by (rule dead_kept_trans [rotated])
qed

section \<open>Cooldowns\<close>

definition cooldown :: "battle_players \<Rightarrow> player_id \<Rightarrow> int \<Rightarrow> int option" where
  "cooldown ps k i = (case uget ps k of None \<Rightarrow> None | Some p \<Rightarrow> uget (cooldowns p) i)"

text \<open>What a command may not do: change a cooldown that is still running.\<close>

definition running_kept :: "battle_players \<Rightarrow> battle_players \<Rightarrow> bool" where
  "running_kept ps ps' \<longleftrightarrow> (\<forall>k i c. cooldown ps k i = Some c \<and> c > 0 \<longrightarrow> cooldown ps' k i = Some c)"

lemma running_kept_refl [simp]: "running_kept ps ps"
  by (simp add: running_kept_def)

lemma running_kept_trans: "running_kept ps qs \<Longrightarrow> running_kept qs rs \<Longrightarrow> running_kept ps rs"
  by (simp add: running_kept_def)

lemma cooldown_modify: "(\<And>p. cooldowns (f p) = cooldowns p) \<Longrightarrow> cooldown (modify k f ps) j i = cooldown ps j i"
  by (simp add: cooldown_def split: option.splits)

lemma cooldown_deal_damage: "cooldown (snd (deal_damage a t dmg ps)) k i = cooldown ps k i"
  by (simp add: deal_damage_def Let_def cooldown_modify)

lemma processAttack_cooldown: "cooldown (snd (TickEngine_processAttack cdc a t bc ps)) k i = cooldown ps k i"
  by (simp add: TickEngine_processAttack_def case_prod_beta cooldown_deal_damage split: option.splits)

lemma processSkill_running_kept:
  assumes "TickEngine_processSkill cdc a t cmd bc ps = Inr (out, ps')"
  shows "running_kept ps ps'"
proof (cases "uget ps a")
  case None
  with assms show ?thesis by (simp add: TickEngine_processSkill_def)
next
  case (Some caster)
  define sk where "sk = kSkills ! nat (skill_id cmd - 1)"
  define ps0 where "ps0 = modify a (\<lambda>p. p\<lparr>cooldowns := uput (skill_id cmd) (sk_cooldown_ms sk) (cooldowns p)\<rparr>) ps"
  have "ps' = ps \<or> (\<forall>k i. cooldown ps' k i = cooldown ps0 k i) \<and>
                   \<not> (case uget (cooldowns caster) (skill_id cmd) of None \<Rightarrow> False | Some c \<Rightarrow> c > 0)"
    using assms Some
    by (auto simp: TickEngine_processSkill_def Let_def sk_def [symmetric] ps0_def [symmetric] res_bind_Inr_iff
        case_prod_beta cooldown_deal_damage split: option.splits if_splits)
  moreover have "running_kept ps ps0"
    if "\<not> (case uget (cooldowns caster) (skill_id cmd) of None \<Rightarrow> False | Some c \<Rightarrow> c > 0)"
    using that Some by (auto simp: running_kept_def ps0_def cooldown_def split: option.splits)
  ultimately show ?thesis
    by (auto simp: running_kept_def)
qed

lemma execute_command_running_kept:
  assumes "execute_command cdc bc cmd ps = Inr (out, ps')"
  shows "running_kept ps ps'"
proof (cases "cmd_type cmd")
  case SKILL
  with assms processSkill_running_kept show ?thesis by (auto simp: execute_command_def)
next
  case ATTACK
  with assms processAttack_cooldown [of cdc "cmd_player_id cmd" "target_id cmd" bc ps] show ?thesis
    by (auto simp: execute_command_def running_kept_def split: option.splits)
next
  case MOVE
  with assms show ?thesis
    by (auto simp: execute_command_def running_kept_def cooldown_modify TickEngine_processMove_def Let_def)
qed (use assms in \<open>auto simp: execute_command_def running_kept_def cooldown_modify\<close>)

lemma process_commands_running_kept:
  "process_commands cdc bc cmds s = Inr (out, s') \<Longrightarrow> running_kept (snd s) (snd s')"
proof (induction cmds arbitrary: s out)
  case Nil
  then show ?case by simp
next
  case (Cons c cs)
  then obtain o1 s1 o2 where c: "process_command cdc bc c s = Inr (o1, s1)"
    and cs: "process_commands cdc bc cs s1 = Inr (o2, s')"
    by (auto simp: res_bind_Inr_iff case_prod_beta)
  have "running_kept (snd s) (snd s1)"
    using c execute_command_running_kept
    by (auto simp: process_command_def res_bind_Inr_iff case_prod_beta Let_def split: option.splits if_splits)
  with Cons.IH [OF cs] show ?case by (rule running_kept_trans [rotated])
qed

lemma uget_count_down:
  assumes "umap_ok m" and "uget m i = Some c"
  shows "uget (filter (\<lambda>(k, c). c > 0) (map (\<lambda>(k, c). (k, c - dt)) m)) i = (if c - dt > (0 :: int) then Some (c - dt) else None)"
  using assms by (subst uget_filter) (auto simp: uget_map_values)

lemma processTick_cooldown:
  assumes "battle_inv ps" and "TickEngine_processTick cdc e ps cmds bc aoi = Inr r"
    and "cooldown ps k i = Some c" and "c > 0"
  shows "cooldown (t_players r) k i = (if c > 50 then Some (c - 50) else None)"
proof -
  obtain out s' where s': "process_commands cdc bc cmds (e, ps) = Inr (out, s')" "battle_inv (snd s')"
    using process_commands_inv [of "(e, ps)" cdc bc cmds] assms(1) by auto
  have r: "t_players r = TickEngine_updateCooldowns (snd s') 50"
    using assms(2) s'(1) by (cases s') (auto simp: TickEngine_processTick_def res_bind_Inr_iff Let_def kTickIntervalMs_def)
  have "cooldown (snd s') k i = Some c"
    using process_commands_running_kept [OF s'(1)] assms(3,4) by (simp add: running_kept_def)
  then obtain p where p: "uget (snd s') k = Some p" "uget (cooldowns p) i = Some c"
    by (auto simp: cooldown_def split: option.splits)
  have "umap_ok (cooldowns p)" using battle_inv_player [OF s'(2) p(1)] by (simp add: bp_ok_def)
  from uget_count_down [OF this p(2), of 50] p(1) show ?thesis
    by (simp add: r cooldown_def updateCooldowns_get)
qed

section \<open>Sequences of ticks\<close>

text \<open>A battle: the commands of each tick, one tick after the other.\<close>

type_synonym battle_state = "tick_engine \<times> battle_players \<times> broadcaster option \<times> aoi_grid option"

fun run_ticks :: "codec \<Rightarrow> command list list \<Rightarrow> battle_state \<Rightarrow> ub + battle_state" where
  "run_ticks cdc [] s = Inr s"
| "run_ticks cdc (cmds # ticks) (e, ps, bc, aoi) =
     res_bind (TickEngine_processTick cdc e ps cmds bc aoi)
       (\<lambda>r. run_ticks cdc ticks (t_engine r, t_players r, t_bc r, t_aoi r))"

definition players_of :: "battle_state \<Rightarrow> battle_players" where
  "players_of s = fst (snd s)"

text \<open>Players as they enter a battle.\<close>

definition fresh_bp :: "player_id \<Rightarrow> battle_player \<Rightarrow> bool" where
  "fresh_bp k p \<longleftrightarrow>
     bp_id p = k \<and>
     p\<lparr>bp_id := 0, bp_username := [], pos_x := f_zero False, pos_y := f_zero False\<rparr> = BattlePlayer_default"

definition fresh_battle :: "battle_players \<Rightarrow> bool" where
  "fresh_battle ps \<longleftrightarrow> distinct (ukeys ps) \<and> list_all (\<lambda>(k, p). fresh_bp k p) ps"

lemma fresh_bp_stats:
  assumes "fresh_bp k p"
  shows "bp_ok k p" "damage_dealt p = 0" "damage_taken p = 0" "kills p = 0" "deaths p = 0"
  using assms by (cases p; simp add: fresh_bp_def BattlePlayer_default_def bp_ok_def)+

lemma fresh_battle_inv:
  assumes "fresh_battle ps"
  shows "battle_inv ps"
proof -
  have ok: "umap_ok ps" using assms by (simp add: fresh_battle_def umap_ok_def)
  have fresh: "fresh_bp k p" if "(k, p) \<in> set ps" for k p
    using assms that by (auto simp: fresh_battle_def list_all_iff)
  have "tally f ps = 0" if zero: "\<And>k p. fresh_bp k p \<Longrightarrow> f p = 0" for f
  proof -
    have "f p = 0" if "(k, p) \<in> set ps" for k p using zero fresh that by blast
    then show ?thesis unfolding tally_def by (intro sum_list_nonneg_eq_0_iff [THEN iffD2]) auto
  qed
  then have "tally damage_dealt ps = 0" "tally damage_taken ps = 0" "tally kills ps = 0" "tally deaths ps = 0"
    using fresh_bp_stats by blast+
  then show ?thesis
    using ok fresh fresh_bp_stats(1) uget_mem [OF ok] by (auto simp: battle_inv_def)
qed

lemma run_ticks_inv:
  "run_ticks cdc ticks s = Inr s' \<Longrightarrow> battle_inv (players_of s) \<Longrightarrow>
   battle_inv (players_of s') \<and> ukeys (players_of s') = ukeys (players_of s)"
proof (induction cdc ticks s rule: run_ticks.induct)
  case (1 cdc s)
  then show ?case by simp
next
  case (2 cdc cmds ticks e ps bc aoi)
  from 2(2) obtain r where r: "TickEngine_processTick cdc e ps cmds bc aoi = Inr r"
    and run: "run_ticks cdc ticks (t_engine r, t_players r, t_bc r, t_aoi r) = Inr s'"
    by (auto simp: res_bind_Inr_iff)
  have "battle_inv ps" using 2(3) by (simp add: players_of_def)
  from processTick_inv [OF this r] 2(1) [OF run] show ?case by (simp add: players_of_def)
qed

lemma run_ticks_no_aoi:
  "battle_inv (players_of s) \<Longrightarrow> snd (snd (snd s)) = None \<Longrightarrow> \<exists>s'. run_ticks cdc ticks s = Inr s'"
proof (induction cdc ticks s rule: run_ticks.induct)
  case (1 cdc s)
  then show ?case by (cases s) simp
next
  case (2 cdc cmds ticks e ps bc aoi)
  have inv: "battle_inv ps" and none: "aoi = None" using 2(2,3) by (simp_all add: players_of_def)
  obtain r where r: "TickEngine_processTick cdc e ps cmds bc aoi = Inr r"
    using processTick_no_aoi [OF inv, of cdc e cmds bc] none by auto
  have "t_aoi r = None"
    using r none publish_no_aoi
    by (auto simp: TickEngine_processTick_def res_bind_Inr_iff Let_def) (metis Inr_inject Pair_inject publish_no_aoi)
  with 2(1) [of r] processTick_inv [OF inv r] r show ?case by (simp add: players_of_def)
qed

lemma processTick_dead:
  assumes "TickEngine_processTick cdc e ps cmds bc aoi = Inr r" and "uget ps k = Some p" and "\<not> alive p"
  shows "\<exists>c. uget (t_players r) k = Some (p\<lparr>cooldowns := c\<rparr>)"
proof -
  from assms(1) obtain out s' where s': "process_commands cdc bc cmds (e, ps) = Inr (out, s')"
    and r: "t_players r = TickEngine_updateCooldowns (snd s') kTickIntervalMs"
    by (auto simp: TickEngine_processTick_def res_bind_Inr_iff Let_def)
  have "uget (snd s') k = Some p"
    using process_commands_dead_kept [OF s'] assms(2,3) by (simp add: dead_kept_def)
  then show ?thesis by (auto simp: r updateCooldowns_get)
qed

lemma run_ticks_dead:
  "run_ticks cdc ticks s = Inr s' \<Longrightarrow> uget (players_of s) k = Some p \<Longrightarrow> \<not> alive p \<Longrightarrow>
   \<exists>c. uget (players_of s') k = Some (p\<lparr>cooldowns := c\<rparr>)"
proof (induction cdc ticks s arbitrary: p rule: run_ticks.induct)
  case (1 cdc s)
  then have "uget (players_of s') k = Some (p\<lparr>cooldowns := cooldowns p\<rparr>)" by simp
  then show ?case by blast
next
  case (2 cdc cmds ticks e ps bc aoi)
  from 2(2) obtain r where r: "TickEngine_processTick cdc e ps cmds bc aoi = Inr r"
    and run: "run_ticks cdc ticks (t_engine r, t_players r, t_bc r, t_aoi r) = Inr s'"
    by (auto simp: res_bind_Inr_iff)
  have "uget ps k = Some p" using 2(3) by (simp add: players_of_def)
  from processTick_dead [OF r this 2(4)] obtain c where "uget (t_players r) k = Some (p\<lparr>cooldowns := c\<rparr>)" by blast
  with 2(1) [OF run, of "p\<lparr>cooldowns := c\<rparr>"] 2(4) show ?case by (simp add: players_of_def)
qed

lemma run_ticks_cooldown:
  "run_ticks cdc ticks s = Inr s' \<Longrightarrow> battle_inv (players_of s) \<Longrightarrow> cooldown (players_of s) k i = Some c \<Longrightarrow>
   c > 50 * int (length ticks) \<Longrightarrow> cooldown (players_of s') k i = Some (c - 50 * int (length ticks))"
proof (induction cdc ticks s arbitrary: c rule: run_ticks.induct)
  case (1 cdc s)
  then show ?case by simp
next
  case (2 cdc cmds ticks e ps bc aoi)
  from 2(2) obtain r where r: "TickEngine_processTick cdc e ps cmds bc aoi = Inr r"
    and run: "run_ticks cdc ticks (t_engine r, t_players r, t_bc r, t_aoi r) = Inr s'"
    by (auto simp: res_bind_Inr_iff)
  have inv: "battle_inv ps" and c: "cooldown ps k i = Some c" "c > 50"
    using 2(3-5) by (simp_all add: players_of_def)
  have "cooldown (t_players r) k i = Some (c - 50)"
    using processTick_cooldown [OF inv r c(1)] c(2) by simp
  with 2(1) [OF run, of "c - 50"] processTick_inv [OF inv r] 2(5) show ?case
    by (simp add: players_of_def algebra_simps)
qed

section \<open>Properties\<close>

definition TickEngine_new :: tick_engine where
  "TickEngine_new = \<lparr>last_seq = []\<rparr>"

text \<open>Two players fifty pixels apart, and one far away, for the examples.\<close>

definition bp_at :: "player_id \<Rightarrow> f32 \<Rightarrow> battle_player" where
  "bp_at k x = BattlePlayer_default\<lparr>bp_id := k, pos_x := x\<rparr>"

definition arena :: battle_players where
  "arena = [(1, bp_at 1 (f_of_int 0)), (2, bp_at 2 (f_of_int 50)), (3, bp_at 3 (f_of_int 9000))]"

definition attack_cmd :: "player_id \<Rightarrow> u64 \<Rightarrow> player_id \<Rightarrow> command" where
  "attack_cmd a n t = (Command_default ATTACK a)\<lparr>cmd_sequence := n, target_id := t\<rparr>"

lemma arena_fresh: "fresh_battle arena"
  by (simp add: fresh_battle_def arena_def fresh_bp_def bp_at_def BattlePlayer_default_def)

lemma arena_runs: "\<exists>s'. run_ticks cdc ticks (e, arena, bc, None) = Inr s'"
  using run_ticks_no_aoi [of "(e, arena, bc, None)" cdc ticks] fresh_battle_inv [OF arena_fresh]
  by (simp add: players_of_def)

text \<open>
  C7. The books of a battle balance after any number of ticks with any commands from any players: nobody
  enters or leaves the table, the damage dealt equals the damage taken, the kills equal the deaths,
  nobody dies twice, a living player has exactly the hit points the damage taken has left, and with
  up to a million players no statistic leaves the range of \<open>int32_t\<close>.
\<close>
theorem battle_books_balance:
  assumes "fresh_battle ps" and "length ps \<le> 1000000"
    and "run_ticks cdc ticks (e, ps, bc, aoi) = Inr (e', ps', bc', aoi')"
  shows "ukeys ps' = ukeys ps \<and> tally damage_dealt ps' = tally damage_taken ps' \<and>
         tally kills ps' = tally deaths ps' \<and>
         (\<forall>k p. uget ps' k = Some p \<longrightarrow>
            0 \<le> hp p \<and> hp p \<le> 1000 \<and> deaths p \<le> 1 \<and>
            (alive p \<longrightarrow> 0 < hp p \<and> hp p = 1000 - damage_taken p) \<and>
            int32_range (kills p) \<and> int32_range (damage_dealt p) \<and> int32_range (damage_taken p))"
proof -
  have "battle_inv ps'" and keys: "ukeys ps' = ukeys ps"
    using run_ticks_inv [OF assms(3)] fresh_battle_inv [OF assms(1)] by (simp_all add: players_of_def)
  then have inv: "umap_ok ps'" "\<And>k p. uget ps' k = Some p \<Longrightarrow> bp_ok k p"
    and tal: "tally damage_dealt ps' = tally damage_taken ps'" "tally kills ps' = tally deaths ps'"
    by (auto simp: battle_inv_def)
  have len: "int (length ps') \<le> 1000000"
    using keys assms(2) by (metis length_map of_nat_le_iff of_nat_numeral)
  have "tally damage_taken ps' \<le> 1111 * int (length ps')" "tally deaths ps' \<le> 1 * int (length ps')"
    using inv by (intro tally_le; force simp: bp_ok_def)+
  moreover have "damage_dealt p \<le> tally damage_dealt ps'" "kills p \<le> tally kills ps'" if "uget ps' k = Some p" for k p
    using that inv by (intro tally_ge; force simp: bp_ok_def)+
  ultimately have "damage_dealt p \<le> 1111000000" "kills p \<le> 1000000" if "uget ps' k = Some p" for k p
    using that tal len by fastforce+
  then show ?thesis
    using inv keys tal by (fastforce simp: bp_ok_def int32_range_def)
qed

theorem battle_books_balance_witness:
  "\<exists>e' ps' bc' aoi'.
     run_ticks example_codec [[attack_cmd 1 1 2], [attack_cmd 1 2 2, attack_cmd 2 1 1]] (TickEngine_new, arena, None, None)
       = Inr (e', ps', bc', aoi') \<and>
     tally damage_dealt ps' = tally damage_taken ps'"
proof -
  obtain e' ps' bc' aoi' where run:
    "run_ticks example_codec [[attack_cmd 1 1 2], [attack_cmd 1 2 2, attack_cmd 2 1 1]] (TickEngine_new, arena, None, None)
       = Inr (e', ps', bc', aoi')"
    using arena_runs by (metis prod_cases4)
  have "length arena \<le> 1000000" by (simp add: arena_def)
  from battle_books_balance [OF arena_fresh this run] run show ?thesis by blast
qed





text \<open>
  C28. Death is final: a player who is not alive is changed by no command of any tick, neither its own nor
  another player's, and is never alive again; only its cooldowns run down.
\<close>
theorem dead_stay_dead:
  assumes "run_ticks cdc ticks (e, ps, bc, aoi) = Inr (e', ps', bc', aoi')"
    and "uget ps k = Some p" and "\<not> alive p"
  shows "\<exists>c. uget ps' k = Some (p\<lparr>cooldowns := c\<rparr>) \<and> \<not> alive (p\<lparr>cooldowns := c\<rparr>)"
  using run_ticks_dead [OF assms(1), of k p] assms(2,3) by (auto simp: players_of_def)

lemma arena_after_leave: "battle_inv (modify 2 (\<lambda>p. p\<lparr>alive := False\<rparr>) arena)"
  by (rule modify_inv [OF fresh_battle_inv [OF arena_fresh]]) (auto simp: bp_ok_def)

theorem dead_stay_dead_witness:
  "\<exists>e' ps' bc' aoi' c.
     run_ticks example_codec [[attack_cmd 2 1 1, attack_cmd 1 1 2]]
       (TickEngine_new, modify 2 (\<lambda>p. p\<lparr>alive := False\<rparr>) arena, None, None) = Inr (e', ps', bc', aoi') \<and>
     uget ps' 2 = Some ((bp_at 2 (f_of_int 50))\<lparr>alive := False, cooldowns := c\<rparr>)"
proof -
  let ?ps = "modify 2 (\<lambda>p. p\<lparr>alive := False\<rparr>) arena"
  obtain e' ps' bc' aoi' where run: "run_ticks example_codec [[attack_cmd 2 1 1, attack_cmd 1 1 2]]
       (TickEngine_new, ?ps, None, None) = Inr (e', ps', bc', aoi')"
    using run_ticks_no_aoi [of "(TickEngine_new, ?ps, None, None)" example_codec "[[attack_cmd 2 1 1, attack_cmd 1 1 2]]"]
      arena_after_leave by (auto simp: players_of_def)
  have "uget ?ps 2 = Some ((bp_at 2 (f_of_int 50))\<lparr>alive := False\<rparr>)" by (simp add: arena_def)
  from dead_stay_dead [OF run this] run show ?thesis by auto
qed



section \<open>Not-a-number directions\<close>

lemma processMove_NaN:
  "pos_x (TickEngine_processMove p F_NaN y d) = F_NaN" "alive (TickEngine_processMove p F_NaN y d) = alive p"
  by (simp_all add: TickEngine_processMove_def Let_def)

lemma cellOf_fault: "AoiGrid_cellOf x y = Inl f \<Longrightarrow> f = Float_cast_out_of_range"
  by (auto simp: AoiGrid_cellOf_def cell_coord_def res_bind_Inl_iff split: option.splits)

lemma cellOf_NaN: "AoiGrid_cellOf F_NaN y = Inl Float_cast_out_of_range"
  by (simp add: AoiGrid_cellOf_def cell_coord_def)

lemma publish_fault:
  "(k, p) \<in> set ps \<Longrightarrow> pos_x p = F_NaN \<Longrightarrow> publish_states cdc ps (bc, Some a) = Inl Float_cast_out_of_range"
proof (induction ps arbitrary: bc a)
  case Nil
  then show ?case by simp
next
  case (Cons q ps)
  obtain j r where q: "q = (j, r)" by (cases q)
  show ?case
  proof (cases "AoiGrid_cellOf (pos_x r) (pos_y r)")
    case (Inl f)
    then show ?thesis using cellOf_fault [OF Inl] by (simp add: q AoiGrid_update_def)
  next
    case (Inr c)
    with Cons.prems have "(k, p) \<in> set ps" using cellOf_NaN by (auto simp: q)
    from Cons.IH [OF this Cons.prems(2)] Inr show ?thesis
      by (simp add: q AoiGrid_update_def)
  qed
qed

text \<open>
  C39. A client can take the server into undefined behaviour with one movement command: if a living player
  sends a new command to move in a direction whose first component is not a number, the position
  becomes not-a-number and the tick converts it to \<open>int32_t\<close> when it updates the grid.
\<close>
theorem nan_direction_undefined_behaviour:
  assumes "uget ps k = Some p" and "alive p" and "uget (last_seq e) k = None" and "umap_ok ps"
    and "cmd_type cmd = MOVE" and "cmd_player_id cmd = k" and "move_dir_x cmd = F_NaN"
  shows "TickEngine_processTick cdc e ps [cmd] bc (Some a) = Inl Float_cast_out_of_range"
proof -
  let ?q = "TickEngine_processMove p F_NaN (move_dir_y cmd) dt_sec"
  obtain e' ps' where c: "process_commands cdc bc [cmd] (e, ps) = Inr ([], e', ps')"
    and q: "uget ps' k = Some ?q" and ok: "umap_ok ps'"
    using assms by (simp add: process_command_def TickEngine_isDuplicate_def execute_command_def)
  define qs where "qs = TickEngine_updateCooldowns ps' kTickIntervalMs"
  obtain r where r: "uget qs k = Some r" "pos_x r = F_NaN"
    using q by (simp add: qs_def updateCooldowns_get processMove_NaN)
  have "publish_states cdc qs (bc, Some a) = Inl Float_cast_out_of_range"
    by (rule publish_fault [of k r]) (use r in \<open>auto dest: map_of_SomeD\<close>)
  with c show ?thesis by (simp add: TickEngine_processTick_def qs_def)
qed

theorem nan_direction_undefined_behaviour_witness:
  "TickEngine_processTick example_codec TickEngine_new arena
     [(Command_default MOVE 1)\<lparr>move_dir_x := F_NaN\<rparr>] None (Some AoiGrid_new) = Inl Float_cast_out_of_range"
  by (rule nan_direction_undefined_behaviour [of _ 1 "bp_at 1 (f_of_int 0)"])
    (simp_all add: arena_def bp_at_def BattlePlayer_default_def TickEngine_new_def Command_default_def umap_ok_def)

text \<open>
  A player whose position is not a number is never out of range: the check \<open>dist > 60\<close> is false, so an
  attack hits every living target of the room at any distance, for the full damage.
\<close>
theorem nan_position_attacks_anywhere:
  assumes "uget ps a = Some attacker" and "alive attacker" and "pos_x attacker = F_NaN"
    and "uget ps t = Some target" and "alive target" and "a \<noteq> t"
  shows "\<exists>target'. uget (snd (TickEngine_processAttack cdc a t bc ps)) t = Some target' \<and>
           damage_taken target' = damage_taken target + TickEngine_calcDamage (atk attacker) (defence target)"
proof -
  have "distance target attacker = F_NaN"
    using assms(3) by (simp add: distance_def Let_def)
  then show ?thesis
    using assms by (simp add: TickEngine_processAttack_def case_prod_beta deal_damage_get(2) [OF assms(4)] hurt_def)
qed

theorem nan_position_attacks_anywhere_witness:
  "\<exists>target'. uget (snd (TickEngine_processAttack example_codec 3 2 None
       (modify 3 (\<lambda>p. p\<lparr>pos_x := F_NaN\<rparr>) arena))) 2 = Some target' \<and> damage_taken target' = 75"
  using nan_position_attacks_anywhere
    [of "modify 3 (\<lambda>p. p\<lparr>pos_x := F_NaN\<rparr>) arena" 3 "(bp_at 3 (f_of_int 9000))\<lparr>pos_x := F_NaN\<rparr>" 2 "bp_at 2 (f_of_int 50)" example_codec None]
  by (simp add: arena_def bp_at_def BattlePlayer_default_def TickEngine_calcDamage_def int_quot_def)

end
