(* ===== verification/Logic_Worker.thy ===== *)
theory Logic_Worker
  imports Tick_Engine
begin

text \<open>
  \<open>src/src/game/logic_worker.{h,cpp}\<close>: the logic thread that owns a set of battles. Other threads only
  append to its queues (commands, pending room operations); the thread itself applies the pending
  operations and runs a tick over all its rooms. Points of time of the steady clock are integers
  in nanoseconds, given to each operation that reads the clock. A tick is one step here: the lock on
  the rooms is released while messages are sent, but only this thread's operations change the rooms.
\<close>

section \<open>State\<close>

type_synonym time_ns = int

record worker_room =
  wr_room :: room_id
  wr_players :: battle_players
  wr_disconnected :: "(player_id, time_ns) umap"

datatype pending_op =
    Op_AddRoom room_id battle_players
  | Op_RemoveRoom room_id
  | Op_MarkDisconnected player_id room_id

record logic_worker =
  lw_id :: int
  lw_running :: bool
  tick_durations :: "int list"
  tick_count :: int
  pending_ops :: "pending_op list"
  lw_cmd_queue :: command_queue
  lw_engine :: tick_engine
  lw_aoi :: aoi_grid
  lw_bc :: broadcaster
  lw_rooms :: "(room_id, worker_room) umap"

definition LogicWorker_new :: "int \<Rightarrow> logic_worker" where
  "LogicWorker_new i =
     \<lparr>lw_id = i, lw_running = False, tick_durations = [], tick_count = 0, pending_ops = [],
      lw_cmd_queue = CommandQueue_new, lw_engine = TickEngine_new, lw_aoi = AoiGrid_new,
      lw_bc = Broadcaster_new, lw_rooms = []\<rparr>"

section \<open>Operations of other threads\<close>

definition push_op :: "pending_op \<Rightarrow> logic_worker \<Rightarrow> logic_worker" where
  "push_op oper w = w\<lparr>pending_ops := pending_ops w @ [oper]\<rparr>"

definition LogicWorker_addRoom :: "room_id \<Rightarrow> battle_players \<Rightarrow> logic_worker \<Rightarrow> logic_worker" where
  "LogicWorker_addRoom rid init_players w = push_op (Op_AddRoom rid init_players) w"

definition LogicWorker_removeRoom :: "room_id \<Rightarrow> logic_worker \<Rightarrow> logic_worker" where
  "LogicWorker_removeRoom rid w = push_op (Op_RemoveRoom rid) w"

definition LogicWorker_markDisconnected :: "player_id \<Rightarrow> room_id \<Rightarrow> logic_worker \<Rightarrow> logic_worker" where
  "LogicWorker_markDisconnected pid rid w = push_op (Op_MarkDisconnected pid rid) w"

definition LogicWorker_pushCommand :: "command \<Rightarrow> logic_worker \<Rightarrow> logic_worker" where
  "LogicWorker_pushCommand cmd w = w\<lparr>lw_cmd_queue := CommandQueue_push cmd (lw_cmd_queue w)\<rparr>"

definition LogicWorker_setSendCallback :: "bool \<Rightarrow> logic_worker \<Rightarrow> logic_worker" where
  "LogicWorker_setSendCallback cb w = w\<lparr>lw_bc := Broadcaster_setSendCallback cb (lw_bc w)\<rparr>"

definition LogicWorker_stop :: "logic_worker \<Rightarrow> logic_worker" where
  "LogicWorker_stop w = w\<lparr>lw_running := False\<rparr>"

definition LogicWorker_roomCount :: "logic_worker \<Rightarrow> nat" where
  "LogicWorker_roomCount w = length (lw_rooms w)"

section \<open>Pending operations\<close>

fun apply_op :: "time_ns \<Rightarrow> pending_op \<Rightarrow> (room_id, worker_room) umap \<Rightarrow> (room_id, worker_room) umap" where
  "apply_op now (Op_AddRoom rid players) rs =
     uput rid \<lparr>wr_room = rid, wr_players = players, wr_disconnected = []\<rparr> rs"
| "apply_op now (Op_RemoveRoom rid) rs = uerase rid rs"
| "apply_op now (Op_MarkDisconnected pid rid) rs =
     (case uget rs rid of
        None \<Rightarrow> rs
      | Some r \<Rightarrow> uput rid (r\<lparr>wr_disconnected := uput pid now (wr_disconnected r)\<rparr>) rs)"

text \<open>
  One iteration of the loop of \<open>drainPendingOps\<close>: the front operation is taken under the queue's lock and
  applied under the lock of the rooms. Operations that arrive in between are appended and taken later.
\<close>

definition drain_one :: "time_ns \<Rightarrow> logic_worker \<Rightarrow> logic_worker" where
  "drain_one now w =
     (case pending_ops w of
        [] \<Rightarrow> w
      | oper # opers \<Rightarrow> w\<lparr>pending_ops := opers, lw_rooms := apply_op now oper (lw_rooms w)\<rparr>)"

text \<open>The clock readings of the loop are given by how many operations are still pending.\<close>

function LogicWorker_drainPendingOps :: "(nat \<Rightarrow> time_ns) \<Rightarrow> logic_worker \<Rightarrow> logic_worker" where
  "LogicWorker_drainPendingOps clk w =
     (if pending_ops w = [] then w
      else LogicWorker_drainPendingOps clk (drain_one (clk (length (pending_ops w))) w))"
  by auto
termination
  by (relation "measure (\<lambda>(clk, w). length (pending_ops w))") (auto simp: drain_one_def split: list.splits)

declare LogicWorker_drainPendingOps.simps [simp del]

section \<open>The tick\<close>

text \<open>The disconnected players whose thirty seconds are over; \<open>duration_cast\<close> truncates to whole seconds.\<close>

fun expire_disconnected ::
    "time_ns \<Rightarrow> (player_id, time_ns) umap \<Rightarrow> battle_players \<Rightarrow> (player_id, time_ns) umap \<times> battle_players" where
  "expire_disconnected now [] ps = ([], ps)"
| "expire_disconnected now ((pid, t) # ds) ps =
     (if whole_seconds now t > 30
      then expire_disconnected now ds (modify pid (\<lambda>p. p\<lparr>alive := False, hp := 0\<rparr>) ps)
      else let (ds', ps') = expire_disconnected now ds ps in ((pid, t) # ds', ps'))"

text \<open>The broadcast of one room's state to the neighbours of each of its players.\<close>

fun broadcast_nearby :: "aoi_grid \<Rightarrow> broadcaster \<Rightarrow> bytes \<Rightarrow> battle_players \<Rightarrow> ub + player_send list" where
  "broadcast_nearby aoi bc payload [] = Inr []"
| "broadcast_nearby aoi bc payload ((pid, bp) # ps) =
     res_bind (AoiGrid_getNearby pid aoi)
       (\<lambda>nearby. res_bind (broadcast_nearby aoi bc payload ps)
          (\<lambda>out. Inr (Broadcaster_broadcastToAoi nearby 4004 payload bc @ out)))"

text \<open>What the rooms of a worker share in a tick: the engine, the grid and the broadcaster.\<close>

type_synonym shared = "tick_engine \<times> aoi_grid \<times> broadcaster"

definition tick_room ::
    "codec \<Rightarrow> time_ns \<Rightarrow> command list \<Rightarrow> room_id \<Rightarrow> worker_room \<Rightarrow> shared \<Rightarrow> ub + player_send list \<times> worker_room \<times> shared" where
  "tick_room cdc now cmds rid r sh =
     (case sh of (e, aoi, bc) \<Rightarrow>
      res_bind (TickEngine_processTick cdc e (wr_players r) cmds (Some bc) (Some aoi))
       (\<lambda>res.
          let ps = t_players res; aoi' = the (t_aoi res); bc' = the (t_bc res);
              payload = SerializeToString cdc (BattleStateNotify rid 0 (map (\<lambda>(pid, bp). state_of bp) ps))
          in res_bind (broadcast_nearby aoi' bc' payload ps)
               (\<lambda>out.
                  let (flushed, bc'') = Broadcaster_flushOverrides bc';
                      (ds, ps') = expire_disconnected now (wr_disconnected r) ps
                  in Inr (t_sends res @ out @ flushed, r\<lparr>wr_players := ps', wr_disconnected := ds\<rparr>,
                          t_engine res, aoi', bc''))))"

text \<open>\<open>clk\<close> gives the reading of the clock after each room's broadcast.\<close>

fun tick_rooms ::
    "codec \<Rightarrow> (room_id \<Rightarrow> time_ns) \<Rightarrow> command list \<Rightarrow> (room_id, worker_room) umap \<Rightarrow> shared \<Rightarrow>
     ub + player_send list \<times> (room_id, worker_room) umap \<times> shared" where
  "tick_rooms cdc clk cmds [] sh = Inr ([], [], sh)"
| "tick_rooms cdc clk cmds ((rid, r) # rs) sh =
     res_bind (tick_room cdc (clk rid) cmds rid r sh)
       (\<lambda>(out, r', sh'). res_bind (tick_rooms cdc clk cmds rs sh')
          (\<lambda>(outs, rs', sh''). Inr (out @ outs, (rid, r') # rs', sh'')))"

definition LogicWorker_tick :: "codec \<Rightarrow> (room_id \<Rightarrow> time_ns) \<Rightarrow> logic_worker \<Rightarrow> ub + player_send list \<times> logic_worker" where
  "LogicWorker_tick cdc clk w =
     (let (cmds, q) = CommandQueue_drain (lw_cmd_queue w)
      in res_bind (tick_rooms cdc clk cmds (lw_rooms w) (lw_engine w, lw_aoi w, lw_bc w))
           (\<lambda>(out, rs, e, aoi, bc).
              Inr (out, w\<lparr>lw_cmd_queue := q, lw_rooms := rs, lw_engine := e, lw_aoi := aoi, lw_bc := bc\<rparr>)))"

definition LogicWorker_getSnapshot :: "codec \<Rightarrow> room_id \<Rightarrow> logic_worker \<Rightarrow> bytes" where
  "LogicWorker_getSnapshot cdc rid w =
     (case uget (lw_rooms w) rid of
        None \<Rightarrow> []
      | Some r \<Rightarrow> SerializeToString cdc (BattleSnapshotNotify rid 0 (map (\<lambda>(pid, bp). state_of bp) (wr_players r))))"

section \<open>The loop of the thread\<close>

text \<open>The line written every 200 ticks: the count, three percentiles and the maximum.\<close>

definition report_stats :: "int \<Rightarrow> int list \<Rightarrow> int \<times> int \<times> int \<times> int \<times> int" where
  "report_stats n ds =
     (let cp = sort ds; k = length cp
      in (n, cp ! (k * 50 div 100), cp ! (k * 95 div 100), cp ! (k * 99 div 100), last cp))"

text \<open>
  One iteration of \<open>run\<close>: \<open>now\<close>, \<open>t0\<close> and \<open>t1\<close> are the readings of the clock before the tick is due,
  before and after it; \<open>clk\<close> and \<open>clk'\<close> those inside the two calls. The result gives the messages
  sent, the statistics line if one is due, the worker, \<open>last_tick\<close> and how many milliseconds to
  wait for new operations.
\<close>

definition LogicWorker_run_iteration ::
    "codec \<Rightarrow> (nat \<Rightarrow> time_ns) \<Rightarrow> (room_id \<Rightarrow> time_ns) \<Rightarrow> time_ns \<Rightarrow> time_ns \<Rightarrow> time_ns \<Rightarrow> time_ns \<Rightarrow> logic_worker \<Rightarrow>
     ub + player_send list \<times> (int \<times> int \<times> int \<times> int \<times> int) option \<times> logic_worker \<times> time_ns \<times> int" where
  "LogicWorker_run_iteration cdc clk clk' last_tick now t0 t1 w0 =
     (let w = LogicWorker_drainPendingOps clk w0;
          elapsed = int_quot (now - last_tick) 1000000
      in if elapsed \<ge> kTickIntervalMs then
           res_bind (LogicWorker_tick cdc clk' w)
             (\<lambda>(out, w1).
                let ds = tick_durations w1 @ [int_quot (t1 - t0) 1000]; n = tick_count w1 + 1
                in if n mod 200 = 0
                   then Inr (out, Some (report_stats n ds), w1\<lparr>tick_durations := [], tick_count := n\<rparr>, now, kTickIntervalMs - elapsed)
                   else Inr (out, None, w1\<lparr>tick_durations := ds, tick_count := n\<rparr>, now, kTickIntervalMs - elapsed))
         else Inr ([], None, w, last_tick, kTickIntervalMs - elapsed))"

section \<open>Every battle of a worker stays sound\<close>

definition worker_inv :: "logic_worker \<Rightarrow> bool" where
  "worker_inv w \<longleftrightarrow>
     umap_ok (lw_rooms w) \<and> (\<forall>rid r. (rid, r) \<in> set (lw_rooms w) \<longrightarrow> battle_inv (wr_players r)) \<and>
     (\<forall>rid ps. Op_AddRoom rid ps \<in> set (pending_ops w) \<longrightarrow> battle_inv ps)"

lemma uput_mem: "(k, v) \<in> set (uput j u m) \<Longrightarrow> (k, v) = (j, u) \<or> (k, v) \<in> set m"
  by (induction m) (auto split: if_splits)

lemma uerase_mem: "(k, v) \<in> set (uerase j m) \<Longrightarrow> (k, v) \<in> set m"
  by (auto simp: AList.delete_eq)

lemma expire_inv: "battle_inv ps \<Longrightarrow> battle_inv (snd (expire_disconnected now ds ps))"
proof (induction now ds ps rule: expire_disconnected.induct)
  case (1 now ps)
  then show ?case by simp
next
  case (2 now pid t ds ps)
  have "battle_inv (modify pid (\<lambda>p. p\<lparr>alive := False, hp := 0\<rparr>) ps)"
    by (rule modify_inv [OF "2.prems"]) (auto simp: bp_ok_def)
  with 2 show ?case by (simp add: case_prod_beta Let_def)
qed

lemma expire_keys [simp]: "ukeys (snd (expire_disconnected now ds ps)) = ukeys ps"
  by (induction now ds ps rule: expire_disconnected.induct) (simp_all add: case_prod_beta Let_def)

lemma tick_room_inv:
  assumes "battle_inv (wr_players r)" and "tick_room cdc now cmds rid r sh = Inr (out, r', sh')"
  shows "battle_inv (wr_players r') \<and> ukeys (wr_players r') = ukeys (wr_players r) \<and> wr_room r' = wr_room r"
proof -
  obtain e aoi bc where sh: "sh = (e, aoi, bc)" by (cases sh)
  from assms(2) obtain res where res: "TickEngine_processTick cdc e (wr_players r) cmds (Some bc) (Some aoi) = Inr res"
    and r': "r' = r\<lparr>wr_players := snd (expire_disconnected now (wr_disconnected r) (t_players res)),
                    wr_disconnected := fst (expire_disconnected now (wr_disconnected r) (t_players res))\<rparr>"
    by (auto simp: tick_room_def sh res_bind_Inr_iff Let_def case_prod_beta)
  from processTick_inv [OF assms(1) res] r' show ?thesis
    by (simp add: expire_inv)
qed

lemma tick_rooms_inv:
  "tick_rooms cdc clk cmds rs sh = Inr (out, rs', sh') \<Longrightarrow> (\<And>rid r. (rid, r) \<in> set rs \<Longrightarrow> battle_inv (wr_players r)) \<Longrightarrow>
   ukeys rs' = ukeys rs \<and> (\<forall>rid r. (rid, r) \<in> set rs' \<longrightarrow> battle_inv (wr_players r))"
proof (induction cdc clk cmds rs sh arbitrary: out rs' rule: tick_rooms.induct)
  case (1 cdc clk cmds sh)
  then show ?case by simp
next
  case (2 cdc clk cmds rid r rs sh)
  from "2.prems"(1) obtain o1 r1 sh1 o2 rs1 where
    r1: "tick_room cdc (clk rid) cmds rid r sh = Inr (o1, r1, sh1)"
    and rs1: "tick_rooms cdc clk cmds rs sh1 = Inr (o2, rs1, sh')" and rs': "rs' = (rid, r1) # rs1"
    by (auto simp: res_bind_Inr_iff)
  have "battle_inv (wr_players r1)"
    using tick_room_inv [OF "2.prems"(2) [of rid r] r1] by simp
  moreover have "ukeys rs1 = ukeys rs \<and> (\<forall>rid r. (rid, r) \<in> set rs1 \<longrightarrow> battle_inv (wr_players r))"
    by (rule "2.IH" [OF rs1]) (use "2.prems"(2) in auto)
  ultimately show ?case by (auto simp: rs')
qed

lemma tick_inv:
  assumes "worker_inv w" and "LogicWorker_tick cdc clk w = Inr (out, w')"
  shows "worker_inv w' \<and> ukeys (lw_rooms w') = ukeys (lw_rooms w) \<and> pending_ops w' = pending_ops w"
proof -
  from assms(2) obtain cmds q rs e aoi bc where
    rs: "tick_rooms cdc clk cmds (lw_rooms w) (lw_engine w, lw_aoi w, lw_bc w) = Inr (out, rs, e, aoi, bc)"
    and w': "w' = w\<lparr>lw_cmd_queue := q, lw_rooms := rs, lw_engine := e, lw_aoi := aoi, lw_bc := bc\<rparr>"
    by (auto simp: LogicWorker_tick_def res_bind_Inr_iff case_prod_beta)
  from tick_rooms_inv [OF rs] assms(1) show ?thesis
    by (auto simp: worker_inv_def w' umap_ok_def)
qed

lemma apply_op_mem:
  assumes "(rid, r) \<in> set (apply_op now oper rs)" and "umap_ok rs"
  shows "(\<exists>r0. (rid, r0) \<in> set rs \<and> wr_players r = wr_players r0) \<or> (\<exists>ps. oper = Op_AddRoom rid ps \<and> wr_players r = ps)"
  using assms
  by (cases oper) (auto dest!: uput_mem uerase_mem dest: map_of_SomeD split: option.splits)

lemma apply_op_ok: "umap_ok rs \<Longrightarrow> umap_ok (apply_op now oper rs)"
  by (cases oper) (auto split: option.splits)

lemma drain_one_inv:
  assumes "worker_inv w"
  shows "worker_inv (drain_one now w)"
  using assms unfolding worker_inv_def drain_one_def
  by (auto simp: apply_op_ok split: list.splits dest!: apply_op_mem)

datatype worker_event =
    AddRoom room_id battle_players
  | RemoveRoom room_id
  | MarkDisconnected player_id room_id
  | PushCommand command
  | DrainOne time_ns
  | Tick "room_id \<Rightarrow> time_ns"

fun worker_step :: "codec \<Rightarrow> logic_worker \<Rightarrow> worker_event \<Rightarrow> logic_worker" where
  "worker_step cdc w (AddRoom rid ps) = LogicWorker_addRoom rid ps w"
| "worker_step cdc w (RemoveRoom rid) = LogicWorker_removeRoom rid w"
| "worker_step cdc w (MarkDisconnected pid rid) = LogicWorker_markDisconnected pid rid w"
| "worker_step cdc w (PushCommand cmd) = LogicWorker_pushCommand cmd w"
| "worker_step cdc w (DrainOne now) = drain_one now w"
| "worker_step cdc w (Tick clk) = (case LogicWorker_tick cdc clk w of Inl f \<Rightarrow> w | Inr (out, w') \<Rightarrow> w')"

fun fresh_rooms :: "logic_worker \<Rightarrow> worker_event \<Rightarrow> bool" where
  "fresh_rooms w (AddRoom rid ps) = fresh_battle ps"
| "fresh_rooms w _ = True"

lemma push_op_inv: "worker_inv w \<Longrightarrow> (\<And>rid ps. oper = Op_AddRoom rid ps \<Longrightarrow> battle_inv ps) \<Longrightarrow> worker_inv (push_op oper w)"
  by (auto simp: worker_inv_def push_op_def)

lemma worker_step_inv:
  assumes "worker_inv w" and "fresh_rooms w ev"
  shows "worker_inv (worker_step cdc w ev)"
proof (cases ev)
  case (Tick clk)
  with assms tick_inv [OF assms(1)] show ?thesis by (auto split: sum.splits)
next
  case (PushCommand cmd)
  with assms show ?thesis by (simp add: worker_inv_def LogicWorker_pushCommand_def)
qed (use assms in \<open>auto simp: LogicWorker_addRoom_def LogicWorker_removeRoom_def LogicWorker_markDisconnected_def
       intro!: push_op_inv drain_one_inv fresh_battle_inv\<close>)

interpretation lw: machine "worker_step cdc" fresh_rooms worker_inv for cdc
  by unfold_locales (rule worker_step_inv)

lemma new_worker_inv [simp]: "worker_inv (LogicWorker_new i)"
  by (simp add: worker_inv_def LogicWorker_new_def)

section \<open>Pending operations are applied once and in order\<close>

datatype op_event = Push pending_op | Take

fun op_step :: "time_ns \<Rightarrow> logic_worker \<Rightarrow> op_event \<Rightarrow> logic_worker" where
  "op_step now w (Push oper) = push_op oper w"
| "op_step now w Take = drain_one now w"

fun pushed :: "op_event list \<Rightarrow> pending_op list" where
  "pushed [] = []"
| "pushed (Push oper # evs) = oper # pushed evs"
| "pushed (Take # evs) = pushed evs"

text \<open>The rooms there will be once everything pending has been applied.\<close>

definition settled_rooms :: "time_ns \<Rightarrow> logic_worker \<Rightarrow> (room_id, worker_room) umap" where
  "settled_rooms now w = fold (apply_op now) (pending_ops w) (lw_rooms w)"

lemma settled_push: "settled_rooms now (push_op oper w) = apply_op now oper (settled_rooms now w)"
  by (simp add: settled_rooms_def push_op_def)

lemma settled_drain_one: "settled_rooms now (drain_one now w) = settled_rooms now w"
  by (simp add: settled_rooms_def drain_one_def split: list.splits)

lemma settled_run:
  "settled_rooms now (run_events (op_step now) w evs) = fold (apply_op now) (pushed evs) (settled_rooms now w)"
  by (induction evs arbitrary: w rule: pushed.induct) (simp_all add: settled_push settled_drain_one)

lemma drain_settles:
  "pending_ops (LogicWorker_drainPendingOps (\<lambda>_. now) w) = [] \<and>
   lw_rooms (LogicWorker_drainPendingOps (\<lambda>_. now) w) = settled_rooms now w"
proof (induction "\<lambda>_ :: nat. now" w rule: LogicWorker_drainPendingOps.induct)
  case (1 w)
  show ?case
  proof (cases "pending_ops w = []")
    case True
    then show ?thesis by (subst (1 2) LogicWorker_drainPendingOps.simps) (simp add: settled_rooms_def)
  next
    case False
    with 1 show ?thesis by (subst (1 2) LogicWorker_drainPendingOps.simps) (simp add: settled_drain_one)
  qed
qed

section \<open>Rooms and foreign commands\<close>

lemma process_command_foreign:
  "cmd_player_id c \<notin> set (ukeys (snd s)) \<Longrightarrow> process_command cdc bc c s = Inr ([], s)"
  using map_of_eq_None_iff [of "snd s" "cmd_player_id c"] by (simp add: process_command_def)

lemma process_commands_filter:
  assumes "battle_inv (snd s)"
  shows "process_commands cdc bc cmds s =
         process_commands cdc bc (filter (\<lambda>c. cmd_player_id c \<in> set (ukeys (snd s))) cmds) s"
  using assms
proof (induction cmds arbitrary: s)
  case Nil
  then show ?case by simp
next
  case (Cons c cs)
  obtain o1 s1 where c: "process_command cdc bc c s = Inr (o1, s1)" "battle_inv (snd s1)" "ukeys (snd s1) = ukeys (snd s)"
    using process_command_inv [OF Cons.prems] by blast
  show ?case
  proof (cases "cmd_player_id c \<in> set (ukeys (snd s))")
    case True
    with c Cons.IH [OF c(2)] show ?thesis by simp
  next
    case False
    with Cons.IH [OF Cons.prems] show ?thesis by (simp add: process_command_foreign)
  qed
qed

section \<open>Properties\<close>




text \<open>
  Rooms that share a worker do not act on each other's players: the commands of players who are not in
  a room leave its tick unchanged, as if they had never been in the shared command queue.
\<close>
theorem foreign_commands_ignored:
  assumes "battle_inv ps"
  shows "TickEngine_processTick cdc e ps cmds bc aoi =
         TickEngine_processTick cdc e ps (filter (\<lambda>c. cmd_player_id c \<in> set (ukeys ps)) cmds) bc aoi"
  using process_commands_filter [of "(e, ps)" cdc bc cmds] assms by (simp add: TickEngine_processTick_def)

theorem foreign_commands_ignored_witness:
  "TickEngine_processTick example_codec TickEngine_new arena [attack_cmd 9 1 1] None None =
   TickEngine_processTick example_codec TickEngine_new arena [] None None"
  using foreign_commands_ignored [OF fresh_battle_inv [OF arena_fresh], of example_codec TickEngine_new "[attack_cmd 9 1 1]" None None]
  by (simp add: arena_def attack_cmd_def Command_default_def)

lemma sorted_nth_mem: "ds \<noteq> [] \<Longrightarrow> p < 100 \<Longrightarrow> length ds * p div 100 < length (sort ds)"
proof -
  assume "ds \<noteq> []" "p < 100"
  then have "length ds * p < length ds * 100" by simp
  then show ?thesis by (simp add: div_less_iff_less_mult mult.commute)
qed

text \<open>
  The statistics line written every 200 ticks only reads durations that were recorded (no index is out
  of range) and its figures are ordered: P50 \<open>\<le>\<close> P95 \<open>\<le>\<close> P99 \<open>\<le>\<close> Max.
\<close>
theorem report_stats_sound:
  assumes "ds \<noteq> []" and "report_stats n ds = (m, p50, p95, p99, mx)"
  shows "m = n \<and> {p50, p95, p99, mx} \<subseteq> set ds \<and> p50 \<le> p95 \<and> p95 \<le> p99 \<and> p99 \<le> mx \<and> (\<forall>d \<in> set ds. d \<le> mx)"
proof -
  have idx: "length ds * 50 div 100 < length (sort ds)" "length ds * 95 div 100 < length (sort ds)"
    "length ds * 99 div 100 < length (sort ds)"
    by (rule sorted_nth_mem [OF assms(1)], simp)+
  have le: "length ds * 50 div 100 \<le> length ds * 95 div 100" "length ds * 95 div 100 \<le> length ds * 99 div 100"
    by (intro div_le_mono; simp)+
  have ne: "sort ds \<noteq> []" using assms(1) by (metis set_empty set_sort)
  have top: "d \<le> last (sort ds)" if "d \<in> set ds" for d
  proof -
    obtain i where "i < length (sort ds)" "sort ds ! i = d"
      using \<open>d \<in> set ds\<close> by (metis in_set_conv_nth set_sort)
    then show ?thesis
      using sorted_nth_mono [OF sorted_sort, of i "length (sort ds) - 1" ds] last_conv_nth [OF ne] by simp
  qed
  have vals: "m = n" "p50 = sort ds ! (length ds * 50 div 100)" "p95 = sort ds ! (length ds * 95 div 100)"
    "p99 = sort ds ! (length ds * 99 div 100)" "mx = last (sort ds)"
    using assms(2) by (auto simp: report_stats_def Let_def)
  have "p50 \<in> set ds" "p95 \<in> set ds" "p99 \<in> set ds"
    unfolding vals using idx by (metis nth_mem set_sort)+
  moreover have "mx \<in> set ds" unfolding vals using ne by (metis last_in_set set_sort)
  moreover have "p50 \<le> p95" "p95 \<le> p99"
    unfolding vals using idx le by (simp_all add: sorted_nth_mono)
  ultimately show ?thesis using top vals by blast
qed

theorem report_stats_sound_witness:
  "report_stats 200 [30, 10, 20] = (200, 20, 30, 30, 30) \<and> {20, 30, 30, 30} \<subseteq> set [30, 10, 20 :: int]"
proof -
  have r: "report_stats 200 [30, 10, 20] = (200, 20, 30, 30, 30)" by (simp add: report_stats_def Let_def)
  from report_stats_sound [OF _ r] r show ?thesis by simp
qed

section \<open>Disconnected players\<close>

definition grace_over :: "time_ns \<Rightarrow> time_ns \<Rightarrow> bool" where
  "grace_over now t \<longleftrightarrow> now - t \<ge> 31 * 1000000000"

lemma seconds_since_grace: "whole_seconds now t > 30 \<longleftrightarrow> grace_over now t"
  using whole_seconds_gt [of 30] by (simp add: grace_over_def)

lemma expire_get:
  "umap_ok ds \<Longrightarrow>
   uget (fst (expire_disconnected now ds ps)) pid =
     (case uget ds pid of None \<Rightarrow> None | Some t \<Rightarrow> if grace_over now t then None else Some t) \<and>
   uget (snd (expire_disconnected now ds ps)) pid =
     (case uget ds pid of
        None \<Rightarrow> uget ps pid
      | Some t \<Rightarrow> if grace_over now t then map_option (\<lambda>p. p\<lparr>alive := False, hp := 0\<rparr>) (uget ps pid) else uget ps pid)"
proof (induction now ds ps rule: expire_disconnected.induct)
  case (1 now ps)
  then show ?case by simp
next
  case (2 now q t ds ps)
  from "2.prems" have ok: "umap_ok ds" "uget ds q = None" by (simp_all add: umap_ok_Cons)
  show ?case
  proof (cases "grace_over now t")
    case True
    with "2.IH"(1) [OF _ ok(1)] ok(2) show ?thesis
      by (auto simp: seconds_since_grace split: option.splits)
  next
    case False
    with "2.IH"(2) [OF _ ok(1)] ok(2) show ?thesis
      by (auto simp: seconds_since_grace case_prod_beta Let_def split: option.splits)
  qed
qed

text \<open>
  A disconnected player has thirty-one seconds: the first tick that comes at least thirty-one seconds
  after the disconnection kills the player and forgets the disconnection; an earlier tick leaves the
  player and the entry as they are, and players who are not marked are never touched.
\<close>
theorem disconnect_grace_period:
  assumes "umap_ok ds" and "expire_disconnected now ds ps = (ds', ps')"
  shows "(\<forall>t. uget ds pid = Some t \<and> now - t \<ge> 31 * 1000000000 \<longrightarrow>
            uget ds' pid = None \<and> uget ps' pid = map_option (\<lambda>p. p\<lparr>alive := False, hp := 0\<rparr>) (uget ps pid)) \<and>
         (\<forall>t. uget ds pid = Some t \<and> now - t < 31 * 1000000000 \<longrightarrow>
            uget ds' pid = Some t \<and> uget ps' pid = uget ps pid) \<and>
         (uget ds pid = None \<longrightarrow> uget ps' pid = uget ps pid)"
  using expire_get [OF assms(1), of now ps pid] assms(2) by (auto simp: grace_over_def)

theorem disconnect_grace_period_witness:
  "fst (expire_disconnected 31000000000 [(2, 0), (1, 5)] arena) = [(1, 5)] \<and>
   map_option alive (uget (snd (expire_disconnected 31000000000 [(2, 0), (1, 5)] arena)) 2) = Some False"
proof -
  obtain ds' ps' where r: "expire_disconnected 31000000000 [(2, 0), (1, 5)] arena = (ds', ps')"
    by (cases "expire_disconnected 31000000000 [(2, 0), (1, 5)] arena")
  have ok: "umap_ok [(2 :: player_id, 0 :: time_ns), (1, 5)]" by (simp add: umap_ok_def)
  have "ds' = [(1, 5)]" using r by (simp add: whole_seconds_def int_quot_def split: prod.splits)
  with disconnect_grace_period [OF ok r, of 2] r show ?thesis
    by (simp add: arena_def)
qed

section \<open>The shared grid\<close>

definition lone_room :: "room_id \<Rightarrow> player_id \<Rightarrow> worker_room" where
  "lone_room rid k = \<lparr>wr_room = rid, wr_players = [(k, bp_at k (f_of_int 0))], wr_disconnected = []\<rparr>"

definition shared_worker :: logic_worker where
  "shared_worker = (LogicWorker_setSendCallback True (LogicWorker_new 1))
     \<lparr>lw_rooms := [(1, lone_room 1 10), (3, lone_room 3 20)]\<rparr>"

lemma origin_cell: "AoiGrid_cellOf (f_of_int 0) (f_of_int 0) = Inr (0, 0)"
  using cell_coord_examples(1) by (simp add: AoiGrid_cellOf_def)


end
