(* ===== verification/Connection_Pool.thy ===== *)
theory Connection_Pool
  imports Prelude
begin

text \<open>
  \<open>src/src/storage/connection_pool.h\<close>: the generic pool of storage connections with its RAII guard.
  A guard is the connection it holds, or nothing after it was moved from. \<open>borrow\<close> waits until a
  connection is there: as a step it is enabled only then. Every method holds the pool's lock, so
  concurrent use is a sequence of steps.
\<close>

section \<open>The pool\<close>

type_synonym 'c pool = "'c list"

datatype pool_error = Create_failed nat

text \<open>
  The constructor calls \<open>create\<close> for each index in turn; the first failure destroys what was created,
  front first, and throws. The result of a failure names the connections that were destroyed.
\<close>

fun create_loop :: "nat \<Rightarrow> nat \<Rightarrow> (nat \<Rightarrow> 'c option) \<Rightarrow> 'c pool \<Rightarrow> (pool_error \<times> 'c list) + 'c pool" where
  "create_loop i 0 create p = Inr p"
| "create_loop i (Suc n) create p =
     (case create i of
        None \<Rightarrow> Inl (Create_failed i, p)
      | Some c \<Rightarrow> create_loop (Suc i) n create (p @ [c]))"

definition ConnectionPool_new :: "nat \<Rightarrow> (nat \<Rightarrow> 'c option) \<Rightarrow> (pool_error \<times> 'c list) + 'c pool" where
  "ConnectionPool_new n create = create_loop 0 n create []"

text \<open>The destructor hands every pooled connection to \<open>destroy\<close>.\<close>

definition ConnectionPool_destroy :: "'c pool \<Rightarrow> 'c list" where
  "ConnectionPool_destroy p = p"

definition ConnectionPool_borrow :: "'c pool \<Rightarrow> ('c \<times> 'c pool) option" where
  "ConnectionPool_borrow p = (case p of [] \<Rightarrow> None | c # cs \<Rightarrow> Some (c, cs))"

definition ConnectionPool_returnConn :: "'c \<Rightarrow> 'c pool \<Rightarrow> 'c pool" where
  "ConnectionPool_returnConn c p = p @ [c]"

definition ConnectionPool_available :: "'c pool \<Rightarrow> nat" where
  "ConnectionPool_available p = length p"

section \<open>Guards\<close>

type_synonym 'c guard = "'c option"

definition Guard_destroy :: "'c guard \<Rightarrow> 'c pool \<Rightarrow> 'c pool" where
  "Guard_destroy g p = (case g of None \<Rightarrow> p | Some c \<Rightarrow> ConnectionPool_returnConn c p)"

text \<open>The move constructor: the new guard and what is left of the old one.\<close>

definition Guard_move :: "'c guard \<Rightarrow> 'c guard \<times> 'c guard" where
  "Guard_move other = (other, None)"

text \<open>Move assignment to a different guard: what is held is returned first.\<close>

definition Guard_move_assign :: "'c guard \<Rightarrow> 'c guard \<Rightarrow> 'c pool \<Rightarrow> 'c guard \<times> 'c guard \<times> 'c pool" where
  "Guard_move_assign this other p = (other, None, Guard_destroy this p)"

section \<open>Concurrent use\<close>

text \<open>The pool and the guards that are alive, each under a name of its own.\<close>

record 'c pool_system =
  sys_pool :: "'c pool"
  sys_guards :: "(nat, 'c guard) umap"

inductive pool_step :: "'c pool_system \<Rightarrow> 'c pool_system \<Rightarrow> bool" where
  borrow: "ConnectionPool_borrow (sys_pool s) = Some (c, p) \<Longrightarrow> uget (sys_guards s) g = None \<Longrightarrow>
     pool_step s \<lparr>sys_pool = p, sys_guards = uput g (Some c) (sys_guards s)\<rparr>"
| move: "uget (sys_guards s) g = Some x \<Longrightarrow> uget (sys_guards s) h = None \<Longrightarrow>
     pool_step s \<lparr>sys_pool = sys_pool s, sys_guards = uput h (fst (Guard_move x)) (uput g (snd (Guard_move x)) (sys_guards s))\<rparr>"
| move_assign: "uget (sys_guards s) g = Some x \<Longrightarrow> uget (sys_guards s) h = Some y \<Longrightarrow> g \<noteq> h \<Longrightarrow>
     Guard_move_assign x y (sys_pool s) = (x', y', p) \<Longrightarrow>
     pool_step s \<lparr>sys_pool = p, sys_guards = uput g x' (uput h y' (sys_guards s))\<rparr>"
| destroy: "uget (sys_guards s) g = Some x \<Longrightarrow>
     pool_step s \<lparr>sys_pool = Guard_destroy x (sys_pool s), sys_guards = uerase g (sys_guards s)\<rparr>"

section \<open>Conservation\<close>

definition held :: "(nat, 'c guard) umap \<Rightarrow> 'c multiset" where
  "held m = sum_list (map (\<lambda>(g, x). case x of None \<Rightarrow> {#} | Some c \<Rightarrow> {#c#}) m)"

definition guard_mset :: "'c guard \<Rightarrow> 'c multiset" where
  "guard_mset x = (case x of None \<Rightarrow> {#} | Some c \<Rightarrow> {#c#})"

lemma held_Cons [simp]: "held ((g, x) # m) = guard_mset x + held m" and held_Nil [simp]: "held [] = {#}"
  by (simp_all add: held_def guard_mset_def)

lemma guard_mset_simps [simp]: "guard_mset None = {#}" "guard_mset (Some c) = {#c#}"
  by (simp_all add: guard_mset_def)

lemma held_uput_new: "uget m g = None \<Longrightarrow> held (uput g x m) = guard_mset x + held m"
  by (induction m) (auto simp: ac_simps split: if_splits)

lemma held_uput_old: "uget m g = Some y \<Longrightarrow> guard_mset y + held (uput g x m) = guard_mset x + held m"
proof (induction m)
  case (Cons q m)
  then show ?case by (cases q) (auto simp: union_ac split: if_splits)
qed simp

lemma held_uerase:
  assumes "umap_ok m" and "uget m g = Some y"
  shows "held m = guard_mset y + held (uerase g m)"
  using assms
proof (induction m)
  case (Cons q m)
  obtain h x where q: "q = (h, x)" by (cases q)
  have "h \<notin> set (ukeys m)" "umap_ok m" using Cons.prems(1) by (simp_all add: q umap_ok_def)
  then show ?case using Cons by (auto simp: q union_ac split: if_splits)
qed simp

text \<open>Everything there is: what is in the pool and what the guards hold.\<close>

definition all_conns :: "'c pool_system \<Rightarrow> 'c multiset" where
  "all_conns s = mset (sys_pool s) + held (sys_guards s)"

lemma destroy_mset: "mset (Guard_destroy x p) = guard_mset x + mset p"
  by (auto simp: Guard_destroy_def ConnectionPool_returnConn_def split: option.splits)

lemma pool_step_conserves:
  "pool_step s s' \<Longrightarrow> umap_ok (sys_guards s) \<Longrightarrow> umap_ok (sys_guards s') \<and> all_conns s' = all_conns s"
proof (induction rule: pool_step.induct)
  case (borrow s c p g)
  then show ?case
    by (auto simp: all_conns_def ConnectionPool_borrow_def held_uput_new split: list.splits)
next
  case (move s g x h)
  have "uget (uput g None (sys_guards s)) h = None" using move by auto
  with move held_uput_old [OF move(1), of None] show ?case
    by (auto simp: all_conns_def Guard_move_def held_uput_new)
next
  case (move_assign s g x h y x' y' p)
  have g: "uget (uput h None (sys_guards s)) g = Some x" using move_assign by auto
  from move_assign held_uput_old [OF move_assign(2), of None] held_uput_old [OF g, of y] show ?case
    by (auto simp: all_conns_def Guard_move_assign_def destroy_mset union_ac)
next
  case (destroy s g x)
  with held_uerase [OF destroy(2,1)] show ?case
    by (simp add: all_conns_def destroy_mset union_ac)
qed

lemma pool_steps_conserve:
  "pool_step\<^sup>*\<^sup>* s s' \<Longrightarrow> umap_ok (sys_guards s) \<Longrightarrow> umap_ok (sys_guards s') \<and> all_conns s' = all_conns s"
  by (induction rule: rtranclp_induct) (auto dest: pool_step_conserves)

lemma create_loop_success:
  "create_loop i n create p = Inr q \<Longrightarrow> q = p @ map (the \<circ> create) [i..<i + n] \<and> (\<forall>j \<in> {i..<i + n}. create j \<noteq> None)"
proof (induction i n create p rule: create_loop.induct)
  case (1 i create p)
  then show ?case by simp
next
  case (2 i n create p)
  then show ?case
    by (auto simp: upt_conv_Cons atLeastLessThan_iff Suc_le_eq le_less split: option.splits)
qed

lemma create_loop_failure:
  "create_loop i n create p = Inl (Create_failed k, d) \<Longrightarrow>
   i \<le> k \<and> k < i + n \<and> create k = None \<and> d = p @ map (the \<circ> create) [i..<k]"
proof (induction i n create p rule: create_loop.induct)
  case (1 i create p)
  then show ?case by simp
next
  case (2 i n create p)
  then show ?case
    by (cases "create i") (auto simp: upt_conv_Cons)
qed

lemma held_mem: "umap_ok m \<Longrightarrow> uget m g = Some (Some c) \<Longrightarrow> c \<in># held m"
  by (simp add: held_uerase [of m g "Some c"])

lemma held_twice:
  assumes "umap_ok m" and "uget m g = Some (Some c)" and "uget m h = Some (Some c)" and "g \<noteq> h"
  shows "count (held m) c \<ge> 2"
proof -
  have "uget (uerase g m) h = Some (Some c)" using assms by simp
  then have "c \<in># held (uerase g m)" using assms(1) by (intro held_mem [of _ h]) simp_all
  then have "count (held (uerase g m)) c \<ge> 1" by simp
  then show ?thesis using held_uerase [OF assms(1,2)] by simp
qed

section \<open>Properties\<close>

text \<open>
  C32. The pool never loses or duplicates a connection: whatever the threads do with their guards (borrow,
  move, assign, let go), the connections in the pool and those held are together always the ones that
  were created, two guards never hold the same connection, and when no guard is left the pool is
  full again.
\<close>
theorem pool_conservation:
  fixes p :: "'c pool"
  assumes "ConnectionPool_new n create = Inr p" and "distinct p"
    and "pool_step\<^sup>*\<^sup>* \<lparr>sys_pool = p, sys_guards = []\<rparr> s"
  shows "mset (sys_pool s) + held (sys_guards s) = mset p \<and>
         (\<forall>g h c. uget (sys_guards s) g = Some (Some c) \<and> uget (sys_guards s) h = Some (Some c) \<longrightarrow> g = h) \<and>
         (sys_guards s = [] \<longrightarrow> ConnectionPool_available (sys_pool s) = n)"
proof -
  have ok: "umap_ok (sys_guards s)" and all: "mset (sys_pool s) + held (sys_guards s) = mset p"
    using pool_steps_conserve [OF assms(3)] by (simp_all add: all_conns_def)
  have "g = h" if "uget (sys_guards s) g = Some (Some c)" "uget (sys_guards s) h = Some (Some c)" for g h c
  proof (rule ccontr)
    assume "g \<noteq> h"
    then have "count (held (sys_guards s)) c \<ge> 2" using held_twice [OF ok that] by simp
    moreover have "count (held (sys_guards s)) c \<le> count (mset p) c" by (simp flip: all)
    moreover have "count (mset p) c \<le> 1" using assms(2) by (simp add: distinct_count_atmost_1)
    ultimately show False by linarith
  qed
  moreover have "length p = n"
    using create_loop_success [of 0 n create "[]" p] assms(1) by (simp add: ConnectionPool_new_def)
  moreover have "sys_guards s = [] \<Longrightarrow> length (sys_pool s) = length p"
    using all by (metis add.right_neutral held_Nil size_mset)
  ultimately show ?thesis
    using all by (auto simp: ConnectionPool_available_def)
qed

theorem pool_conservation_witness:
  "\<exists>s. pool_step\<^sup>*\<^sup>* \<lparr>sys_pool = [10, 11 :: nat], sys_guards = []\<rparr> s \<and>
       sys_guards s = [(0, Some 10)] \<and> mset (sys_pool s) + held (sys_guards s) = mset [10, 11]"
proof -
  let ?s = "\<lparr>sys_pool = [11 :: nat], sys_guards = [(0, Some 10)]\<rparr>"
  have new: "ConnectionPool_new 2 (\<lambda>i. Some (10 + i)) = Inr [10, 11 :: nat]"
    by (simp add: ConnectionPool_new_def numeral_2_eq_2)
  have "pool_step \<lparr>sys_pool = [10, 11 :: nat], sys_guards = []\<rparr> ?s"
    using pool_step.borrow [of "\<lparr>sys_pool = [10, 11 :: nat], sys_guards = []\<rparr>" 10 "[11]" 0]
    by (simp add: ConnectionPool_borrow_def)
  then have run: "pool_step\<^sup>*\<^sup>* \<lparr>sys_pool = [10, 11 :: nat], sys_guards = []\<rparr> ?s" by simp
  from pool_conservation [OF new _ run] run show ?thesis by auto
qed

text \<open>
  A pool that cannot be filled leaks nothing: if the connection with index \<open>k\<close> cannot be created, the
  constructor fails with that index and destroys exactly the connections created before it.
\<close>
theorem failed_pool_destroys_all:
  assumes "ConnectionPool_new n create = Inl (Create_failed k, d)"
  shows "k < n \<and> create k = None \<and> d = map (the \<circ> create) [0..<k]"
  using create_loop_failure [of 0 n create "[]" k d] assms by (simp add: ConnectionPool_new_def)

theorem failed_pool_destroys_all_witness:
  "ConnectionPool_new 4 (\<lambda>i. if i = 2 then None else Some i) = Inl (Create_failed 2, [0, 1]) \<and>
   [0, 1] = map (the \<circ> (\<lambda>i :: nat. if i = 2 then None else Some i)) [0..<2]"
proof -
  have r: "ConnectionPool_new 4 (\<lambda>i. if i = 2 then None else Some i) = Inl (Create_failed 2, [0, 1])"
    by (simp add: ConnectionPool_new_def numeral_eq_Suc)
  from failed_pool_destroys_all [OF r] r show ?thesis by simp
qed

end
