(* ===== verification/Storage.thy ===== *)
theory Storage
  imports Connection_Pool
begin

text \<open>
  What the storage clients share: the external services as parameters, computations that may fail,
  and the number conversions of the C++ library (\<open>std::to_string\<close>, \<open>std::stoull\<close>, \<open>std::stoi\<close>).
  Redis and MySQL are code outside the repository; an \<open>env\<close> gives their client calls, which act on
  a state of the outside world of any type.
\<close>

section \<open>External services\<close>

datatype redis_reply =
    Reply_Status string
  | Reply_Error string
  | Reply_Integer int
  | Reply_Nil
  | Reply_String string
  | Reply_Array "redis_reply list"

text \<open>A call either blocks for ever or gives a reply, which is null when the connection broke.\<close>

datatype redis_outcome = Blocks | Replies "redis_reply option"

record 'w env =
  redisCommand :: "nat \<Rightarrow> string list \<Rightarrow> 'w \<Rightarrow> redis_outcome \<times> 'w"
  mysql_query :: "nat \<Rightarrow> string \<Rightarrow> 'w \<Rightarrow> bool \<times> 'w"
  mysql_store_result :: "nat \<Rightarrow> 'w \<Rightarrow> string option list list option \<times> 'w"
  mysql_insert_id :: "nat \<Rightarrow> 'w \<Rightarrow> u64"
  mysql_real_escape_string :: "string \<Rightarrow> string"

section \<open>Computations\<close>

text \<open>The ways a storage operation fails: it waits for ever, corrupts memory or throws.\<close>

datatype fault =
    Pool_blocked
  | Command_blocked
  | Double_free
  | Bad_number
  | Null_pointer
  | Undefined
  | Payload_too_large

record 'w store =
  redis_pool :: "nat pool"
  mysql_pool :: "nat pool"
  world :: 'w

type_synonym ('w, 'a) io = "'w store \<Rightarrow> fault + 'a \<times> 'w store"

definition io_return :: "'a \<Rightarrow> ('w, 'a) io" where
  "io_return x = (\<lambda>s. Inr (x, s))"

definition io_fail :: "fault \<Rightarrow> ('w, 'a) io" where
  "io_fail f = (\<lambda>s. Inl f)"

definition io_bind :: "('w, 'a) io \<Rightarrow> ('a \<Rightarrow> ('w, 'b) io) \<Rightarrow> ('w, 'b) io" where
  "io_bind c f = (\<lambda>s. case c s of Inl e \<Rightarrow> Inl e | Inr (x, s') \<Rightarrow> f x s')"

named_theorems io_simps \<open>unfolding of storage computations\<close>

definition io_lift :: "fault + 'a \<Rightarrow> ('w, 'a) io" where
  "io_lift r = (\<lambda>s. case r of Inl e \<Rightarrow> Inl e | Inr x \<Rightarrow> Inr (x, s))"

lemma io_lift_result: "io_lift r s = Inr (x, s') \<longleftrightarrow> r = Inr x \<and> s' = s"
  by (auto simp: io_lift_def split: sum.splits)

lemma io_lift_Inr [simp, io_simps]: "io_lift (Inr x) s = Inr (x, s)"
  by (simp add: io_lift_def)

lemma io_return_apply [simp, io_simps]: "io_return x s = Inr (x, s)"
  by (simp add: io_return_def)

lemma io_fail_apply [simp, io_simps]: "io_fail f s = Inl f"
  by (simp add: io_fail_def)

lemma io_bind_Inr [simp, io_simps]: "c s = Inr (x, s') \<Longrightarrow> io_bind c f s = f x s'"
  by (simp add: io_bind_def)

lemma io_bind_Inl [simp, io_simps]: "c s = Inl e \<Longrightarrow> io_bind c f s = Inl e"
  by (simp add: io_bind_def)

lemma io_bind_result: "io_bind c f s = Inr r \<longleftrightarrow> (\<exists>x s'. c s = Inr (x, s') \<and> f x s' = Inr r)"
  by (auto simp: io_bind_def split: sum.splits prod.splits)

text \<open>A borrowed connection is given back when the guard goes out of scope.\<close>

definition with_redis :: "(nat \<Rightarrow> ('w, 'a) io) \<Rightarrow> ('w, 'a) io" where
  "with_redis f = (\<lambda>s. case ConnectionPool_borrow (redis_pool s) of
     None \<Rightarrow> Inl Pool_blocked
   | Some (c, p) \<Rightarrow> (case f c (s\<lparr>redis_pool := p\<rparr>) of
        Inl e \<Rightarrow> Inl e
      | Inr (x, s') \<Rightarrow> Inr (x, s'\<lparr>redis_pool := Guard_destroy (Some c) (redis_pool s')\<rparr>)))"

definition with_mysql :: "(nat \<Rightarrow> ('w, 'a) io) \<Rightarrow> ('w, 'a) io" where
  "with_mysql f = (\<lambda>s. case ConnectionPool_borrow (mysql_pool s) of
     None \<Rightarrow> Inl Pool_blocked
   | Some (c, p) \<Rightarrow> (case f c (s\<lparr>mysql_pool := p\<rparr>) of
        Inl e \<Rightarrow> Inl e
      | Inr (x, s') \<Rightarrow> Inr (x, s'\<lparr>mysql_pool := Guard_destroy (Some c) (mysql_pool s')\<rparr>)))"

section \<open>Clients\<close>

text \<open>
  What the Redis and the MySQL client have in common: the flag and the pool. An operation that drops
  a pool hands its connections to \<open>destroyConnection\<close>; the first component of the results below are the
  connections that were freed.
\<close>

record pool_client =
  cl_connected :: bool
  cl_pool :: "nat pool option"

definition pool_client_new :: pool_client where
  "pool_client_new = \<lparr>cl_connected = False, cl_pool = None\<rparr>"

definition drop_pool :: "nat pool option \<Rightarrow> nat list" where
  "drop_pool p = (case p of None \<Rightarrow> [] | Some q \<Rightarrow> ConnectionPool_destroy q)"

definition client_connect :: "(nat \<Rightarrow> nat option) \<Rightarrow> nat \<Rightarrow> pool_client \<Rightarrow> nat list \<times> bool \<times> pool_client" where
  "client_connect create pool_size cl =
     (case ConnectionPool_new pool_size create of
        Inl (e, freed) \<Rightarrow> (freed, False, cl)
      | Inr p \<Rightarrow> (drop_pool (cl_pool cl), True, \<lparr>cl_connected = True, cl_pool = Some p\<rparr>))"

definition client_close :: "pool_client \<Rightarrow> nat list \<times> pool_client" where
  "client_close cl = (drop_pool (cl_pool cl), cl\<lparr>cl_connected := False, cl_pool := None\<rparr>)"

section \<open>Strings and numbers\<close>

text \<open>\<open>std::string::c_str\<close> as a C function reads it: up to the first null character.\<close>

definition c_str :: "string \<Rightarrow> string" where
  "c_str s = takeWhile (\<lambda>c. c \<noteq> CHR 0x00) s"

definition digit_char :: "nat \<Rightarrow> char" where
  "digit_char d = char_of (48 + d)"

fun decimal :: "nat \<Rightarrow> string" where
  "decimal n = (if n < 10 then [digit_char n] else decimal (n div 10) @ [digit_char (n mod 10)])"

declare decimal.simps [simp del]

definition to_string_u64 :: "u64 \<Rightarrow> string" where
  "to_string_u64 w = decimal (unat w)"

definition to_string_int :: "int \<Rightarrow> string" where
  "to_string_int i = (if i < 0 then CHR ''-'' # decimal (nat (- i)) else decimal (nat i))"

definition is_space :: "char \<Rightarrow> bool" where
  "is_space c \<longleftrightarrow> of_char c \<in> {32 :: nat, 9, 10, 11, 12, 13}"

definition is_digit :: "char \<Rightarrow> bool" where
  "is_digit c \<longleftrightarrow> 48 \<le> (of_char c :: nat) \<and> (of_char c :: nat) \<le> 57"

definition digits_value :: "string \<Rightarrow> nat" where
  "digits_value s = foldl (\<lambda>n c. 10 * n + (of_char c - 48)) 0 s"

text \<open>The number at the front of a string: spaces, an optional sign, then at least one digit.\<close>

definition parse_number :: "string \<Rightarrow> (bool \<times> nat) option" where
  "parse_number s =
     (let t = dropWhile is_space s;
          neg = (t \<noteq> [] \<and> hd t = CHR ''-'');
          u = (if t \<noteq> [] \<and> (hd t = CHR ''-'' \<or> hd t = CHR ''+'') then tl t else t);
          ds = takeWhile is_digit u
      in if ds = [] then None else Some (neg, digits_value ds))"

text \<open>\<open>std::stoull\<close> throws without digits and out of range; a minus sign negates modulo \<open>2 ^ 64\<close>.\<close>

definition stoull :: "string \<Rightarrow> u64 option" where
  "stoull s =
     (case parse_number s of
        None \<Rightarrow> None
      | Some (neg, n) \<Rightarrow> if n \<ge> 2 ^ 64 then None else Some (if neg then - of_nat n else of_nat n))"

definition stoi :: "string \<Rightarrow> int option" where
  "stoi s =
     (case parse_number s of
        None \<Rightarrow> None
      | Some (neg, n) \<Rightarrow>
          let i = (if neg then - int n else int n) in if - (2 ^ 31) \<le> i \<and> i < 2 ^ 31 then Some i else None)"

lemma of_char_digit: "d < 10 \<Longrightarrow> of_char (digit_char d) = 48 + d"
  by (simp add: digit_char_def of_char_of)

lemma digit_char_facts:
  assumes "d < 10"
  shows "is_digit (digit_char d)" "\<not> is_space (digit_char d)" "digit_char d \<noteq> CHR ''-''" "digit_char d \<noteq> CHR ''+''"
    "digit_char d \<noteq> CHR 0x00"
proof -
  have v: "(of_char (digit_char d) :: nat) = 48 + d" by (rule of_char_digit [OF assms])
  show "is_digit (digit_char d)" "\<not> is_space (digit_char d)"
    unfolding is_digit_def is_space_def v using assms by auto
  show "digit_char d \<noteq> CHR ''-''" "digit_char d \<noteq> CHR ''+''" "digit_char d \<noteq> CHR 0x00"
    using v by auto
qed

lemma decimal_digits: "c \<in> set (decimal n) \<Longrightarrow> \<exists>d < 10. c = digit_char d"
proof (induction n rule: decimal.induct)
  case (1 n)
  show ?case
  proof (cases "n < 10")
    case True
    with 1 show ?thesis by (auto simp: decimal.simps [of n])
  next
    case False
    with 1(2) have "c \<in> set (decimal (n div 10)) \<or> c = digit_char (n mod 10)"
      by (auto simp: decimal.simps [of n])
    then show ?thesis using 1(1) [OF False] by (metis mod_less_divisor zero_less_numeral)
  qed
qed

lemma decimal_nonempty [simp]: "decimal n \<noteq> []"
  by (subst decimal.simps) simp

lemma digits_value_decimal: "digits_value (decimal n) = n"
proof (induction n rule: decimal.induct)
  case (1 n)
  show ?case
  proof (cases "n < 10")
    case True
    then show ?thesis by (simp add: decimal.simps [of n] digits_value_def of_char_digit)
  next
    case False
    from 1 [OF False] False show ?thesis
      by (simp add: decimal.simps [of n] digits_value_def of_char_digit)
  qed
qed

lemma parse_decimal: "parse_number (decimal n) = Some (False, n)"
proof -
  have all: "is_digit c \<and> \<not> is_space c \<and> c \<noteq> CHR ''-'' \<and> c \<noteq> CHR ''+''" if "c \<in> set (decimal n)" for c
  proof -
    obtain d where "d < 10" "c = digit_char d" using decimal_digits [OF \<open>c \<in> set (decimal n)\<close>] by blast
    then show ?thesis using digit_char_facts [of d] by simp
  qed
  obtain c cs where c: "decimal n = c # cs" by (cases "decimal n") auto
  then have h: "\<not> is_space c" "c \<noteq> CHR ''-''" "c \<noteq> CHR ''+''" using all by auto
  have "takeWhile is_digit (decimal n) = decimal n" using all by (simp add: takeWhile_eq_all_conv)
  then show ?thesis
    using h c digits_value_decimal [of n] by (simp add: parse_number_def)
qed

text \<open>What \<open>to_string\<close> prints, \<open>stoull\<close> reads back.\<close>

lemma stoull_to_string: "stoull (to_string_u64 w) = Some w"
  using unsigned_less [of w, where 'a = nat] by (simp add: stoull_def to_string_u64_def parse_decimal)

lemma c_str_decimal [simp]: "c_str (decimal n) = decimal n"
proof -
  have "c \<noteq> CHR 0x00" if "c \<in> set (decimal n)" for c
    using decimal_digits [OF that] digit_char_facts(5) by metis
  then show ?thesis by (simp add: c_str_def takeWhile_eq_all_conv)
qed

lemma c_str_append: "CHR 0x00 \<notin> set s \<Longrightarrow> c_str (s @ t) = s @ c_str t"
  by (induction s) (auto simp: c_str_def)

end
