(* ===== verification/Redis_Client.thy ===== *)
theory Redis_Client
  imports Storage
begin

text \<open>
  \<open>src/src/storage/redis_client.{h,cpp}\<close>: each method borrows a connection, sends one command, checks
  the reply and frees it. \<open>checkReply\<close> frees the reply itself when it refuses it, and the callers free
  it again: the model keeps track of whether a reply has been freed, so the second free is a fault.
\<close>

section \<open>Replies\<close>

fun reply_type :: "redis_reply \<Rightarrow> int" where
  "reply_type (Reply_String _) = 1"
| "reply_type (Reply_Array _) = 2"
| "reply_type (Reply_Integer _) = 3"
| "reply_type Reply_Nil = 4"
| "reply_type (Reply_Status _) = 5"
| "reply_type (Reply_Error _) = 6"

definition REDIS_REPLY_ARRAY :: int where "REDIS_REPLY_ARRAY = 2"
definition REDIS_REPLY_INTEGER :: int where "REDIS_REPLY_INTEGER = 3"
definition REDIS_REPLY_NIL :: int where "REDIS_REPLY_NIL = 4"
definition REDIS_REPLY_STATUS :: int where "REDIS_REPLY_STATUS = 5"
definition REDIS_REPLY_ERROR :: int where "REDIS_REPLY_ERROR = 6"

lemmas reply_types = REDIS_REPLY_ARRAY_def REDIS_REPLY_INTEGER_def REDIS_REPLY_NIL_def
  REDIS_REPLY_STATUS_def REDIS_REPLY_ERROR_def

text \<open>The \<open>str\<close> field: the text of string, status and error replies, empty otherwise.\<close>

fun reply_str :: "redis_reply \<Rightarrow> string" where
  "reply_str (Reply_String s) = s"
| "reply_str (Reply_Status s) = s"
| "reply_str (Reply_Error s) = s"
| "reply_str _ = []"

fun reply_integer :: "redis_reply \<Rightarrow> int" where
  "reply_integer (Reply_Integer i) = i"
| "reply_integer _ = 0"

fun reply_elements :: "redis_reply \<Rightarrow> redis_reply list" where
  "reply_elements (Reply_Array rs) = rs"
| "reply_elements _ = []"

text \<open>\<open>checkReply\<close>: its result, and whether it has freed the reply.\<close>

definition RedisClient_checkReply :: "redis_reply option \<Rightarrow> int \<Rightarrow> bool \<times> bool" where
  "RedisClient_checkReply reply expected_type =
     (case reply of
        None \<Rightarrow> (False, False)
      | Some r \<Rightarrow>
          if reply_type r = REDIS_REPLY_ERROR then (False, True)
          else if expected_type \<ge> 0 \<and> reply_type r \<noteq> expected_type then (False, True)
          else (True, False))"

text \<open>\<open>if (reply) freeReplyObject(reply)\<close>\<close>

definition free_reply :: "redis_reply option \<Rightarrow> bool \<Rightarrow> ('w, unit) io" where
  "free_reply reply freed =
     (if reply = None then io_return () else if freed then io_fail Double_free else io_return ())"

definition redis_cmd :: "'w env \<Rightarrow> nat \<Rightarrow> string list \<Rightarrow> ('w, redis_reply option) io" where
  "redis_cmd env ctx args = (\<lambda>s. case redisCommand env ctx args (world s) of
     (Blocks, w) \<Rightarrow> Inl Command_blocked
   | (Replies r, w) \<Rightarrow> Inr (r, s\<lparr>world := w\<rparr>))"

text \<open>The two shapes of the methods: report the check, or use the reply when the check succeeds.\<close>

definition checked_command :: "'w env \<Rightarrow> string list \<Rightarrow> int \<Rightarrow> ('w, bool) io" where
  "checked_command env args expected =
     with_redis (\<lambda>ctx. io_bind (redis_cmd env ctx args) (\<lambda>reply.
       let (ok, freed) = RedisClient_checkReply reply expected
       in io_bind (free_reply reply freed) (\<lambda>_. io_return ok)))"

definition command_result :: "'w env \<Rightarrow> string list \<Rightarrow> int \<Rightarrow> 'a \<Rightarrow> (redis_reply \<Rightarrow> 'a) \<Rightarrow> ('w, 'a) io" where
  "command_result env args expected def use =
     with_redis (\<lambda>ctx. io_bind (redis_cmd env ctx args) (\<lambda>reply.
       let (ok, freed) = RedisClient_checkReply reply expected
       in if \<not> ok then io_bind (free_reply reply freed) (\<lambda>_. io_return def)
          else (case reply of
                  None \<Rightarrow> io_fail Null_pointer
                | Some r \<Rightarrow> io_bind (free_reply reply freed) (\<lambda>_. io_return (use r)))))"

section \<open>Connecting\<close>

text \<open>\<open>redisConnect\<close> gives nothing, or a context that may carry an error; such a context is freed.\<close>

definition RedisClient_createConnection :: "(nat \<times> bool) option \<Rightarrow> nat option" where
  "RedisClient_createConnection c = (case c of None \<Rightarrow> None | Some (ctx, err) \<Rightarrow> if err then None else Some ctx)"

text \<open>A pool that cannot be filled leaves the client as it was.\<close>

definition RedisClient_connect :: "(nat \<Rightarrow> (nat \<times> bool) option) \<Rightarrow> nat \<Rightarrow> pool_client \<Rightarrow> nat list \<times> bool \<times> pool_client" where
  "RedisClient_connect dial = client_connect (\<lambda>i. RedisClient_createConnection (dial i))"

definition RedisClient_close :: "pool_client \<Rightarrow> nat list \<times> pool_client" where
  "RedisClient_close = client_close"

definition RedisClient_destroy :: "pool_client \<Rightarrow> nat list" where
  "RedisClient_destroy cl = fst (RedisClient_close cl)"

definition RedisClient_isConnected :: "pool_client \<Rightarrow> bool" where
  "RedisClient_isConnected cl = cl_connected cl"

section \<open>Generic commands\<close>

definition RedisClient_set :: "'w env \<Rightarrow> string \<Rightarrow> string \<Rightarrow> ('w, bool) io" where
  "RedisClient_set env key value = checked_command env [''SET'', c_str key, c_str value] REDIS_REPLY_STATUS"

definition RedisClient_setEx :: "'w env \<Rightarrow> string \<Rightarrow> int \<Rightarrow> string \<Rightarrow> ('w, bool) io" where
  "RedisClient_setEx env key ttl_sec value =
     checked_command env [''SETEX'', c_str key, to_string_int ttl_sec, c_str value] REDIS_REPLY_STATUS"

definition RedisClient_get :: "'w env \<Rightarrow> string \<Rightarrow> ('w, string option) io" where
  "RedisClient_get env key =
     command_result env [''GET'', c_str key] (- 1) None
       (\<lambda>r. if reply_type r = REDIS_REPLY_NIL then None else Some (reply_str r))"

definition RedisClient_del :: "'w env \<Rightarrow> string \<Rightarrow> ('w, bool) io" where
  "RedisClient_del env key =
     with_redis (\<lambda>ctx. io_bind (redis_cmd env ctx [''DEL'', c_str key]) (\<lambda>reply.
       io_bind (free_reply reply False) (\<lambda>_. io_return True)))"

definition RedisClient_expire :: "'w env \<Rightarrow> string \<Rightarrow> int \<Rightarrow> ('w, bool) io" where
  "RedisClient_expire env key ttl_sec =
     checked_command env [''EXPIRE'', c_str key, to_string_int ttl_sec] REDIS_REPLY_INTEGER"

definition RedisClient_exists :: "'w env \<Rightarrow> string \<Rightarrow> ('w, bool) io" where
  "RedisClient_exists env key =
     command_result env [''EXISTS'', c_str key] REDIS_REPLY_INTEGER False (\<lambda>r. reply_integer r = 1)"

section \<open>Lists\<close>

definition RedisClient_lpush :: "'w env \<Rightarrow> string \<Rightarrow> string \<Rightarrow> ('w, int) io" where
  "RedisClient_lpush env key value =
     command_result env [''LPUSH'', c_str key, c_str value] REDIS_REPLY_INTEGER 0 reply_integer"

definition RedisClient_brpop :: "'w env \<Rightarrow> string \<Rightarrow> int \<Rightarrow> ('w, string option) io" where
  "RedisClient_brpop env key timeout_sec =
     command_result env [''BRPOP'', c_str key, to_string_int timeout_sec] REDIS_REPLY_ARRAY None
       (\<lambda>r. if length (reply_elements r) < 2 then None else Some (reply_str (reply_elements r ! 1)))"

definition RedisClient_llen :: "'w env \<Rightarrow> string \<Rightarrow> ('w, int) io" where
  "RedisClient_llen env key = command_result env [''LLEN'', c_str key] REDIS_REPLY_INTEGER 0 reply_integer"

section \<open>Keys of the server\<close>

definition RedisClient_makeKey :: "string \<Rightarrow> u64 \<Rightarrow> string" where
  "RedisClient_makeKey prefix i = prefix @ '':'' @ to_string_u64 i"

definition RedisClient_setSession :: "'w env \<Rightarrow> u64 \<Rightarrow> string \<Rightarrow> int \<Rightarrow> ('w, unit) io" where
  "RedisClient_setSession env sid data ttl_sec =
     io_bind (RedisClient_setEx env (RedisClient_makeKey ''session'' sid) ttl_sec data) (\<lambda>_. io_return ())"

definition RedisClient_getSession :: "'w env \<Rightarrow> u64 \<Rightarrow> ('w, string option) io" where
  "RedisClient_getSession env sid = RedisClient_get env (RedisClient_makeKey ''session'' sid)"

definition RedisClient_delSession :: "'w env \<Rightarrow> u64 \<Rightarrow> ('w, unit) io" where
  "RedisClient_delSession env sid =
     io_bind (RedisClient_del env (RedisClient_makeKey ''session'' sid)) (\<lambda>_. io_return ())"

definition RedisClient_setOnline :: "'w env \<Rightarrow> u64 \<Rightarrow> u64 \<Rightarrow> ('w, unit) io" where
  "RedisClient_setOnline env pid sid =
     io_bind (RedisClient_set env (RedisClient_makeKey ''online'' pid) (to_string_u64 sid)) (\<lambda>_. io_return ())"

text \<open>\<open>if (!val) return std::nullopt; return std::stoull(*val);\<close>\<close>

definition to_u64 :: "string option \<Rightarrow> ('w, u64 option) io" where
  "to_u64 val =
     (case val of
        None \<Rightarrow> io_return None
      | Some v \<Rightarrow> (case stoull v of None \<Rightarrow> io_fail Bad_number | Some n \<Rightarrow> io_return (Some n)))"

definition RedisClient_getOnline :: "'w env \<Rightarrow> u64 \<Rightarrow> ('w, u64 option) io" where
  "RedisClient_getOnline env pid = io_bind (RedisClient_get env (RedisClient_makeKey ''online'' pid)) to_u64"

definition RedisClient_delOnline :: "'w env \<Rightarrow> u64 \<Rightarrow> ('w, unit) io" where
  "RedisClient_delOnline env pid =
     io_bind (RedisClient_del env (RedisClient_makeKey ''online'' pid)) (\<lambda>_. io_return ())"

definition match_queue_key :: "int \<Rightarrow> string" where
  "match_queue_key mode = ''match_queue:'' @ to_string_int mode"

definition RedisClient_pushMatchQueue :: "'w env \<Rightarrow> int \<Rightarrow> u64 \<Rightarrow> ('w, unit) io" where
  "RedisClient_pushMatchQueue env mode pid =
     io_bind (RedisClient_lpush env (match_queue_key mode) (to_string_u64 pid)) (\<lambda>_. io_return ())"

definition RedisClient_popMatchQueue :: "'w env \<Rightarrow> int \<Rightarrow> int \<Rightarrow> ('w, u64 option) io" where
  "RedisClient_popMatchQueue env mode timeout_sec =
     io_bind (RedisClient_brpop env (match_queue_key mode) timeout_sec) to_u64"

text \<open>\<open>static_cast<int>\<close> of a 64-bit count.\<close>

definition int_of_int64 :: "int \<Rightarrow> int" where
  "int_of_int64 i = (i + 2 ^ 31) mod 2 ^ 32 - 2 ^ 31"

definition RedisClient_matchQueueSize :: "'w env \<Rightarrow> int \<Rightarrow> ('w, int) io" where
  "RedisClient_matchQueueSize env mode =
     io_bind (RedisClient_llen env (match_queue_key mode)) (\<lambda>n. io_return (int_of_int64 n))"

definition RedisClient_setRoomRoute :: "'w env \<Rightarrow> u64 \<Rightarrow> string \<Rightarrow> ('w, unit) io" where
  "RedisClient_setRoomRoute env rid addr =
     io_bind (RedisClient_set env (RedisClient_makeKey ''room'' rid) addr) (\<lambda>_. io_return ())"

definition RedisClient_getRoomRoute :: "'w env \<Rightarrow> u64 \<Rightarrow> ('w, string option) io" where
  "RedisClient_getRoomRoute env rid = RedisClient_get env (RedisClient_makeKey ''room'' rid)"

definition RedisClient_delRoomRoute :: "'w env \<Rightarrow> u64 \<Rightarrow> ('w, unit) io" where
  "RedisClient_delRoomRoute env rid =
     io_bind (RedisClient_del env (RedisClient_makeKey ''room'' rid)) (\<lambda>_. io_return ())"

definition RedisClient_cachePlayer :: "'w env \<Rightarrow> string \<Rightarrow> u64 \<Rightarrow> ('w, unit) io" where
  "RedisClient_cachePlayer env username pid =
     io_bind (RedisClient_set env (''player:'' @ username) (to_string_u64 pid)) (\<lambda>_. io_return ())"

definition RedisClient_getCachedPlayer :: "'w env \<Rightarrow> string \<Rightarrow> ('w, u64 option) io" where
  "RedisClient_getCachedPlayer env username = io_bind (RedisClient_get env (''player:'' @ username)) to_u64"

section \<open>Outcomes of a command\<close>

definition pool_ready :: "'w store \<Rightarrow> bool" where
  "pool_ready s \<longleftrightarrow> redis_pool s \<noteq> []"

text \<open>What the pool and the world are after one command on the front connection.\<close>

definition after_command :: "'w store \<Rightarrow> 'w \<Rightarrow> 'w store" where
  "after_command s w = s\<lparr>redis_pool := tl (redis_pool s) @ [hd (redis_pool s)], world := w\<rparr>"

lemma after_command_ready [simp]: "pool_ready (after_command s w)"
  by (simp add: pool_ready_def after_command_def)

lemma after_command_world [simp]: "world (after_command s w) = w"
  by (simp add: after_command_def)

lemmas command_defs = with_redis_def ConnectionPool_borrow_def Guard_destroy_def ConnectionPool_returnConn_def
  redis_cmd_def free_reply_def RedisClient_checkReply_def io_bind_def io_return_def io_fail_def

lemma checked_command_outcome:
  assumes "pool_ready s" and "redisCommand env (hd (redis_pool s)) args (world s) = (Replies (Some r), w)"
  shows "checked_command env args expected s =
     (if fst (RedisClient_checkReply (Some r) expected) then Inr (True, after_command s w) else Inl Double_free)"
  using assms
  by (cases "redis_pool s")
    (auto simp: checked_command_def command_defs pool_ready_def after_command_def split: if_splits)

lemma command_result_outcome:
  assumes "pool_ready s" and "redisCommand env (hd (redis_pool s)) args (world s) = (Replies (Some r), w)"
  shows "command_result env args expected def use s =
     (if fst (RedisClient_checkReply (Some r) expected) then Inr (use r, after_command s w) else Inl Double_free)"
  using assms
  by (cases "redis_pool s")
    (auto simp: command_result_def command_defs pool_ready_def after_command_def split: if_splits)

section \<open>The match queue\<close>

text \<open>
  What the match queue relies on: the documented behaviour of the list commands of Redis. \<open>lst\<close> reads
  the lists of the server. LPUSH adds at the head and replies with the new length, LLEN replies with
  the length, BRPOP takes the last element and replies with the key and the element, or waits when
  the list is empty and the timeout is zero.
\<close>

definition list_server :: "'w env \<Rightarrow> ('w \<Rightarrow> string \<Rightarrow> string list) \<Rightarrow> bool" where
  "list_server env lst \<longleftrightarrow>
     (\<forall>ctx k v w. \<exists>w'. redisCommand env ctx [''LPUSH'', k, v] w =
          (Replies (Some (Reply_Integer (int (length (lst w k)) + 1))), w') \<and> lst w' = (lst w)(k := v # lst w k)) \<and>
     (\<forall>ctx k w. \<exists>w'. redisCommand env ctx [''LLEN'', k] w =
          (Replies (Some (Reply_Integer (int (length (lst w k))))), w') \<and> lst w' = lst w) \<and>
     (\<forall>ctx k t w. lst w k \<noteq> [] \<longrightarrow> (\<exists>w'. redisCommand env ctx [''BRPOP'', k, t] w =
          (Replies (Some (Reply_Array [Reply_String k, Reply_String (last (lst w k))])), w') \<and>
          lst w' = (lst w)(k := butlast (lst w k)))) \<and>
     (\<forall>ctx k w. lst w k = [] \<longrightarrow> redisCommand env ctx [''BRPOP'', k, ''0''] w = (Blocks, w))"

text \<open>The players waiting in a mode, the one who joined first in front.\<close>

definition waiting :: "('w \<Rightarrow> string \<Rightarrow> string list) \<Rightarrow> int \<Rightarrow> 'w store \<Rightarrow> u64 list \<Rightarrow> bool" where
  "waiting lst mode s ps \<longleftrightarrow> pool_ready s \<and> lst (world s) (match_queue_key mode) = rev (map to_string_u64 ps)"

lemma c_str_key [simp]: "c_str (match_queue_key mode) = match_queue_key mode"
proof -
  have "c_str (to_string_int mode) = to_string_int mode"
    using c_str_append [of "[CHR ''-'']" "decimal (nat (- mode))"] by (simp add: to_string_int_def)
  then show ?thesis
    unfolding match_queue_key_def by (subst c_str_append) simp_all
qed

lemma c_str_u64 [simp]: "c_str (to_string_u64 w) = to_string_u64 w"
  by (simp add: to_string_u64_def)

lemma push_waiting:
  assumes "list_server env lst" and "waiting lst mode s ps"
  shows "\<exists>s'. RedisClient_pushMatchQueue env mode p s = Inr ((), s') \<and> waiting lst mode s' (ps @ [p])"
proof -
  have ready: "pool_ready s" and q: "lst (world s) (match_queue_key mode) = rev (map to_string_u64 ps)"
    using assms(2) by (simp_all add: waiting_def)
  obtain w where c: "redisCommand env (hd (redis_pool s)) [''LPUSH'', match_queue_key mode, to_string_u64 p] (world s)
      = (Replies (Some (Reply_Integer (int (length (lst (world s) (match_queue_key mode))) + 1))), w)"
    and w: "lst w = (lst (world s))(match_queue_key mode := to_string_u64 p # lst (world s) (match_queue_key mode))"
    using assms(1) unfolding list_server_def by meson
  have
    "RedisClient_lpush env (match_queue_key mode) (to_string_u64 p) s =
       Inr (int (length (lst (world s) (match_queue_key mode))) + 1, after_command s w)"
    by (simp add: RedisClient_lpush_def command_result_outcome [OF ready c] RedisClient_checkReply_def reply_types)
  then show ?thesis
    using w q by (simp add: RedisClient_pushMatchQueue_def waiting_def)
qed

lemma pop_waiting:
  assumes "list_server env lst" and "waiting lst mode s (p # ps)"
  shows "\<exists>s'. RedisClient_popMatchQueue env mode t s = Inr (Some p, s') \<and> waiting lst mode s' ps"
proof -
  have ready: "pool_ready s" and q: "lst (world s) (match_queue_key mode) = rev (map to_string_u64 (p # ps))"
    using assms(2) by (simp_all add: waiting_def)
  then have ne: "lst (world s) (match_queue_key mode) \<noteq> []" by simp
  obtain w where c: "redisCommand env (hd (redis_pool s)) [''BRPOP'', match_queue_key mode, to_string_int t] (world s)
      = (Replies (Some (Reply_Array [Reply_String (match_queue_key mode),
            Reply_String (last (lst (world s) (match_queue_key mode)))])), w)"
    and w: "lst w = (lst (world s))(match_queue_key mode := butlast (lst (world s) (match_queue_key mode)))"
    using assms(1) ne unfolding list_server_def by meson
  have
    "RedisClient_brpop env (match_queue_key mode) t s = Inr (Some (to_string_u64 p), after_command s w)"
    using q by (simp add: RedisClient_brpop_def command_result_outcome [OF ready c] RedisClient_checkReply_def reply_types)
  then show ?thesis
    using w q by (simp add: RedisClient_popMatchQueue_def to_u64_def stoull_to_string waiting_def)
qed

lemma int_of_int64_small: "0 \<le> i \<Longrightarrow> i < 2 ^ 31 \<Longrightarrow> int_of_int64 i = i"
  by (simp add: int_of_int64_def)

lemma size_waiting:
  assumes "list_server env lst" and "waiting lst mode s ps" and "length ps < 2 ^ 31"
  shows "\<exists>s'. RedisClient_matchQueueSize env mode s = Inr (int (length ps), s') \<and> waiting lst mode s' ps"
proof -
  have ready: "pool_ready s" and q: "lst (world s) (match_queue_key mode) = rev (map to_string_u64 ps)"
    using assms(2) by (simp_all add: waiting_def)
  obtain w where c: "redisCommand env (hd (redis_pool s)) [''LLEN'', match_queue_key mode] (world s)
      = (Replies (Some (Reply_Integer (int (length (lst (world s) (match_queue_key mode)))))), w)"
    and w: "lst w = lst (world s)"
    using assms(1) unfolding list_server_def by meson
  have
    "RedisClient_llen env (match_queue_key mode) s = Inr (int (length ps), after_command s w)"
    using q by (simp add: RedisClient_llen_def command_result_outcome [OF ready c] RedisClient_checkReply_def reply_types)
  then show ?thesis
    using w q assms(3) by (simp add: RedisClient_matchQueueSize_def waiting_def int_of_int64_small)
qed

text \<open>Several players join, several are taken.\<close>

fun push_players :: "'w env \<Rightarrow> int \<Rightarrow> u64 list \<Rightarrow> ('w, unit) io" where
  "push_players env mode [] = io_return ()"
| "push_players env mode (p # ps) = io_bind (RedisClient_pushMatchQueue env mode p) (\<lambda>_. push_players env mode ps)"

fun pop_players :: "'w env \<Rightarrow> int \<Rightarrow> nat \<Rightarrow> ('w, u64 option list) io" where
  "pop_players env mode 0 = io_return []"
| "pop_players env mode (Suc n) =
     io_bind (RedisClient_popMatchQueue env mode 0) (\<lambda>p. io_bind (pop_players env mode n) (\<lambda>ps. io_return (p # ps)))"

lemma push_players_waiting:
  assumes "list_server env lst"
  shows "waiting lst mode s qs \<Longrightarrow> \<exists>s'. push_players env mode ps s = Inr ((), s') \<and> waiting lst mode s' (qs @ ps)"
proof (induction ps arbitrary: s qs)
  case Nil
  then show ?case by simp
next
  case (Cons p ps)
  obtain s1 where "RedisClient_pushMatchQueue env mode p s = Inr ((), s1)" "waiting lst mode s1 (qs @ [p])"
    using push_waiting [OF assms Cons.prems] by blast
  with Cons.IH [of s1 "qs @ [p]"] show ?case by auto
qed

lemma pop_players_waiting:
  assumes "list_server env lst"
  shows "waiting lst mode s (ps @ qs) \<Longrightarrow>
         \<exists>s'. pop_players env mode (length ps) s = Inr (map Some ps, s') \<and> waiting lst mode s' qs"
proof (induction ps arbitrary: s)
  case Nil
  then show ?case by simp
next
  case (Cons p ps)
  obtain s1 where s1: "RedisClient_popMatchQueue env mode 0 s = Inr (Some p, s1)" "waiting lst mode s1 (ps @ qs)"
    using pop_waiting [OF assms, of mode s p "ps @ qs" 0] Cons.prems by auto
  from Cons.IH [OF s1(2)] obtain s2 where "pop_players env mode (length ps) s1 = Inr (map Some ps, s2)"
    "waiting lst mode s2 qs" by blast
  with s1 show ?case by simp
qed

section \<open>Properties\<close>

text \<open>A server that keeps its lists in a function from keys, for the examples.\<close>

definition example_redis :: "nat \<Rightarrow> string list \<Rightarrow> (string \<Rightarrow> string list) \<Rightarrow> redis_outcome \<times> (string \<Rightarrow> string list)" where
  "example_redis ctx args w =
     (case args of
        [c, k] \<Rightarrow>
          if c = ''LLEN'' then (Replies (Some (Reply_Integer (int (length (w k))))), w)
          else if c = ''GET'' then (Replies (Some (if w k = [] then Reply_Nil else Reply_String (hd (w k)))), w)
          else (Replies (Some (Reply_Integer 1)), w(k := []))
      | [c, k, v] \<Rightarrow>
          if c = ''LPUSH'' then (Replies (Some (Reply_Integer (int (length (w k)) + 1))), w(k := v # w k))
          else if c = ''BRPOP'' then
            (if w k = [] then (if v = ''0'' then Blocks else Replies (Some Reply_Nil), w)
             else (Replies (Some (Reply_Array [Reply_String k, Reply_String (last (w k))])), w(k := butlast (w k))))
          else (Replies (Some (Reply_Status ''OK'')), w(k := [v]))
      | [c, k, t, v] \<Rightarrow> (Replies (Some (Reply_Status ''OK'')), w(k := [v]))
      | _ \<Rightarrow> (Replies (Some (Reply_Error ''ERR'')), w))"

definition example_env :: "(string \<Rightarrow> string list) env" where
  "example_env =
     \<lparr>redisCommand = example_redis, mysql_query = (\<lambda>c q w. (True, w)),
      mysql_store_result = (\<lambda>c w. (Some [[Some ''7'', Some ''alice'', Some ''secret'', None, None, None]], w)),
      mysql_insert_id = (\<lambda>c w. 7), mysql_real_escape_string = (\<lambda>s. s)\<rparr>"

definition example_store :: "(string \<Rightarrow> string list) store" where
  "example_store = \<lparr>redis_pool = [0, 1], mysql_pool = [0], world = (\<lambda>k. [])\<rparr>"

lemma example_list_server: "list_server example_env (\<lambda>w. w)"
  by (simp add: list_server_def example_env_def example_redis_def)

text \<open>
  The match queue is first in, first out and loses nobody: on a server whose list commands behave as
  documented, players who join a mode are taken from the queue in the order in which they joined, each
  exactly once, with their ids intact after the trip through decimal text, and joining and taking never
  fails as long as the queue holds enough players.
\<close>
theorem match_queue_fifo:
  assumes "list_server env lst" and "waiting lst mode s []"
  shows "\<exists>s1 s2. push_players env mode (ps @ qs) s = Inr ((), s1) \<and>
           pop_players env mode (length ps) s1 = Inr (map Some ps, s2) \<and> waiting lst mode s2 qs"
proof -
  obtain s1 where "push_players env mode (ps @ qs) s = Inr ((), s1)" and s1: "waiting lst mode s1 (ps @ qs)"
    using push_players_waiting [OF assms, of "ps @ qs"] by auto
  with pop_players_waiting [OF assms(1) s1] show ?thesis by blast
qed

theorem match_queue_fifo_witness:
  "\<exists>s1 s2. push_players example_env 0 [5, 3, 9] example_store = Inr ((), s1) \<and>
           pop_players example_env 0 2 s1 = Inr ([Some 5, Some 3], s2)"
proof -
  have w: "waiting (\<lambda>w. w) 0 example_store []"
    by (simp add: waiting_def pool_ready_def example_store_def)
  obtain s1 s2 where "push_players example_env 0 ([5, 3] @ [9]) example_store = Inr ((), s1)"
    "pop_players example_env 0 (length [5 :: u64, 3]) s1 = Inr (map Some [5, 3], s2)"
    using match_queue_fifo [OF example_list_server w] by blast
  then show ?thesis by (simp add: numeral_2_eq_2)
qed

text \<open>
  C37. A refused reply is freed twice: when Redis answers with an error, or with a reply of another type
  than the method expects (as for a BRPOP that times out with a nil reply), \<open>checkReply\<close> frees the
  reply and the caller frees it again.
\<close>
theorem refused_reply_freed_twice:
  assumes "redis_pool s \<noteq> []"
  shows "(fst (redisCommand env (hd (redis_pool s)) [''SET'', c_str key, c_str val] (world s)) = Replies (Some (Reply_Error e)) \<longrightarrow>
            RedisClient_set env key val s = Inl Double_free) \<and>
         (fst (redisCommand env (hd (redis_pool s)) [''BRPOP'', c_str key, to_string_int t] (world s)) = Replies (Some Reply_Nil) \<longrightarrow>
            RedisClient_brpop env key t s = Inl Double_free)"
proof -
  have ready: "pool_ready s" using assms(1) by (simp add: pool_ready_def)
  have c: "redisCommand env (hd (redis_pool s)) args (world s) = (Replies (Some r), snd (redisCommand env (hd (redis_pool s)) args (world s)))"
    if "fst (redisCommand env (hd (redis_pool s)) args (world s)) = Replies (Some r)" for args r
    using that by (metis prod.collapse)
  show ?thesis
    by (simp add: RedisClient_set_def RedisClient_brpop_def RedisClient_checkReply_def reply_types
        checked_command_outcome [OF ready c] command_result_outcome [OF ready c])
qed

theorem refused_reply_freed_twice_witness:
  "RedisClient_brpop example_env ''empty'' 1 example_store = Inl Double_free"
proof -
  have "redis_pool example_store \<noteq> []" by (simp add: example_store_def)
  moreover have "fst (redisCommand example_env (hd (redis_pool example_store)) [''BRPOP'', c_str ''empty'', to_string_int 1] (world example_store))
      = Replies (Some Reply_Nil)"
  proof -
    have "to_string_int 1 = ''1''" by code_simp
    then show ?thesis by (simp add: example_env_def example_redis_def example_store_def)
  qed
  ultimately show ?thesis using refused_reply_freed_twice [of example_store example_env "''empty''" "[]" "[]" 1] by blast
qed

end
