(* ===== verification/Mysql_Client.thy ===== *)
theory Mysql_Client
  imports Storage
begin

text \<open>
  \<open>src/src/storage/mysql_client.{h,cpp}\<close> and \<open>PlayerRecord\<close> of \<open>game/player.h\<close>: the queries of the
  server, with the SQL text the methods build. The MySQL client library is a parameter.
\<close>

record player_record =
  pr_id :: u64
  pr_username :: string
  pr_password_hash :: string
  pr_rating :: int
  pr_total_games :: int
  pr_wins :: int

text \<open>\<open>mysql_init\<close> gives a handle or nothing, \<open>mysql_real_connect\<close> succeeds on it or not.\<close>

definition MysqlClient_createConnection :: "(nat \<times> bool) option \<Rightarrow> nat option" where
  "MysqlClient_createConnection c =
     (case c of None \<Rightarrow> None | Some (conn, connected) \<Rightarrow> if connected then Some conn else None)"

definition MysqlClient_connect :: "(nat \<Rightarrow> (nat \<times> bool) option) \<Rightarrow> nat \<Rightarrow> pool_client \<Rightarrow> nat list \<times> bool \<times> pool_client" where
  "MysqlClient_connect dial = client_connect (\<lambda>i. MysqlClient_createConnection (dial i))"

definition MysqlClient_close :: "pool_client \<Rightarrow> nat list \<times> pool_client" where
  "MysqlClient_close = client_close"

definition MysqlClient_destroy :: "pool_client \<Rightarrow> nat list" where
  "MysqlClient_destroy cl = fst (MysqlClient_close cl)"

definition MysqlClient_isConnected :: "pool_client \<Rightarrow> bool" where
  "MysqlClient_isConnected cl = cl_connected cl"

definition query :: "'w env \<Rightarrow> nat \<Rightarrow> string \<Rightarrow> ('w, bool) io" where
  "query env conn sql = (\<lambda>s. case mysql_query env conn (c_str sql) (world s) of (ok, w) \<Rightarrow> Inr (ok, s\<lparr>world := w\<rparr>))"

definition store_result :: "'w env \<Rightarrow> nat \<Rightarrow> ('w, string option list list option) io" where
  "store_result env conn = (\<lambda>s. case mysql_store_result env conn (world s) of (r, w) \<Rightarrow> Inr (r, s\<lparr>world := w\<rparr>))"

definition insert_id :: "'w env \<Rightarrow> nat \<Rightarrow> ('w, u64) io" where
  "insert_id env conn = (\<lambda>s. Inr (mysql_insert_id env conn (world s), s))"

definition MysqlClient_execute :: "'w env \<Rightarrow> string \<Rightarrow> ('w, bool) io" where
  "MysqlClient_execute env sql = with_mysql (\<lambda>conn. query env conn sql)"

definition MysqlClient_escape :: "'w env \<Rightarrow> string \<Rightarrow> ('w, string) io" where
  "MysqlClient_escape env str = with_mysql (\<lambda>conn. io_return (mysql_real_escape_string env str))"

definition quoted :: "string \<Rightarrow> string" where
  "quoted s = CHR 0x27 # s @ [CHR 0x27]"

definition select_player_sql :: "'w env \<Rightarrow> string \<Rightarrow> string" where
  "select_player_sql env username =
     ''SELECT id, username, password, rating, total_games, wins FROM players WHERE username='' @
     quoted (mysql_real_escape_string env username)"

definition insert_player_sql :: "'w env \<Rightarrow> string \<Rightarrow> string \<Rightarrow> string" where
  "insert_player_sql env username pw =
     ''INSERT INTO players (username, password) VALUES ('' @ quoted (mysql_real_escape_string env username) @
     '', '' @ quoted (mysql_real_escape_string env pw) @ '')''"

text \<open>A column that may be null, with its default; a number that cannot be read throws.\<close>

definition column :: "(string \<Rightarrow> 'a option) \<Rightarrow> 'a \<Rightarrow> string option \<Rightarrow> ('w, 'a) io" where
  "column conv dflt c =
     (case c of
        None \<Rightarrow> io_return dflt
      | Some v \<Rightarrow> (case conv v of None \<Rightarrow> io_fail Bad_number | Some x \<Rightarrow> io_return x))"

definition read_row :: "string option list \<Rightarrow> ('w, player_record) io" where
  "read_row row =
     io_bind (column stoull 0 (row ! 0)) (\<lambda>i.
     io_bind (column stoi 1000 (row ! 3)) (\<lambda>rating.
     io_bind (column stoi 0 (row ! 4)) (\<lambda>games.
     io_bind (column stoi 0 (row ! 5)) (\<lambda>wins.
       io_return \<lparr>pr_id = i, pr_username = (case row ! 1 of None \<Rightarrow> [] | Some v \<Rightarrow> v),
                  pr_password_hash = (case row ! 2 of None \<Rightarrow> [] | Some v \<Rightarrow> v),
                  pr_rating = rating, pr_total_games = games, pr_wins = wins\<rparr>))))"

definition MysqlClient_getPlayer :: "'w env \<Rightarrow> string \<Rightarrow> ('w, player_record option) io" where
  "MysqlClient_getPlayer env username =
     with_mysql (\<lambda>conn. io_bind (query env conn (select_player_sql env username)) (\<lambda>ok.
       if \<not> ok then io_return None
       else io_bind (store_result env conn) (\<lambda>result.
         case result of
           None \<Rightarrow> io_return None
         | Some [] \<Rightarrow> io_return None
         | Some (row # _) \<Rightarrow> io_bind (read_row row) (\<lambda>p. io_return (Some p)))))"

definition MysqlClient_createPlayer :: "'w env \<Rightarrow> string \<Rightarrow> string \<Rightarrow> ('w, u64) io" where
  "MysqlClient_createPlayer env username password_hash =
     with_mysql (\<lambda>conn. io_bind (query env conn (insert_player_sql env username password_hash)) (\<lambda>ok.
       if \<not> ok then io_return 0 else insert_id env conn))"

definition MysqlClient_recordLogin :: "'w env \<Rightarrow> u64 \<Rightarrow> ('w, unit) io" where
  "MysqlClient_recordLogin env pid =
     with_mysql (\<lambda>conn.
       io_bind (query env conn (''INSERT INTO login_records (player_id) VALUES ('' @ to_string_u64 pid @ '')''))
         (\<lambda>_. io_return ()))"

definition MysqlClient_saveBattleResult ::
    "'w env \<Rightarrow> u64 \<Rightarrow> u64 \<Rightarrow> int \<Rightarrow> int \<Rightarrow> int \<Rightarrow> int \<Rightarrow> int \<Rightarrow> ('w, unit) io" where
  "MysqlClient_saveBattleResult env pid rid kills deaths dealt taken rank =
     with_mysql (\<lambda>conn.
       io_bind (query env conn
         (''INSERT INTO battle_records (player_id, room_id, kills, deaths, damage_dealt, damage_taken, `rank`) VALUES ('' @
          to_string_u64 pid @ '', '' @ to_string_u64 rid @ '', '' @ to_string_int kills @ '', '' @
          to_string_int deaths @ '', '' @ to_string_int dealt @ '', '' @ to_string_int taken @ '', '' @
          to_string_int rank @ '')''))
         (\<lambda>_. io_return ()))"

text \<open>
  The statements of \<open>ensureSchema\<close>, with the white space of the raw string literals reduced to single
  spaces, which SQL does not distinguish. Their results are not looked at.
\<close>

definition create_players_sql :: string where
  "create_players_sql =
     ''CREATE TABLE IF NOT EXISTS players ( id BIGINT UNSIGNED AUTO_INCREMENT PRIMARY KEY,'' @
     '' username VARCHAR(64) NOT NULL UNIQUE, password VARCHAR(128) NOT NULL DEFAULT '' @ quoted [] @
     '', rating INT DEFAULT 1000, total_games INT DEFAULT 0, wins INT DEFAULT 0, created_at DATETIME DEFAULT CURRENT_TIMESTAMP )''"

definition create_login_records_sql :: string where
  "create_login_records_sql =
     ''CREATE TABLE IF NOT EXISTS login_records ( id BIGINT UNSIGNED AUTO_INCREMENT PRIMARY KEY,'' @
     '' player_id BIGINT UNSIGNED NOT NULL, login_time DATETIME DEFAULT CURRENT_TIMESTAMP,'' @
     '' FOREIGN KEY (player_id) REFERENCES players(id) )''"

definition create_battle_records_sql :: string where
  "create_battle_records_sql =
     ''CREATE TABLE IF NOT EXISTS battle_records ( id BIGINT UNSIGNED AUTO_INCREMENT PRIMARY KEY,'' @
     '' player_id BIGINT UNSIGNED NOT NULL, room_id BIGINT UNSIGNED NOT NULL, kills INT DEFAULT 0, deaths INT DEFAULT 0,'' @
     '' damage_dealt INT DEFAULT 0, damage_taken INT DEFAULT 0, `rank` INT DEFAULT 0, created_at DATETIME DEFAULT CURRENT_TIMESTAMP,'' @
     '' FOREIGN KEY (player_id) REFERENCES players(id) )''"

fun run_statements :: "'w env \<Rightarrow> nat \<Rightarrow> string list \<Rightarrow> ('w, unit) io" where
  "run_statements env conn [] = io_return ()"
| "run_statements env conn (sql # rest) = io_bind (query env conn sql) (\<lambda>_. run_statements env conn rest)"

definition MysqlClient_ensureSchema :: "'w env \<Rightarrow> ('w, unit) io" where
  "MysqlClient_ensureSchema env =
     with_mysql (\<lambda>conn. run_statements env conn [create_players_sql, create_login_records_sql, create_battle_records_sql])"

text \<open>With a connection in the pool the schema statements return, whatever the server answers, and the pool is as full as before.\<close>

lemma run_statements_returns: "\<exists>w. run_statements env conn sqls s = Inr ((), s\<lparr>world := w\<rparr>)"
proof (induction sqls arbitrary: s)
  case Nil
  show ?case by (rule exI [of _ "world s"]) simp
next
  case (Cons sql sqls)
  obtain ok w where q: "query env conn sql s = Inr (ok, s\<lparr>world := w\<rparr>)"
    by (cases "mysql_query env conn (c_str sql) (world s)") (auto simp: query_def)
  obtain w' where "run_statements env conn sqls (s\<lparr>world := w\<rparr>) = Inr ((), s\<lparr>world := w\<rparr>\<lparr>world := w'\<rparr>)" using Cons by blast
  with q show ?case by auto
qed

lemma ensureSchema_returns:
  assumes "mysql_pool s \<noteq> []"
  shows "\<exists>s'. MysqlClient_ensureSchema env s = Inr ((), s') \<and> mset (mysql_pool s') = mset (mysql_pool s) \<and> redis_pool s' = redis_pool s"
proof -
  obtain c p where p: "mysql_pool s = c # p" using assms by (cases "mysql_pool s") auto
  obtain w where "run_statements env c [create_players_sql, create_login_records_sql, create_battle_records_sql] (s\<lparr>mysql_pool := p\<rparr>) =
      Inr ((), s\<lparr>mysql_pool := p\<rparr>\<lparr>world := w\<rparr>)"
    using run_statements_returns [of env c _ "s\<lparr>mysql_pool := p\<rparr>"] by meson
  with p show ?thesis
    by (simp add: MysqlClient_ensureSchema_def with_mysql_def ConnectionPool_borrow_def Guard_destroy_def ConnectionPool_returnConn_def)
qed

end
