(* ===== verification/Session_Manager.thy ===== *)
theory Session_Manager
  imports Messages Redis_Client Mysql_Client
begin

text \<open>
  \<open>src/src/game/session_manager.{h,cpp}\<close> and \<open>session.h\<close>: login with the player cache, the database and
  the kick of a duplicate login, logout, expiry, disconnection and reconnection, over three tables
  (sessions, connections, players). The random session id and the clock readings (nanoseconds) are
  arguments. An operation gives its result, the messages it sends and the new tables, inside a
  storage computation that may fail.
\<close>

section \<open>State\<close>

datatype session_state =
    S_CONNECTED | S_AUTHENTICATED | S_IN_LOBBY | S_MATCHING | S_IN_ROOM | S_IN_BATTLE | S_SETTLEMENT | S_DISCONNECTED

fun state_index :: "session_state \<Rightarrow> int" where
  "state_index S_CONNECTED = 0"
| "state_index S_AUTHENTICATED = 1"
| "state_index S_IN_LOBBY = 2"
| "state_index S_MATCHING = 3"
| "state_index S_IN_ROOM = 4"
| "state_index S_IN_BATTLE = 5"
| "state_index S_SETTLEMENT = 6"
| "state_index S_DISCONNECTED = 7"

record session =
  session_ident :: u64
  sess_player :: player_id
  sess_conn :: conn_id
  sess_state :: session_state
  sess_username :: string
  login_time :: int
  last_active :: int
  current_room :: u64
  match_mode :: int

definition Session_isOnline :: "session \<Rightarrow> bool" where
  "Session_isOnline s \<longleftrightarrow> sess_state s \<noteq> S_DISCONNECTED"

record session_manager =
  sessions :: "(u64, session) umap"
  conn_map :: "(conn_id, u64) umap"
  player_map :: "(player_id, u64) umap"
  sm_send_cb :: bool

record login_result =
  error_code :: int
  res_session_id :: u64
  res_player_id :: u64
  error_msg :: string

definition LoginResult_default :: login_result where
  "LoginResult_default = \<lparr>error_code = 0, res_session_id = 0, res_player_id = 0, error_msg = []\<rparr>"

type_synonym conn_send = "conn_id \<times> u32 \<times> bytes"

definition SessionManager_new :: session_manager where
  "SessionManager_new = \<lparr>sessions = [], conn_map = [], player_map = [], sm_send_cb = False\<rparr>"

definition SessionManager_setSendCallback :: "bool \<Rightarrow> session_manager \<Rightarrow> session_manager" where
  "SessionManager_setSendCallback cb sm = sm\<lparr>sm_send_cb := cb\<rparr>"

definition SessionManager_sendTo :: "conn_id \<Rightarrow> u32 \<Rightarrow> bytes \<Rightarrow> session_manager \<Rightarrow> conn_send list" where
  "SessionManager_sendTo c msg_id payload sm = (if sm_send_cb sm then [(c, msg_id, payload)] else [])"

section \<open>Queries\<close>

definition SessionManager_getBySession :: "u64 \<Rightarrow> session_manager \<Rightarrow> session option" where
  "SessionManager_getBySession sid sm = uget (sessions sm) sid"

definition SessionManager_getByConn :: "conn_id \<Rightarrow> session_manager \<Rightarrow> session option" where
  "SessionManager_getByConn c sm = (case uget (conn_map sm) c of None \<Rightarrow> None | Some sid \<Rightarrow> uget (sessions sm) sid)"

definition SessionManager_getByPlayer :: "player_id \<Rightarrow> session_manager \<Rightarrow> session option" where
  "SessionManager_getByPlayer p sm = (case uget (player_map sm) p of None \<Rightarrow> None | Some sid \<Rightarrow> uget (sessions sm) sid)"

section \<open>Persistence\<close>

definition session_text :: "session \<Rightarrow> string" where
  "session_text s =
     to_string_int (state_index (sess_state s)) @ ''|'' @ to_string_u64 (sess_player s) @ ''|'' @
     to_string_u64 (sess_conn s) @ ''|'' @ sess_username s @ ''|'' @ to_string_u64 (current_room s) @ ''|'' @
     to_string_int (match_mode s)"

definition SessionManager_saveToRedis :: "'w env \<Rightarrow> session \<Rightarrow> ('w, unit) io" where
  "SessionManager_saveToRedis env s =
     io_bind (RedisClient_setSession env (session_ident s) (session_text s) 3600)
       (\<lambda>_. RedisClient_setOnline env (sess_player s) (session_ident s))"

definition SessionManager_removeFromRedis :: "'w env \<Rightarrow> u64 \<Rightarrow> session_manager \<Rightarrow> ('w, unit) io" where
  "SessionManager_removeFromRedis env sid sm =
     io_bind (case uget (sessions sm) sid of
                Some s \<Rightarrow> RedisClient_delOnline env (sess_player s)
              | None \<Rightarrow> io_return ())
       (\<lambda>_. RedisClient_delSession env sid)"

section \<open>Login and logout\<close>

definition SessionManager_kickDuplicate ::
    "codec \<Rightarrow> 'w env \<Rightarrow> player_id \<Rightarrow> session_manager \<Rightarrow> ('w, conn_send list \<times> session_manager) io" where
  "SessionManager_kickDuplicate cdc env pid sm =
     (case uget (player_map sm) pid of
        None \<Rightarrow> io_return ([], sm)
      | Some old_sid \<Rightarrow>
          (case uget (sessions sm) old_sid of
             None \<Rightarrow> io_return ([], sm\<lparr>player_map := uerase pid (player_map sm)\<rparr>)
           | Some s \<Rightarrow>
               io_bind (SessionManager_removeFromRedis env old_sid sm)
                 (\<lambda>_. io_return
                    (SessionManager_sendTo (sess_conn s) 1002
                       (SerializeToString cdc (LoginResponse 20003 0 0 ''Duplicate login - kicked'')) sm,
                     sm\<lparr>conn_map := uerase (sess_conn s) (conn_map sm), sessions := uerase old_sid (sessions sm),
                        player_map := uerase pid (player_map sm)\<rparr>))))"

text \<open>Steps 1 of \<open>login\<close>: the cache, the database, and automatic registration.\<close>

definition lookup_player :: "'w env \<Rightarrow> string \<Rightarrow> string \<Rightarrow> ('w, string + player_record) io" where
  "lookup_player env username password =
     io_bind (RedisClient_getCachedPlayer env username) (\<lambda>cached_pid.
     io_bind (if cached_pid \<noteq> None then MysqlClient_getPlayer env username else io_return None) (\<lambda>player.
       case player of
         Some p \<Rightarrow> io_return (Inr p)
       | None \<Rightarrow>
           io_bind (MysqlClient_getPlayer env username) (\<lambda>player.
             case player of
               Some p \<Rightarrow> io_bind (RedisClient_cachePlayer env username (pr_id p)) (\<lambda>_. io_return (Inr p))
             | None \<Rightarrow>
                 io_bind (MysqlClient_createPlayer env username password) (\<lambda>pid.
                   if pid = 0 then io_return (Inl ''Failed to create player'')
                   else io_bind (RedisClient_cachePlayer env username pid) (\<lambda>_.
                     io_bind (MysqlClient_getPlayer env username) (\<lambda>player.
                       case player of
                         None \<Rightarrow> io_return (Inl ''Player creation failed'')
                       | Some p \<Rightarrow> io_return (Inr p)))))))"

definition new_session :: "u64 \<Rightarrow> int \<Rightarrow> conn_id \<Rightarrow> player_record \<Rightarrow> session" where
  "new_session sid now c p =
     \<lparr>session_ident = sid, sess_player = pr_id p, sess_conn = c, sess_state = S_AUTHENTICATED,
      sess_username = pr_username p, login_time = now, last_active = now, current_room = 0, match_mode = 0\<rparr>"

definition bind_session :: "session \<Rightarrow> session_manager \<Rightarrow> session_manager" where
  "bind_session s sm =
     sm\<lparr>sessions := uput (session_ident s) s (sessions sm),
        conn_map := uput (sess_conn s) (session_ident s) (conn_map sm),
        player_map := uput (sess_player s) (session_ident s) (player_map sm)\<rparr>"

definition SessionManager_login ::
    "codec \<Rightarrow> 'w env \<Rightarrow> u64 \<Rightarrow> int \<Rightarrow> conn_id \<Rightarrow> string \<Rightarrow> string \<Rightarrow> session_manager \<Rightarrow>
     ('w, login_result \<times> conn_send list \<times> session_manager) io" where
  "SessionManager_login cdc env sid now c username password sm =
     io_bind (lookup_player env username password) (\<lambda>found.
       case found of
         Inl msg \<Rightarrow> io_return (LoginResult_default\<lparr>error_code := 20001, error_msg := msg\<rparr>, [], sm)
       | Inr p \<Rightarrow>
           if pr_password_hash p \<noteq> password
           then io_return (LoginResult_default\<lparr>error_code := 20001, error_msg := ''Invalid password''\<rparr>, [], sm)
           else
             io_bind (SessionManager_kickDuplicate cdc env (pr_id p) sm) (\<lambda>(out, sm1).
               let s = new_session sid now c p
               in io_bind (SessionManager_saveToRedis env s) (\<lambda>_.
                  io_bind (MysqlClient_recordLogin env (pr_id p)) (\<lambda>_.
                    io_return (LoginResult_default\<lparr>error_code := 0, res_session_id := sid, res_player_id := pr_id p\<rparr>,
                               out, bind_session s sm1)))))"

text \<open>The table entries of a session go: shared by logout and expiry.\<close>

definition unbind_session :: "session \<Rightarrow> u64 \<Rightarrow> session_manager \<Rightarrow> session_manager" where
  "unbind_session s sid sm =
     sm\<lparr>conn_map := uerase (sess_conn s) (conn_map sm), player_map := uerase (sess_player s) (player_map sm),
        sessions := uerase sid (sessions sm)\<rparr>"

definition SessionManager_logout :: "'w env \<Rightarrow> u64 \<Rightarrow> session_manager \<Rightarrow> ('w, session_manager) io" where
  "SessionManager_logout env sid sm =
     (case uget (sessions sm) sid of
        None \<Rightarrow> io_return sm
      | Some s \<Rightarrow> io_bind (SessionManager_removeFromRedis env sid sm) (\<lambda>_. io_return (unbind_session s sid sm)))"

definition SessionManager_heartbeat :: "int \<Rightarrow> u64 \<Rightarrow> session_manager \<Rightarrow> session_manager" where
  "SessionManager_heartbeat now sid sm =
     (case uget (sessions sm) sid of
        None \<Rightarrow> sm
      | Some s \<Rightarrow> sm\<lparr>sessions := uput sid (s\<lparr>last_active := now\<rparr>) (sessions sm)\<rparr>)"

section \<open>State changes\<close>

definition SessionManager_setState :: "'w env \<Rightarrow> u64 \<Rightarrow> session_state \<Rightarrow> session_manager \<Rightarrow> ('w, bool \<times> session_manager) io" where
  "SessionManager_setState env sid st sm =
     (case uget (sessions sm) sid of
        None \<Rightarrow> io_return (False, sm)
      | Some s \<Rightarrow>
          let s' = s\<lparr>sess_state := st\<rparr>
          in io_bind (SessionManager_saveToRedis env s') (\<lambda>_. io_return (True, sm\<lparr>sessions := uput sid s' (sessions sm)\<rparr>)))"

definition SessionManager_setMatchMode :: "u64 \<Rightarrow> int \<Rightarrow> session_manager \<Rightarrow> bool \<times> session_manager" where
  "SessionManager_setMatchMode sid mode sm =
     (case uget (sessions sm) sid of
        None \<Rightarrow> (False, sm)
      | Some s \<Rightarrow> (True, sm\<lparr>sessions := uput sid (s\<lparr>match_mode := mode\<rparr>) (sessions sm)\<rparr>))"

definition SessionManager_setCurrentRoom :: "'w env \<Rightarrow> u64 \<Rightarrow> u64 \<Rightarrow> session_manager \<Rightarrow> ('w, bool \<times> session_manager) io" where
  "SessionManager_setCurrentRoom env sid rid sm =
     (case uget (sessions sm) sid of
        None \<Rightarrow> io_return (False, sm)
      | Some s \<Rightarrow>
          let s' = s\<lparr>current_room := rid\<rparr>
          in io_bind (SessionManager_saveToRedis env s') (\<lambda>_. io_return (True, sm\<lparr>sessions := uput sid s' (sessions sm)\<rparr>)))"

section \<open>Expiry, disconnection, reconnection\<close>

text \<open>The loop over the sessions; the entries of an expired session are erased while iterating.\<close>

fun cleanup_loop :: "'w env \<Rightarrow> int \<Rightarrow> (u64 \<times> session) list \<Rightarrow> session_manager \<Rightarrow> ('w, session_manager) io" where
  "cleanup_loop env now [] sm = io_return sm"
| "cleanup_loop env now ((sid, s) # rest) sm =
     (if whole_seconds now (last_active s) > 3600
      then io_bind (SessionManager_removeFromRedis env (session_ident s) sm)
             (\<lambda>_. cleanup_loop env now rest (unbind_session s sid sm))
      else cleanup_loop env now rest sm)"

definition SessionManager_cleanupExpired :: "'w env \<Rightarrow> int \<Rightarrow> session_manager \<Rightarrow> ('w, session_manager) io" where
  "SessionManager_cleanupExpired env now sm = cleanup_loop env now (sessions sm) sm"

definition SessionManager_markDisconnected :: "'w env \<Rightarrow> int \<Rightarrow> conn_id \<Rightarrow> session_manager \<Rightarrow> ('w, session_manager) io" where
  "SessionManager_markDisconnected env now c sm =
     (case SessionManager_getByConn c sm of
        None \<Rightarrow> io_return sm
      | Some s \<Rightarrow>
          let s' = s\<lparr>sess_state := S_DISCONNECTED, last_active := now\<rparr>
          in io_bind (SessionManager_saveToRedis env s')
               (\<lambda>_. io_return (case uget (conn_map sm) c of
                  None \<Rightarrow> sm | Some sid \<Rightarrow> sm\<lparr>sessions := uput sid s' (sessions sm)\<rparr>)))"

text \<open>\<open>now\<close> and \<open>now'\<close> are the two readings of the clock.\<close>

definition SessionManager_tryReconnect ::
    "'w env \<Rightarrow> int \<Rightarrow> int \<Rightarrow> u64 \<Rightarrow> conn_id \<Rightarrow> session_manager \<Rightarrow> ('w, login_result \<times> session_manager) io" where
  "SessionManager_tryReconnect env now now' sid new_conn sm =
     (case uget (sessions sm) sid of
        None \<Rightarrow> io_return (LoginResult_default\<lparr>error_code := 20002, error_msg := ''Session not found''\<rparr>, sm)
      | Some s \<Rightarrow>
          if sess_state s \<noteq> S_DISCONNECTED
          then io_return (LoginResult_default\<lparr>error_code := 20003, error_msg := ''Session not in disconnected state''\<rparr>, sm)
          else if whole_seconds now (last_active s) > 30
          then io_bind (SessionManager_logout env sid sm)
                 (\<lambda>sm'. io_return (LoginResult_default\<lparr>error_code := 20002, error_msg := ''Reconnect window expired''\<rparr>, sm'))
          else
            let s' = s\<lparr>sess_conn := new_conn, sess_state := S_IN_LOBBY, last_active := now'\<rparr>
            in io_bind (SessionManager_saveToRedis env s')
                 (\<lambda>_. io_return (LoginResult_default\<lparr>error_code := 0, res_session_id := sid, res_player_id := sess_player s\<rparr>,
                    sm\<lparr>conn_map := uput new_conn sid (uerase (sess_conn s) (conn_map sm)), sessions := uput sid s' (sessions sm)\<rparr>)))"

section \<open>The tables agree\<close>

text \<open>
  Sessions and players are in one-to-one correspondence, and a connection that is bound is bound to
  a session that names it. (A session may name a connection that is bound to a later session.)
\<close>

definition session_inv :: "session_manager \<Rightarrow> bool" where
  "session_inv sm \<longleftrightarrow>
     umap_ok (sessions sm) \<and> umap_ok (conn_map sm) \<and> umap_ok (player_map sm) \<and>
     (\<forall>sid s. uget (sessions sm) sid = Some s \<longrightarrow>
        session_ident s = sid \<and> uget (player_map sm) (sess_player s) = Some sid) \<and>
     (\<forall>p sid. uget (player_map sm) p = Some sid \<longrightarrow> (\<exists>s. uget (sessions sm) sid = Some s \<and> sess_player s = p)) \<and>
     (\<forall>c sid. uget (conn_map sm) c = Some sid \<longrightarrow> (\<exists>s. uget (sessions sm) sid = Some s \<and> sess_conn s = c))"

lemma new_sessions_inv [simp]: "session_inv SessionManager_new"
  by (simp add: session_inv_def SessionManager_new_def)

lemma session_invI:
  assumes "umap_ok (sessions sm)" and "umap_ok (conn_map sm)" and "umap_ok (player_map sm)"
    and "\<And>sid s. uget (sessions sm) sid = Some s \<Longrightarrow> session_ident s = sid \<and> uget (player_map sm) (sess_player s) = Some sid"
    and "\<And>p sid. uget (player_map sm) p = Some sid \<Longrightarrow> \<exists>s. uget (sessions sm) sid = Some s \<and> sess_player s = p"
    and "\<And>c sid. uget (conn_map sm) c = Some sid \<Longrightarrow> \<exists>s. uget (sessions sm) sid = Some s \<and> sess_conn s = c"
  shows "session_inv sm"
  using assms by (simp add: session_inv_def)

lemma session_invD:
  assumes "session_inv sm"
  shows "umap_ok (sessions sm)" and "umap_ok (conn_map sm)" and "umap_ok (player_map sm)"
    and "\<And>sid s. uget (sessions sm) sid = Some s \<Longrightarrow> session_ident s = sid \<and> uget (player_map sm) (sess_player s) = Some sid"
    and "\<And>p sid. uget (player_map sm) p = Some sid \<Longrightarrow> \<exists>s. uget (sessions sm) sid = Some s \<and> sess_player s = p"
    and "\<And>c sid. uget (conn_map sm) c = Some sid \<Longrightarrow> \<exists>s. uget (sessions sm) sid = Some s \<and> sess_conn s = c"
  using assms by (simp_all add: session_inv_def)

lemma inv_update:
  assumes "session_inv sm" and "uget (sessions sm) sid = Some s"
    and "session_ident s' = session_ident s" "sess_player s' = sess_player s" "sess_conn s' = sess_conn s"
  shows "session_inv (sm\<lparr>sessions := uput sid s' (sessions sm)\<rparr>)"
  by (rule session_invI; use assms session_invD [OF assms(1)] in \<open>force split: if_splits\<close>)

lemma getByPlayerD:
  assumes "session_inv sm" and "SessionManager_getByPlayer p sm = Some s"
  shows "uget (player_map sm) p = Some (session_ident s)" and "uget (sessions sm) (session_ident s) = Some s"
    and "sess_player s = p"
proof -
  obtain sid where sid: "uget (player_map sm) p = Some sid" "uget (sessions sm) sid = Some s"
    using assms(2) by (auto simp: SessionManager_getByPlayer_def split: option.splits)
  from session_invD(4) [OF assms(1) sid(2)] session_invD(5) [OF assms(1) sid(1)] sid
  show "uget (player_map sm) p = Some (session_ident s)" and "uget (sessions sm) (session_ident s) = Some s"
    and "sess_player s = p" by auto
qed

lemma getByPlayer_update:
  assumes "session_inv sm" and "SessionManager_getByPlayer pid sm = Some s"
  shows "SessionManager_getByPlayer p (sm\<lparr>sessions := uput (session_ident s) s' (sessions sm)\<rparr>) =
     (if p = pid then Some s' else SessionManager_getByPlayer p sm)"
proof (cases "p = pid")
  case True
  then show ?thesis using getByPlayerD [OF assms] by (simp add: SessionManager_getByPlayer_def)
next
  case False
  then have "uget (player_map sm) p \<noteq> Some (session_ident s)"
    using session_invD(5) [OF assms(1), of p "session_ident s"] getByPlayerD [OF assms] by auto
  then show ?thesis using False by (auto simp: SessionManager_getByPlayer_def split: option.splits)
qed

lemma inv_unbind:
  assumes "session_inv sm" and "uget (sessions sm) sid = Some s"
  shows "session_inv (unbind_session s sid sm)"
proof (rule session_invI)
  note inv = session_invD [OF assms(1)]
  fix t r assume t: "uget (sessions (unbind_session s sid sm)) t = Some r"
  then have "t \<noteq> sid" "uget (sessions sm) t = Some r" by (auto simp: unbind_session_def split: if_splits)
  then show "session_ident r = t \<and> uget (player_map (unbind_session s sid sm)) (sess_player r) = Some t"
    using inv(4) [of t r] inv(4) [OF assms(2)] by (auto simp: unbind_session_def)
next
  note inv = session_invD [OF assms(1)]
  fix p t assume "uget (player_map (unbind_session s sid sm)) p = Some t"
  then have p: "p \<noteq> sess_player s" "uget (player_map sm) p = Some t" by (auto simp: unbind_session_def split: if_splits)
  from inv(5) [OF p(2)] obtain r where r: "uget (sessions sm) t = Some r" "sess_player r = p" by blast
  with p assms(2) have "t \<noteq> sid" by auto
  with r show "\<exists>r. uget (sessions (unbind_session s sid sm)) t = Some r \<and> sess_player r = p"
    by (simp add: unbind_session_def)
next
  note inv = session_invD [OF assms(1)]
  fix c t assume "uget (conn_map (unbind_session s sid sm)) c = Some t"
  then have c: "c \<noteq> sess_conn s" "uget (conn_map sm) c = Some t" by (auto simp: unbind_session_def split: if_splits)
  from inv(6) [OF c(2)] obtain r where r: "uget (sessions sm) t = Some r" "sess_conn r = c" by blast
  with c assms(2) have "t \<noteq> sid" by auto
  with r show "\<exists>r. uget (sessions (unbind_session s sid sm)) t = Some r \<and> sess_conn r = c"
    by (simp add: unbind_session_def)
qed (use session_invD [OF assms(1)] in \<open>simp_all add: unbind_session_def\<close>)

lemma inv_bind:
  assumes "session_inv sm" and "uget (sessions sm) (session_ident s) = None" and "uget (player_map sm) (sess_player s) = None"
  shows "session_inv (bind_session s sm)"
proof (rule session_invI)
  note inv = session_invD [OF assms(1)]
  fix t r assume "uget (sessions (bind_session s sm)) t = Some r"
  then show "session_ident r = t \<and> uget (player_map (bind_session s sm)) (sess_player r) = Some t"
    using inv(4) [of t r] assms(3) by (auto simp: bind_session_def split: if_splits)
next
  note inv = session_invD [OF assms(1)]
  fix p t assume "uget (player_map (bind_session s sm)) p = Some t"
  then show "\<exists>r. uget (sessions (bind_session s sm)) t = Some r \<and> sess_player r = p"
    using inv(5) [of p t] assms(2) by (auto simp: bind_session_def split: if_splits)
next
  note inv = session_invD [OF assms(1)]
  fix c t assume "uget (conn_map (bind_session s sm)) c = Some t"
  then show "\<exists>r. uget (sessions (bind_session s sm)) t = Some r \<and> sess_conn r = c"
    using inv(6) [of c t] assms(2) by (auto simp: bind_session_def split: if_splits)
qed (use session_invD [OF assms(1)] in \<open>simp_all add: bind_session_def\<close>)

lemma inv_reconnect:
  assumes "session_inv sm" and "uget (sessions sm) sid = Some s"
    and "session_ident s' = session_ident s" "sess_player s' = sess_player s" "sess_conn s' = c"
  shows "session_inv (sm\<lparr>conn_map := uput c sid (uerase (sess_conn s) (conn_map sm)), sessions := uput sid s' (sessions sm)\<rparr>)"
    (is "session_inv ?sm")
proof (rule session_invI)
  note inv = session_invD [OF assms(1)]
  fix d t assume "uget (conn_map ?sm) d = Some t"
  then have "d = c \<and> t = sid \<or> d \<noteq> c \<and> d \<noteq> sess_conn s \<and> uget (conn_map sm) d = Some t"
    by (auto split: if_splits)
  then show "\<exists>r. uget (sessions ?sm) t = Some r \<and> sess_conn r = d"
    using inv(6) [of d t] assms(2,5) by auto
qed (use assms session_invD [OF assms(1)] in \<open>force split: if_splits\<close>)+

section \<open>Every operation keeps the tables in agreement\<close>

lemma kick_spec:
  assumes "session_inv sm" and "SessionManager_kickDuplicate cdc env pid sm st = Inr ((out, sm'), st')"
  shows "session_inv sm' \<and> uget (player_map sm') pid = None \<and>
         (\<forall>sid. uget (sessions sm) sid = None \<longrightarrow> uget (sessions sm') sid = None) \<and>
         (\<forall>sid s. uget (sessions sm) sid = Some s \<and> sess_player s \<noteq> pid \<longrightarrow> uget (sessions sm') sid = Some s)"
proof (cases "uget (player_map sm) pid")
  case None
  with assms show ?thesis by (simp add: SessionManager_kickDuplicate_def)
next
  case (Some old)
  then obtain s where s: "uget (sessions sm) old = Some s" "sess_player s = pid"
    using session_invD(5) [OF assms(1)] by blast
  with assms(2) Some have "sm' = unbind_session s old sm"
    by (auto simp: SessionManager_kickDuplicate_def io_bind_result unbind_session_def)
  with inv_unbind [OF assms(1) s(1)] s show ?thesis
    by (auto simp: unbind_session_def)
qed

lemma login_inv:
  assumes "session_inv sm" and "uget (sessions sm) sid = None"
    and "SessionManager_login cdc env sid now c username password sm st = Inr ((res, out, sm'), st')"
  shows "session_inv sm'"
proof -
  from assms(3) obtain found st1 where found: "lookup_player env username password st = Inr (found, st1)"
    by (auto simp: SessionManager_login_def io_bind_result)
  show ?thesis
  proof (cases "\<exists>p. found = Inr p \<and> pr_password_hash p = password")
    case False
    with assms(1,3) found show ?thesis
      by (auto simp: SessionManager_login_def split: sum.splits if_splits)
  next
    case True
    then obtain p where p: "found = Inr p" "pr_password_hash p = password" by blast
    with assms(3) found obtain sm1 st2 where kick: "SessionManager_kickDuplicate cdc env (pr_id p) sm st1 = Inr ((out, sm1), st2)"
      and sm': "sm' = bind_session (new_session sid now c p) sm1"
      by (auto simp: SessionManager_login_def io_bind_result Let_def)
    from kick_spec [OF assms(1) kick] assms(2) show ?thesis
      unfolding sm' by (intro inv_bind) (simp_all add: new_session_def)
  qed
qed

lemma logout_inv:
  assumes "session_inv sm" and "SessionManager_logout env sid sm st = Inr (sm', st')"
  shows "session_inv sm'"
  using assms inv_unbind [OF assms(1)]
  by (auto simp: SessionManager_logout_def io_bind_result split: option.splits)

lemma heartbeat_inv: "session_inv sm \<Longrightarrow> session_inv (SessionManager_heartbeat now sid sm)"
  by (auto simp: SessionManager_heartbeat_def intro: inv_update split: option.splits)

lemma setState_inv:
  assumes "session_inv sm" and "SessionManager_setState env sid x sm st = Inr ((b, sm'), st')"
  shows "session_inv sm'"
  using assms
  by (auto simp: SessionManager_setState_def io_bind_result Let_def intro: inv_update split: option.splits)

lemma setMatchMode_inv: "session_inv sm \<Longrightarrow> session_inv (snd (SessionManager_setMatchMode sid mode sm))"
  by (auto simp: SessionManager_setMatchMode_def intro: inv_update split: option.splits)

lemma setCurrentRoom_inv:
  assumes "session_inv sm" and "SessionManager_setCurrentRoom env sid x sm st = Inr ((b, sm'), st')"
  shows "session_inv sm'"
  using assms
  by (auto simp: SessionManager_setCurrentRoom_def io_bind_result Let_def intro: inv_update split: option.splits)

lemma cleanup_loop_inv:
  "cleanup_loop env now rest sm st = Inr (sm', st') \<Longrightarrow> session_inv sm \<Longrightarrow> distinct (map fst rest) \<Longrightarrow>
   (\<And>sid s. (sid, s) \<in> set rest \<Longrightarrow> uget (sessions sm) sid = Some s) \<Longrightarrow> session_inv sm'"
proof (induction rest arbitrary: sm st)
  case Nil
  then show ?case by simp
next
  case (Cons q rest)
  obtain sid s where q: "q = (sid, s)" by (cases q)
  show ?case
  proof (cases "whole_seconds now (last_active s) > 3600")
    case False
    with Cons q show ?thesis by auto
  next
    case True
    then obtain st1 where st1: "cleanup_loop env now rest (unbind_session s sid sm) st1 = Inr (sm', st')"
      using Cons.prems(1) by (auto simp: q io_bind_result)
    have s: "uget (sessions sm) sid = Some s" using Cons.prems(4) q by simp
    show ?thesis
    proof (rule Cons.IH [OF st1 inv_unbind [OF Cons.prems(2) s]])
      show "distinct (map fst rest)" using Cons.prems(3) by simp
      fix t r assume t: "(t, r) \<in> set rest"
      then have "t \<noteq> sid" using Cons.prems(3) by (force simp: q)
      then show "uget (sessions (unbind_session s sid sm)) t = Some r"
        using Cons.prems(4) [of t r] t by (simp add: unbind_session_def)
    qed
  qed
qed

lemma cleanup_inv:
  assumes "session_inv sm" and "SessionManager_cleanupExpired env now sm st = Inr (sm', st')"
  shows "session_inv sm'"
proof (rule cleanup_loop_inv [OF _ assms(1)])
  show "cleanup_loop env now (sessions sm) sm st = Inr (sm', st')"
    using assms(2) by (simp add: SessionManager_cleanupExpired_def)
qed (use session_invD(1) [OF assms(1)] in \<open>auto simp: umap_ok_def\<close>)

lemma markDisconnected_inv:
  assumes "session_inv sm" and "SessionManager_markDisconnected env now c sm st = Inr (sm', st')"
  shows "session_inv sm'"
  using assms
  by (auto simp: SessionManager_markDisconnected_def SessionManager_getByConn_def io_bind_result Let_def
      intro: inv_update split: option.splits)

lemma tryReconnect_inv:
  assumes "session_inv sm" and "SessionManager_tryReconnect env now now' sid c sm st = Inr ((res, sm'), st')"
  shows "session_inv sm'"
proof (cases "uget (sessions sm) sid")
  case None
  with assms show ?thesis by (simp add: SessionManager_tryReconnect_def)
next
  case (Some s)
  have "session_inv (sm\<lparr>conn_map := uput c sid (uerase (sess_conn s) (conn_map sm)),
     sessions := uput sid (s\<lparr>sess_conn := c, sess_state := S_IN_LOBBY, last_active := now'\<rparr>) (sessions sm)\<rparr>)"
    by (rule inv_reconnect [OF assms(1) Some]) simp_all
  with assms Some logout_inv [OF assms(1)] show ?thesis
    by (auto simp: SessionManager_tryReconnect_def io_bind_result Let_def split: if_splits)
qed

section \<open>The manager as a machine\<close>

datatype session_event =
    Login u64 int conn_id string string
  | Logout u64
  | Heartbeat int u64
  | SetState u64 session_state
  | SetMatchMode u64 int
  | SetCurrentRoom u64 u64
  | CleanupExpired int
  | MarkDisconnected int conn_id
  | TryReconnect int int u64 conn_id

text \<open>A storage fault ends the program; the machine then stays where it was.\<close>

definition after :: "fault + 'a \<times> 'w store \<Rightarrow> ('a \<Rightarrow> session_manager) \<Rightarrow> session_manager \<times> 'w store \<Rightarrow> session_manager \<times> 'w store" where
  "after r f s = (case r of Inl _ \<Rightarrow> s | Inr (x, st) \<Rightarrow> (f x, st))"

fun session_step :: "codec \<Rightarrow> 'w env \<Rightarrow> session_manager \<times> 'w store \<Rightarrow> session_event \<Rightarrow> session_manager \<times> 'w store" where
  "session_step cdc env (sm, st) (Login sid now c username password) =
     after (SessionManager_login cdc env sid now c username password sm st) (\<lambda>(res, out, sm'). sm') (sm, st)"
| "session_step cdc env (sm, st) (Logout sid) = after (SessionManager_logout env sid sm st) id (sm, st)"
| "session_step cdc env (sm, st) (Heartbeat now sid) = (SessionManager_heartbeat now sid sm, st)"
| "session_step cdc env (sm, st) (SetState sid x) = after (SessionManager_setState env sid x sm st) snd (sm, st)"
| "session_step cdc env (sm, st) (SetMatchMode sid mode) = (snd (SessionManager_setMatchMode sid mode sm), st)"
| "session_step cdc env (sm, st) (SetCurrentRoom sid rid) = after (SessionManager_setCurrentRoom env sid rid sm st) snd (sm, st)"
| "session_step cdc env (sm, st) (CleanupExpired now) = after (SessionManager_cleanupExpired env now sm st) id (sm, st)"
| "session_step cdc env (sm, st) (MarkDisconnected now c) = after (SessionManager_markDisconnected env now c sm st) id (sm, st)"
| "session_step cdc env (sm, st) (TryReconnect now now' sid c) =
     after (SessionManager_tryReconnect env now now' sid c sm st) snd (sm, st)"

text \<open>The random session id of a login is one that is not in use.\<close>

fun fresh_sid :: "session_manager \<times> 'w store \<Rightarrow> session_event \<Rightarrow> bool" where
  "fresh_sid (sm, st) (Login sid now c username password) = (uget (sessions sm) sid = None)"
| "fresh_sid s _ = True"

lemma session_step_inv:
  assumes "session_inv (fst s)" and "fresh_sid s ev"
  shows "session_inv (fst (session_step cdc env s ev))"
proof -
  obtain sm st where s: "s = (sm, st)" by (cases s)
  show ?thesis
    using assms
    by (cases ev) (auto simp: s after_def split: sum.splits
        dest: login_inv logout_inv setState_inv setCurrentRoom_inv cleanup_inv markDisconnected_inv tryReconnect_inv
        intro: heartbeat_inv setMatchMode_inv)
qed

interpretation ses: machine "session_step cdc env" fresh_sid "\<lambda>s. session_inv (fst s)" for cdc env
  by unfold_locales (rule session_step_inv)

section \<open>A healthy storage\<close>

text \<open>
  Redis as documented: SET and SETEX reply with a status, DEL replies. Under this hypothesis the
  session operations never fault.
\<close>

definition healthy :: "'w env \<Rightarrow> bool" where
  "healthy env \<longleftrightarrow>
     (\<forall>ctx k v w. \<exists>x w'. redisCommand env ctx [''SET'', k, v] w = (Replies (Some (Reply_Status x)), w')) \<and>
     (\<forall>ctx k t v w. \<exists>x w'. redisCommand env ctx [''SETEX'', k, t, v] w = (Replies (Some (Reply_Status x)), w')) \<and>
     (\<forall>ctx k w. \<exists>r w'. redisCommand env ctx [''DEL'', k] w = (Replies r, w'))"

definition pools_ready :: "'w store \<Rightarrow> bool" where
  "pools_ready st \<longleftrightarrow> redis_pool st \<noteq> [] \<and> mysql_pool st \<noteq> []"

definition returns :: "('w, 'a) io \<Rightarrow> bool" where
  "returns c \<longleftrightarrow> (\<forall>st. pools_ready st \<longrightarrow> (\<exists>x st'. c st = Inr (x, st') \<and> pools_ready st'))"

named_theorems totals \<open>storage computations that always return\<close>

lemma total_return [totals]: "returns (io_return x)"
  by (simp add: returns_def)

lemma total_bind [totals]: "returns c \<Longrightarrow> (\<And>x. returns (f x)) \<Longrightarrow> returns (io_bind c f)"
  unfolding returns_def by (metis io_bind_Inr)

lemma total_if [totals]: "returns c \<Longrightarrow> returns d \<Longrightarrow> returns (if b then c else d)"
  by simp

lemma checked_total:
  assumes "\<And>ctx w. \<exists>x w'. redisCommand env ctx args w = (Replies (Some (Reply_Status x)), w')"
  shows "returns (checked_command env args REDIS_REPLY_STATUS)"
  unfolding returns_def
proof (intro allI impI)
  fix st :: "'a store"
  assume ready: "pools_ready st"
  then have p: "pool_ready st" by (simp add: pools_ready_def pool_ready_def)
  obtain x w' where c: "redisCommand env (hd (redis_pool st)) args (world st) = (Replies (Some (Reply_Status x)), w')"
    using assms by blast
  show "\<exists>x st'. checked_command env args REDIS_REPLY_STATUS st = Inr (x, st') \<and> pools_ready st'"
    using checked_command_outcome [OF p c, of REDIS_REPLY_STATUS] ready
    by (auto simp: RedisClient_checkReply_def reply_types pools_ready_def after_command_def)
qed

lemma del_total [totals]: "healthy env \<Longrightarrow> returns (RedisClient_del env key)"
  unfolding returns_def
proof (intro allI impI)
  fix st :: "'a store"
  assume env: "healthy env" and ready: "pools_ready st"
  then obtain ctx cs where p: "redis_pool st = ctx # cs" by (cases "redis_pool st") (auto simp: pools_ready_def)
  obtain r w' where "redisCommand env ctx [''DEL'', c_str key] (world st) = (Replies r, w')"
    using env unfolding healthy_def by blast
  with p ready show "\<exists>x st'. RedisClient_del env key st = Inr (x, st') \<and> pools_ready st'"
    by (auto simp: RedisClient_del_def command_defs pools_ready_def)
qed

lemma set_total [totals]: "healthy env \<Longrightarrow> returns (RedisClient_set env key val)"
  unfolding RedisClient_set_def healthy_def by (rule checked_total) blast

lemma setEx_total [totals]: "healthy env \<Longrightarrow> returns (RedisClient_setEx env key ttl val)"
  unfolding RedisClient_setEx_def healthy_def by (rule checked_total) blast

lemma saveToRedis_total [totals]: "healthy env \<Longrightarrow> returns (SessionManager_saveToRedis env s)"
  unfolding SessionManager_saveToRedis_def RedisClient_setSession_def RedisClient_setOnline_def
  by (intro totals)

lemma removeFromRedis_total [totals]: "healthy env \<Longrightarrow> returns (SessionManager_removeFromRedis env sid sm)"
  unfolding SessionManager_removeFromRedis_def RedisClient_delOnline_def RedisClient_delSession_def
  by (cases "uget (sessions sm) sid") (auto intro!: totals)

lemma kick_total [totals]: "healthy env \<Longrightarrow> returns (SessionManager_kickDuplicate cdc env pid sm)"
  unfolding SessionManager_kickDuplicate_def
  by (auto intro!: totals split: option.splits)

lemma logout_total [totals]: "healthy env \<Longrightarrow> returns (SessionManager_logout env sid sm)"
  unfolding SessionManager_logout_def by (auto intro!: totals split: option.splits)

lemma setState_total [totals]: "healthy env \<Longrightarrow> returns (SessionManager_setState env sid x sm)"
  unfolding SessionManager_setState_def Let_def by (auto intro!: totals split: option.splits)

lemma setCurrentRoom_total [totals]: "healthy env \<Longrightarrow> returns (SessionManager_setCurrentRoom env sid x sm)"
  unfolding SessionManager_setCurrentRoom_def Let_def by (auto intro!: totals split: option.splits)

lemma query_total [totals]: "returns (query env conn sql)"
  by (simp add: returns_def query_def pools_ready_def split: prod.splits)

lemma with_mysql_total [totals]:
  assumes "\<And>conn st. \<exists>x st'. f conn st = Inr (x, st') \<and> redis_pool st' = redis_pool st"
  shows "returns (with_mysql f)"
  unfolding returns_def
proof (intro allI impI)
  fix st :: "'a store"
  assume ready: "pools_ready st"
  then obtain c cs where p: "mysql_pool st = c # cs" by (cases "mysql_pool st") (auto simp: pools_ready_def)
  obtain x st' where "f c (st\<lparr>mysql_pool := cs\<rparr>) = Inr (x, st')" "redis_pool st' = redis_pool st"
    using assms [of c "st\<lparr>mysql_pool := cs\<rparr>"] by auto
  with p ready show "\<exists>x st'. with_mysql f st = Inr (x, st') \<and> pools_ready st'"
    by (simp add: with_mysql_def ConnectionPool_borrow_def Guard_destroy_def ConnectionPool_returnConn_def pools_ready_def)
qed

lemma recordLogin_total [totals]: "returns (MysqlClient_recordLogin env pid)"
  unfolding MysqlClient_recordLogin_def
  by (rule with_mysql_total) (auto simp: io_bind_def query_def split: prod.splits)

lemma tryReconnect_total [totals]: "healthy env \<Longrightarrow> returns (SessionManager_tryReconnect env now now' sid c sm)"
  unfolding SessionManager_tryReconnect_def Let_def by (auto intro!: totals split: option.splits)

lemma markDisconnected_total [totals]: "healthy env \<Longrightarrow> returns (SessionManager_markDisconnected env now c sm)"
  unfolding SessionManager_markDisconnected_def Let_def by (auto intro!: totals split: option.splits)

lemma cleanup_loop_total [totals]: "healthy env \<Longrightarrow> returns (cleanup_loop env now rest sm)"
  by (induction env now rest sm rule: cleanup_loop.induct) (auto intro!: totals)

lemma returnsD:
  assumes "returns c" and "pools_ready st"
  obtains x st' where "c st = Inr (x, st')" and "pools_ready st'"
  using assms unfolding returns_def by blast

section \<open>What a login does\<close>

lemma kick_message:
  assumes "session_inv sm" and "uget (player_map sm) pid = Some old" and "uget (sessions sm) old = Some s"
    and "SessionManager_kickDuplicate cdc env pid sm st = Inr ((out, sm'), st')"
  shows "out = SessionManager_sendTo (sess_conn s) 1002
           (SerializeToString cdc (LoginResponse 20003 0 0 ''Duplicate login - kicked'')) sm \<and>
         uget (sessions sm') old = None"
  using assms by (auto simp: SessionManager_kickDuplicate_def io_bind_result)

lemma login_outcome:
  assumes "healthy env" and "pools_ready st1"
    and "lookup_player env username password st = Inr (Inr p, st1)" and "pr_password_hash p = password"
  obtains out sm1 st2 st' where
    "SessionManager_kickDuplicate cdc env (pr_id p) sm st1 = Inr ((out, sm1), st2)"
    "SessionManager_login cdc env sid now c username password sm st =
       Inr ((LoginResult_default\<lparr>error_code := 0, res_session_id := sid, res_player_id := pr_id p\<rparr>, out,
             bind_session (new_session sid now c p) sm1), st')"
proof -
  obtain x st2 where k: "SessionManager_kickDuplicate cdc env (pr_id p) sm st1 = Inr (x, st2)" "pools_ready st2"
    using returnsD [OF kick_total [OF assms(1)] assms(2)] by metis
  obtain out sm1 where x: "x = (out, sm1)" by (cases x)
  have "returns (io_bind (SessionManager_saveToRedis env (new_session sid now c p))
      (\<lambda>_. MysqlClient_recordLogin env (pr_id p)))"
    by (intro totals assms(1))
  from returnsD [OF this k(2)] obtain y st' where
    "io_bind (SessionManager_saveToRedis env (new_session sid now c p)) (\<lambda>_. MysqlClient_recordLogin env (pr_id p)) st2 = Inr (y, st')"
    by metis
  then obtain z st3 where "SessionManager_saveToRedis env (new_session sid now c p) st2 = Inr (z, st3)"
    and "MysqlClient_recordLogin env (pr_id p) st3 = Inr (y, st')"
    by (auto simp: io_bind_result)
  with k(1) x assms(3,4) show ?thesis
    by (intro that [of out sm1 st2 st']) (simp_all add: SessionManager_login_def Let_def)
qed

section \<open>Properties\<close>

text \<open>
  The three tables of the session manager always agree, for every sequence of logins (with session
  ids that are not in use), logouts, heartbeats, state changes, expiries, disconnections and
  reconnections and whatever Redis and MySQL answer: a player has at most one session, the player table
  and the session table are inverse to each other, and a bound connection leads to a session that
  names it.
\<close>
theorem sessions_consistent:
  fixes st :: "'w store"
  assumes "admitted (session_step cdc env) fresh_sid (SessionManager_new, st) evs"
  defines "sm \<equiv> fst (run_events (session_step cdc env) (SessionManager_new, st) evs)"
  shows "(\<forall>sid s sid' s'. uget (sessions sm) sid = Some s \<and> uget (sessions sm) sid' = Some s' \<and>
            sess_player s = sess_player s' \<longrightarrow> sid = sid') \<and>
         (\<forall>sid s. uget (sessions sm) sid = Some s \<longrightarrow> SessionManager_getByPlayer (sess_player s) sm = Some s) \<and>
         (\<forall>p s. SessionManager_getByPlayer p sm = Some s \<longrightarrow> sess_player s = p) \<and>
         (\<forall>c s. SessionManager_getByConn c sm = Some s \<longrightarrow> sess_conn s = c)"
proof -
  have inv: "session_inv sm"
    unfolding sm_def using ses.run_inv [of "(SessionManager_new, st)" cdc env evs] assms(1) by simp
  note I = session_invD [OF inv]
  have "sid = sid'" if "uget (sessions sm) sid = Some s" "uget (sessions sm) sid' = Some s'" "sess_player s = sess_player s'" for sid sid' s s'
    using I(4) [OF that(1)] I(4) [OF that(2)] that(3) by simp
  moreover have "SessionManager_getByPlayer (sess_player s) sm = Some s" if "uget (sessions sm) sid = Some s" for sid s
    using I(4) [OF that] that by (simp add: SessionManager_getByPlayer_def)
  moreover have "sess_player s = p" if "SessionManager_getByPlayer p sm = Some s" for p s
    using that I(5) [of p] by (auto simp: SessionManager_getByPlayer_def split: option.splits)
  moreover have "sess_conn s = c" if "SessionManager_getByConn c sm = Some s" for c s
    using that I(6) [of c] by (auto simp: SessionManager_getByConn_def split: option.splits)
  ultimately show ?thesis by blast
qed

lemma example_healthy: "healthy example_env"
  by (simp add: healthy_def example_env_def example_redis_def)

lemma example_pools [simp]: "pools_ready example_store"
  by (simp add: pools_ready_def example_store_def)

definition alice :: player_record where
  "alice = \<lparr>pr_id = 7, pr_username = ''alice'', pr_password_hash = ''secret'', pr_rating = 1000,
            pr_total_games = 0, pr_wins = 0\<rparr>"

lemma example_row:
  "mysql_pool st = [0] \<Longrightarrow> MysqlClient_getPlayer example_env n st = Inr (Some alice, st)"
proof -
  have "decimal 7 = ''7''" by code_simp
  then have seven: "stoull ''7'' = Some 7" using stoull_to_string [of 7] by (simp add: to_string_u64_def)
  show "mysql_pool st = [0] \<Longrightarrow> MysqlClient_getPlayer example_env n st = Inr (Some alice, st)"
    by (simp add: MysqlClient_getPlayer_def with_mysql_def ConnectionPool_borrow_def Guard_destroy_def
        ConnectionPool_returnConn_def io_bind_def query_def store_result_def example_env_def read_row_def column_def
        seven alice_def)
qed

lemma example_lookup:
  "\<exists>st1. lookup_player example_env ''alice'' ''secret'' example_store = Inr (Inr alice, st1) \<and> pools_ready st1"
proof -
  let ?st = "example_store\<lparr>redis_pool := [1, 0]\<rparr>"
  have "redisCommand example_env 0 [''GET'', c_str ''player:alice''] (\<lambda>k. []) = (Replies (Some Reply_Nil), \<lambda>k. [])"
    by (simp add: example_env_def example_redis_def)
  then have "RedisClient_get example_env ''player:alice'' example_store = Inr (None, ?st)"
    by (simp add: RedisClient_get_def command_result_outcome pool_ready_def example_store_def
        RedisClient_checkReply_def reply_types after_command_def)
  then have "RedisClient_getCachedPlayer example_env ''alice'' example_store = Inr (None, ?st)"
    by (simp add: RedisClient_getCachedPlayer_def to_u64_def)
  moreover have "MysqlClient_getPlayer example_env ''alice'' ?st = Inr (Some alice, ?st)"
    by (rule example_row) (simp add: example_store_def)
  moreover obtain x st1 where "RedisClient_cachePlayer example_env ''alice'' (pr_id alice) ?st = Inr (x, st1)" "pools_ready st1"
  proof (rule returnsD)
    show "returns (RedisClient_cachePlayer example_env ''alice'' (pr_id alice))"
      unfolding RedisClient_cachePlayer_def by (intro totals example_healthy)
    show "pools_ready ?st" by (simp add: pools_ready_def example_store_def)
  qed
  ultimately show ?thesis
    by (simp add: lookup_player_def)
qed

lemma example_login:
  obtains st1 where
    "session_step example_codec example_env (SessionManager_new, example_store) (Login 101 5 1 ''alice'' ''secret'') =
       (bind_session (new_session 101 5 1 alice) SessionManager_new, st1)"
proof -
  obtain st0 where st0: "lookup_player example_env ''alice'' ''secret'' example_store = Inr (Inr alice, st0)" "pools_ready st0"
    using example_lookup by blast
  obtain out sm1 st2 st' where
    k: "SessionManager_kickDuplicate example_codec example_env (pr_id alice) SessionManager_new st0 = Inr ((out, sm1), st2)"
    and l: "SessionManager_login example_codec example_env 101 5 1 ''alice'' ''secret'' SessionManager_new example_store =
       Inr ((LoginResult_default\<lparr>error_code := 0, res_session_id := 101, res_player_id := pr_id alice\<rparr>, out,
             bind_session (new_session 101 5 1 alice) sm1), st')"
    by (rule login_outcome [OF example_healthy st0(2,1), of example_codec SessionManager_new 101 5 1])
      (simp_all add: alice_def)
  from k have "sm1 = SessionManager_new" by (simp add: SessionManager_kickDuplicate_def SessionManager_new_def)
  with l show ?thesis by (intro that [of st']) (simp add: after_def)
qed

theorem sessions_consistent_witness:
  "let sm = fst (run_events (session_step example_codec example_env) (SessionManager_new, example_store)
              [Login 101 5 1 ''alice'' ''secret''])
   in SessionManager_getByPlayer 7 sm \<noteq> None \<and>
      (\<forall>c s. SessionManager_getByConn c sm = Some s \<longrightarrow> sess_conn s = c)"
proof -
  obtain st1 where l: "session_step example_codec example_env (SessionManager_new, example_store)
      (Login 101 5 1 ''alice'' ''secret'') = (bind_session (new_session 101 5 1 alice) SessionManager_new, st1)"
    by (rule example_login)
  have "admitted (session_step example_codec example_env) fresh_sid (SessionManager_new, example_store)
      [Login 101 5 1 ''alice'' ''secret'']"
    by (simp add: SessionManager_new_def)
  from sessions_consistent [OF this] l show ?thesis
    unfolding Let_def
    by (simp add: SessionManager_getByPlayer_def bind_session_def new_session_def alice_def del: session_step.simps)
qed

text \<open>
  C25. A login with the right password always succeeds on a healthy storage and takes over: the connection
  and the player lead to the new session, an older session of the same player is gone and its
  connection is told so, and the sessions of all other players are as they were.
\<close>
theorem login_takes_over:
  fixes sm :: session_manager and now :: int
  assumes "session_inv sm" and "uget (sessions sm) sid = None" and "healthy env" and "pools_ready st1"
    and "lookup_player env username password st = Inr (Inr p, st1)" and "pr_password_hash p = password"
  shows "\<exists>res out sm' st'.
     SessionManager_login cdc env sid now c username password sm st = Inr ((res, out, sm'), st') \<and>
     error_code res = 0 \<and> res_session_id res = sid \<and> res_player_id res = pr_id p \<and>
     SessionManager_getByConn c sm' = Some (new_session sid now c p) \<and>
     SessionManager_getByPlayer (pr_id p) sm' = Some (new_session sid now c p) \<and>
     (\<forall>t s. uget (sessions sm) t = Some s \<longrightarrow>
        (if sess_player s = pr_id p
         then SessionManager_getBySession t sm' = None \<and>
              out = SessionManager_sendTo (sess_conn s) 1002
                      (SerializeToString cdc (LoginResponse 20003 0 0 ''Duplicate login - kicked'')) sm
         else SessionManager_getBySession t sm' = Some s))"
proof -
  obtain out sm1 st2 st' where
    k: "SessionManager_kickDuplicate cdc env (pr_id p) sm st1 = Inr ((out, sm1), st2)"
    and l: "SessionManager_login cdc env sid now c username password sm st =
       Inr ((LoginResult_default\<lparr>error_code := 0, res_session_id := sid, res_player_id := pr_id p\<rparr>, out,
             bind_session (new_session sid now c p) sm1), st')"
    by (rule login_outcome [OF assms(3,4,5,6)])
  note kick = kick_spec [OF assms(1) k]
  have "if sess_player s = pr_id p
         then SessionManager_getBySession t (bind_session (new_session sid now c p) sm1) = None \<and>
              out = SessionManager_sendTo (sess_conn s) 1002
                      (SerializeToString cdc (LoginResponse 20003 0 0 ''Duplicate login - kicked'')) sm
         else SessionManager_getBySession t (bind_session (new_session sid now c p) sm1) = Some s"
    if t: "uget (sessions sm) t = Some s" for t s
  proof -
    have "t \<noteq> sid" using t assms(2) by auto
    moreover have "uget (player_map sm) (sess_player s) = Some t"
      using session_invD(4) [OF assms(1) t] by simp
    ultimately show ?thesis
      using kick kick_message [OF assms(1) _ t k] t
      by (auto simp: SessionManager_getBySession_def bind_session_def new_session_def)
  qed
  moreover have "SessionManager_getByConn c (bind_session (new_session sid now c p) sm1) = Some (new_session sid now c p)"
    and "SessionManager_getByPlayer (pr_id p) (bind_session (new_session sid now c p) sm1) = Some (new_session sid now c p)"
    by (simp_all add: SessionManager_getByConn_def SessionManager_getByPlayer_def bind_session_def new_session_def)
  ultimately show ?thesis
    by - ((rule exI)+, rule conjI [OF l], simp add: LoginResult_default_def)
qed

theorem login_takes_over_witness:
  "\<exists>res out sm' st'.
     SessionManager_login example_codec example_env 101 5 1 ''alice'' ''secret'' SessionManager_new example_store
       = Inr ((res, out, sm'), st') \<and>
     error_code res = 0 \<and> SessionManager_getByConn 1 sm' = Some (new_session 101 5 1 alice)"
proof -
  obtain st1 where st1: "lookup_player example_env ''alice'' ''secret'' example_store = Inr (Inr alice, st1)" "pools_ready st1"
    using example_lookup by blast
  have "uget (sessions SessionManager_new) 101 = None" "pr_password_hash alice = ''secret''"
    by (simp_all add: SessionManager_new_def alice_def)
  from login_takes_over [OF new_sessions_inv this(1) example_healthy st1(2,1) this(2), of example_codec 5 1]
  show ?thesis by blast
qed

text \<open>
  The reconnect window: a disconnected session is rebound to the new connection if fewer than thirty-one
  seconds have passed, and removed from all tables otherwise. On a healthy storage the
  operation always returns. A successful reconnect always puts the session into the lobby.
\<close>
theorem reconnect_window:
  fixes sm :: session_manager and now' :: int
  assumes "session_inv sm" and "healthy env" and "pools_ready st"
    and "uget (sessions sm) sid = Some s" and "sess_state s = S_DISCONNECTED"
  shows "\<exists>res sm' st'.
     SessionManager_tryReconnect env now now' sid c sm st = Inr ((res, sm'), st') \<and>
     (if now - last_active s < 31 * 1000000000
      then error_code res = 0 \<and>
           SessionManager_getByConn c sm' = Some (s\<lparr>sess_conn := c, sess_state := S_IN_LOBBY, last_active := now'\<rparr>)
      else error_code res = 20002 \<and> SessionManager_getBySession sid sm' = None \<and>
           SessionManager_getByPlayer (sess_player s) sm' = None)"
proof (cases "now - last_active s < 31 * 1000000000")
  case True
  let ?s = "s\<lparr>sess_conn := c, sess_state := S_IN_LOBBY, last_active := now'\<rparr>"
  obtain st' where "SessionManager_saveToRedis env ?s st = Inr ((), st')"
    using returnsD [OF saveToRedis_total [OF assms(2)] assms(3)] by (metis old.unit.exhaust)
  moreover have "\<not> whole_seconds now (last_active s) > 30"
    using whole_seconds_gt [of 30 now "last_active s"] True by simp
  ultimately show ?thesis
    using assms(4,5) True
    by (simp add: SessionManager_tryReconnect_def Let_def SessionManager_getByConn_def LoginResult_default_def)
next
  case False
  obtain sm' st' where l: "SessionManager_logout env sid sm st = Inr (sm', st')"
    using returnsD [OF logout_total [OF assms(2)] assms(3)] by metis
  then have "sm' = unbind_session s sid sm"
    using assms(4) by (auto simp: SessionManager_logout_def io_bind_result)
  moreover have "whole_seconds now (last_active s) > 30"
    using whole_seconds_gt [of 30 now "last_active s"] False by simp
  ultimately show ?thesis
    using assms(4,5) False l
    by (simp add: SessionManager_tryReconnect_def SessionManager_getBySession_def SessionManager_getByPlayer_def
        unbind_session_def LoginResult_default_def)
qed

definition one_session :: "session \<Rightarrow> session_manager" where
  "one_session s = bind_session s SessionManager_new"

theorem reconnect_window_witness:
  "\<exists>res sm' st'.
     SessionManager_tryReconnect example_env 40000000000 40000000000 101 2
       (one_session ((new_session 101 5 1 alice)\<lparr>sess_state := S_DISCONNECTED\<rparr>)) example_store = Inr ((res, sm'), st') \<and>
     error_code res = 20002 \<and> SessionManager_getBySession 101 sm' = None"
proof -
  let ?s = "(new_session 101 5 1 alice)\<lparr>sess_state := S_DISCONNECTED\<rparr>"
  have inv: "session_inv (one_session ?s)"
    unfolding one_session_def
    by (rule inv_bind) (simp_all, simp_all add: SessionManager_new_def)
  have "uget (sessions (one_session ?s)) 101 = Some ?s"
    by (simp add: one_session_def bind_session_def new_session_def)
  from reconnect_window [OF inv example_healthy example_pools this, of 40000000000 40000000000 2] show ?thesis
    by (auto simp: new_session_def)
qed

end
