(* ===== verification/Match_Manager.thy ===== *)
theory Match_Manager
  imports Session_Manager Room
begin

text \<open>
  \<open>src/src/game/match_manager.{h,cpp}\<close>: the matchmaker. Players wait in a Redis list; the timer thread
  calls \<open>tryMatch\<close>, which forms rooms as long as the list holds enough players. Its loop has no bound
  of its own, so it is a partial function: \<open>None\<close> means that it never ends.
\<close>

section \<open>Operations\<close>

record match_manager =
  match_room_size :: int
  notify_cb_set :: bool

definition MatchManager_new :: "int \<Rightarrow> match_manager" where
  "MatchManager_new default_room_size = \<lparr>match_room_size = default_room_size, notify_cb_set = False\<rparr>"

definition MatchManager_setNotifyCallback :: "bool \<Rightarrow> match_manager \<Rightarrow> match_manager" where
  "MatchManager_setNotifyCallback cb mm = mm\<lparr>notify_cb_set := cb\<rparr>"

definition MatchManager_joinQueue :: "'w env \<Rightarrow> player_id \<Rightarrow> int \<Rightarrow> session_manager \<Rightarrow> ('w, int \<times> session_manager) io" where
  "MatchManager_joinQueue env pid mode sm =
     io_bind (RedisClient_pushMatchQueue env mode pid) (\<lambda>_.
       case SessionManager_getByPlayer pid sm of
         None \<Rightarrow> io_fail Null_pointer
       | Some s \<Rightarrow>
           io_bind (SessionManager_setState env (session_ident s) S_MATCHING sm) (\<lambda>(ok, sm1).
             case SessionManager_getByPlayer pid sm1 of
               None \<Rightarrow> io_fail Null_pointer
             | Some s1 \<Rightarrow> io_return (0, snd (SessionManager_setMatchMode (session_ident s1) mode sm1))))"

definition MatchManager_leaveQueue :: "'w env \<Rightarrow> player_id \<Rightarrow> session_manager \<Rightarrow> ('w, int \<times> session_manager) io" where
  "MatchManager_leaveQueue env pid sm =
     (case SessionManager_getByPlayer pid sm of
        None \<Rightarrow> io_return (0, sm)
      | Some s \<Rightarrow>
          io_bind (SessionManager_setState env (session_ident s) S_IN_LOBBY sm) (\<lambda>(ok, sm1).
            io_return (0, snd (SessionManager_setMatchMode (session_ident s) 0 sm1))))"

text \<open>The inner loop of \<open>tryMatch\<close>: up to \<open>n\<close> players are taken from the queue and put into the room.\<close>

fun fill_room ::
    "codec \<Rightarrow> 'w env \<Rightarrow> match_manager \<Rightarrow> int \<Rightarrow> room_id \<Rightarrow> nat \<Rightarrow> room_manager \<Rightarrow> session_manager \<Rightarrow>
     ('w, player_send list \<times> room_manager \<times> session_manager) io" where
  "fill_room cdc env mm mode rid 0 rm sm = io_return ([], rm, sm)"
| "fill_room cdc env mm mode rid (Suc n) rm sm =
     io_bind (RedisClient_popMatchQueue env mode 0) (\<lambda>pid_opt.
       case pid_opt of
         None \<Rightarrow> io_return ([], rm, sm)
       | Some pid \<Rightarrow>
           (case SessionManager_getByPlayer pid sm of
              None \<Rightarrow> fill_room cdc env mm mode rid n rm sm
            | Some s \<Rightarrow>
                let rm1 = RoomManager_update rid (\<lambda>r. snd (Room_addPlayer pid (sess_username s) r)) rm
                in io_bind (SessionManager_setState env (session_ident s) S_IN_ROOM sm) (\<lambda>(ok1, sm1).
                   io_bind (SessionManager_setCurrentRoom env (session_ident s) rid sm1) (\<lambda>(ok2, sm2).
                     let note = (if notify_cb_set mm
                                 then [(pid, 2004, SerializeToString cdc (MatchSuccessNotify rid ''127.0.0.1:9000''))]
                                 else [])
                     in io_bind (fill_room cdc env mm mode rid n rm1 sm2) (\<lambda>(out, rm2, sm3).
                          io_return (note @ out, rm2, sm3))))))"

text \<open>One pass of the outer loop, after the check of the queue's size.\<close>

definition form_room ::
    "codec \<Rightarrow> 'w env \<Rightarrow> match_manager \<Rightarrow> int \<Rightarrow> room_manager \<Rightarrow> session_manager \<Rightarrow>
     ('w, player_send list \<times> room_manager \<times> session_manager) io" where
  "form_room cdc env mm mode rm sm =
     (let (rid, rm1) = RoomManager_createRoom (match_room_size mm) rm
      in fill_room cdc env mm mode rid (nat (match_room_size mm)) rm1 sm)"

partial_function (option) match_loop ::
    "codec \<Rightarrow> 'w env \<Rightarrow> match_manager \<Rightarrow> int \<Rightarrow> int \<Rightarrow> player_send list \<Rightarrow> room_manager \<Rightarrow> session_manager \<Rightarrow> 'w store \<Rightarrow>
     (fault + (int \<times> player_send list \<times> room_manager \<times> session_manager) \<times> 'w store) option" where
  "match_loop cdc env mm mode formed out rm sm st =
     (case RedisClient_matchQueueSize env mode st of
        Inl e \<Rightarrow> Some (Inl e)
      | Inr (n, st1) \<Rightarrow>
          if n < match_room_size mm then Some (Inr ((formed, out, rm, sm), st1))
          else (case form_room cdc env mm mode rm sm st1 of
                  Inl e \<Rightarrow> Some (Inl e)
                | Inr ((out', rm', sm'), st2) \<Rightarrow> match_loop cdc env mm mode (formed + 1) (out @ out') rm' sm' st2))"

definition MatchManager_tryMatch ::
    "codec \<Rightarrow> 'w env \<Rightarrow> match_manager \<Rightarrow> int \<Rightarrow> room_manager \<Rightarrow> session_manager \<Rightarrow> 'w store \<Rightarrow>
     (fault + (int \<times> player_send list \<times> room_manager \<times> session_manager) \<times> 'w store) option" where
  "MatchManager_tryMatch cdc env mm mode rm sm st = match_loop cdc env mm mode 0 [] rm sm st"

section \<open>The storage the matchmaker relies on\<close>

text \<open>
  In addition to the list commands: SET and SETEX reply with a status and leave the lists under other
  keys alone.
\<close>

definition match_server :: "'w env \<Rightarrow> ('w \<Rightarrow> string \<Rightarrow> string list) \<Rightarrow> bool" where
  "match_server env lst \<longleftrightarrow> list_server env lst \<and>
     (\<forall>ctx k v w. \<exists>x w'. redisCommand env ctx [''SET'', k, v] w = (Replies (Some (Reply_Status x)), w') \<and>
        (\<forall>k'. k' \<noteq> k \<longrightarrow> lst w' k' = lst w k')) \<and>
     (\<forall>ctx k t v w. \<exists>x w'. redisCommand env ctx [''SETEX'', k, t, v] w = (Replies (Some (Reply_Status x)), w') \<and>
        (\<forall>k'. k' \<noteq> k \<longrightarrow> lst w' k' = lst w k'))"

lemma set_waiting:
  assumes "match_server env lst" and "waiting lst mode s ps" and "c_str key \<noteq> match_queue_key mode"
  shows "\<exists>b s'. RedisClient_set env key v s = Inr (b, s') \<and> waiting lst mode s' ps"
proof -
  have ready: "pool_ready s" using assms(2) by (simp add: waiting_def)
  obtain x w where c: "redisCommand env (hd (redis_pool s)) [''SET'', c_str key, c_str v] (world s) = (Replies (Some (Reply_Status x)), w)"
    and w: "\<And>k'. k' \<noteq> c_str key \<Longrightarrow> lst w k' = lst (world s) k'"
    using assms(1) unfolding match_server_def by blast
  have "RedisClient_set env key v s = Inr (True, after_command s w)"
    by (simp add: RedisClient_set_def checked_command_outcome [OF ready c] RedisClient_checkReply_def reply_types)
  with w assms(2,3) show ?thesis by (auto simp: waiting_def)
qed

lemma setEx_waiting:
  assumes "match_server env lst" and "waiting lst mode s ps" and "c_str key \<noteq> match_queue_key mode"
  shows "\<exists>b s'. RedisClient_setEx env key ttl v s = Inr (b, s') \<and> waiting lst mode s' ps"
proof -
  have ready: "pool_ready s" using assms(2) by (simp add: waiting_def)
  obtain x w where c: "redisCommand env (hd (redis_pool s)) [''SETEX'', c_str key, to_string_int ttl, c_str v] (world s)
      = (Replies (Some (Reply_Status x)), w)"
    and w: "\<And>k'. k' \<noteq> c_str key \<Longrightarrow> lst w k' = lst (world s) k'"
    using assms(1) unfolding match_server_def by blast
  have "RedisClient_setEx env key ttl v s = Inr (True, after_command s w)"
    by (simp add: RedisClient_setEx_def checked_command_outcome [OF ready c] RedisClient_checkReply_def reply_types)
  with w assms(2,3) show ?thesis by (auto simp: waiting_def)
qed

lemma other_keys:
  "c_str (RedisClient_makeKey ''session'' i) \<noteq> match_queue_key mode"
  "c_str (RedisClient_makeKey ''online'' i) \<noteq> match_queue_key mode"
  by (simp_all add: RedisClient_makeKey_def match_queue_key_def c_str_def)

lemma save_waiting:
  assumes "match_server env lst" and "waiting lst mode st ps"
  shows "\<exists>st'. SessionManager_saveToRedis env s st = Inr ((), st') \<and> waiting lst mode st' ps"
proof -
  obtain b st1 where 1: "RedisClient_setEx env (RedisClient_makeKey ''session'' (session_ident s)) 3600 (session_text s) st = Inr (b, st1)"
    "waiting lst mode st1 ps"
    using setEx_waiting [OF assms other_keys(1)] by blast
  obtain b' st2 where 2: "RedisClient_set env (RedisClient_makeKey ''online'' (sess_player s)) (to_string_u64 (session_ident s)) st1 = Inr (b', st2)"
    "waiting lst mode st2 ps"
    using set_waiting [OF assms(1) 1(2) other_keys(2)] by blast
  from 1 2 show ?thesis
    by (simp add: SessionManager_saveToRedis_def RedisClient_setSession_def RedisClient_setOnline_def)
qed

section \<open>One room\<close>

text \<open>The session of a matched player, and the tables after it has been written back.\<close>

definition matched :: "room_id \<Rightarrow> session \<Rightarrow> session" where
  "matched rid s = s\<lparr>sess_state := S_IN_ROOM, current_room := rid\<rparr>"

lemma set_in_room:
  assumes "match_server env lst" and "waiting lst mode st ps" and "session_inv sm"
    and "SessionManager_getByPlayer pid sm = Some s"
  obtains sm1 st1 sm2 st2 b1 b2 where
    "SessionManager_setState env (session_ident s) S_IN_ROOM sm st = Inr ((b1, sm1), st1)"
    "SessionManager_setCurrentRoom env (session_ident s) rid sm1 st1 = Inr ((b2, sm2), st2)"
    "waiting lst mode st2 ps" "session_inv sm2"
    "\<And>p. SessionManager_getByPlayer p sm2 = (if p = pid then Some (matched rid s) else SessionManager_getByPlayer p sm)"
proof -
  note by_player = getByPlayerD [OF assms(3,4)]
  let ?sid = "session_ident s"
  let ?s1 = "s\<lparr>sess_state := S_IN_ROOM\<rparr>"
  let ?sm1 = "sm\<lparr>sessions := uput ?sid ?s1 (sessions sm)\<rparr>"
  let ?sm2 = "?sm1\<lparr>sessions := uput ?sid (?s1\<lparr>current_room := rid\<rparr>) (sessions ?sm1)\<rparr>"
  obtain st1 where st1: "SessionManager_saveToRedis env ?s1 st = Inr ((), st1)" "waiting lst mode st1 ps"
    using save_waiting [OF assms(1,2)] by blast
  obtain st2 where st2: "SessionManager_saveToRedis env (?s1\<lparr>current_room := rid\<rparr>) st1 = Inr ((), st2)" "waiting lst mode st2 ps"
    using save_waiting [OF assms(1) st1(2)] by blast
  have 1: "SessionManager_setState env ?sid S_IN_ROOM sm st = Inr ((True, ?sm1), st1)"
    using st1 by_player by (simp add: SessionManager_setState_def Let_def)
  have 2: "SessionManager_setCurrentRoom env ?sid rid ?sm1 st1 = Inr ((True, ?sm2), st2)"
    using st2 by_player by (simp add: SessionManager_setCurrentRoom_def Let_def)
  have inv1: "session_inv ?sm1" by (rule setState_inv [OF assms(3) 1])
  have inv2: "session_inv ?sm2" by (rule setCurrentRoom_inv [OF inv1 2])
  have "SessionManager_getByPlayer pid ?sm1 = Some ?s1" by (simp add: getByPlayer_update [OF assms(3,4)])
  then have "SessionManager_getByPlayer p ?sm2 = (if p = pid then Some (matched rid s) else SessionManager_getByPlayer p sm)" for p
    using getByPlayer_update [OF inv1, of pid ?s1 p "?s1\<lparr>current_room := rid\<rparr>"] getByPlayer_update [OF assms(3,4), of p ?s1]
    by (simp add: matched_def)
  with that [OF 1 2 st2(2) inv2] show ?thesis by blast
qed

definition open_room :: "room \<Rightarrow> bool" where
  "open_room r \<longleftrightarrow> room_state r = R_CREATED \<or> room_state r = R_WAITING_PLAYERS"

lemma addPlayer_open:
  assumes "open_room r" and "Room_playerCount r < max_players r"
  shows "fst (Room_addPlayer p name r) = 0 \<and> open_room (snd (Room_addPlayer p name r)) \<and>
         Room_playerCount (snd (Room_addPlayer p name r)) \<le> Room_playerCount r + 1 \<and>
         max_players (snd (Room_addPlayer p name r)) = max_players r \<and>
         set (ukeys (room_players (snd (Room_addPlayer p name r)))) = insert p (set (ukeys (room_players r)))"
proof -
  have "set (ukeys (uput p v m)) = insert p (set (ukeys m))" for v :: room_player_info and m
    by (simp add: update_keys) (metis insert_absorb list.simps(15) set_append sup_bot.right_neutral)
  then show ?thesis
    using assms by (auto simp: Room_addPlayer_def open_room_def Room_isFull_def Room_playerCount_def Let_def length_uput)
qed

lemma update_keeps_inv:
  assumes "RoomManager_inv rm" and "\<And>r. room_ident (f r) = room_ident r"
  shows "RoomManager_inv (RoomManager_update rid f rm)"
  using assms by (auto simp: RoomManager_inv_def RoomManager_update_def split: option.splits)

lemma update_roomCount [simp]: "RoomManager_roomCount (RoomManager_update rid f rm) = RoomManager_roomCount rm"
  by (simp add: RoomManager_roomCount_def RoomManager_update_def length_uput split: option.splits)

lemma addPlayer_ident [simp]: "room_ident (snd (Room_addPlayer p name r)) = room_ident r"
  by (simp add: Room_addPlayer_def Let_def)

definition has_session :: "session_manager \<Rightarrow> player_id \<Rightarrow> bool" where
  "has_session sm p \<longleftrightarrow> SessionManager_getByPlayer p sm \<noteq> None"

text \<open>What filling a room with the players \<open>qs\<close> at the front of the queue achieves.\<close>

definition filled ::
    "match_manager \<Rightarrow> room_id \<Rightarrow> player_id list \<Rightarrow> room_manager \<Rightarrow> session_manager \<Rightarrow> room \<Rightarrow>
     player_send list \<Rightarrow> room_manager \<Rightarrow> session_manager \<Rightarrow> bool" where
  "filled mm rid qs rm sm r out rm' sm' \<longleftrightarrow>
     session_inv sm' \<and> next_room_id rm' = next_room_id rm \<and> (RoomManager_inv rm \<longrightarrow> RoomManager_inv rm') \<and>
     RoomManager_roomCount rm' = RoomManager_roomCount rm \<and>
     (\<forall>i. i \<noteq> rid \<longrightarrow> uget (rooms rm') i = uget (rooms rm) i) \<and>
     (\<exists>r'. uget (rooms rm') rid = Some r' \<and>
        set (ukeys (room_players r')) = set (ukeys (room_players r)) \<union> {p \<in> set qs. has_session sm p}) \<and>
     (\<forall>p. SessionManager_getByPlayer p sm' =
        (if p \<in> set qs then map_option (matched rid) (SessionManager_getByPlayer p sm) else SessionManager_getByPlayer p sm)) \<and>
     map fst out = (if notify_cb_set mm then filter (has_session sm) qs else [])"

lemma matched_twice [simp]: "matched rid (matched rid s) = matched rid s"
  by (simp add: matched_def)

lemma fill_room_spec:
  assumes "match_server env lst"
  shows "waiting lst mode st (qs @ rest) \<Longrightarrow> session_inv sm \<Longrightarrow> uget (rooms rm) rid = Some r \<Longrightarrow> open_room r \<Longrightarrow>
     Room_playerCount r + int (length qs) \<le> max_players r \<Longrightarrow>
     \<exists>out rm' sm' st'. fill_room cdc env mm mode rid (length qs) rm sm st = Inr ((out, rm', sm'), st') \<and>
       waiting lst mode st' rest \<and> filled mm rid qs rm sm r out rm' sm'"
proof (induction qs arbitrary: st sm rm r)
  case Nil
  then show ?case by (auto simp: filled_def)
next
  case (Cons q qs)
  have "list_server env lst" using assms by (simp add: match_server_def)
  then obtain st1 where pop: "RedisClient_popMatchQueue env mode 0 st = Inr (Some q, st1)" and w1: "waiting lst mode st1 (qs @ rest)"
    using pop_waiting [of env lst mode st q "qs @ rest" 0] Cons.prems(1) by auto
  show ?case
  proof (cases "SessionManager_getByPlayer q sm")
    case None
    have cap: "Room_playerCount r + int (length qs) \<le> max_players r" using Cons.prems(5) by simp
    obtain out rm' sm' st' where
      "fill_room cdc env mm mode rid (length qs) rm sm st1 = Inr ((out, rm', sm'), st')" "waiting lst mode st' rest"
      "filled mm rid qs rm sm r out rm' sm'"
      using Cons.IH [OF w1 Cons.prems(2-4) cap] by blast
    moreover from this(3) None have "filled mm rid (q # qs) rm sm r out rm' sm'"
      by (auto simp: filled_def has_session_def)
    ultimately show ?thesis using pop None by auto
  next
    case (Some s)
    obtain sm1 st2 sm2 st3 b1 b2 where
      1: "SessionManager_setState env (session_ident s) S_IN_ROOM sm st1 = Inr ((b1, sm1), st2)"
      and 2: "SessionManager_setCurrentRoom env (session_ident s) rid sm1 st2 = Inr ((b2, sm2), st3)"
      and w3: "waiting lst mode st3 (qs @ rest)" and inv2: "session_inv sm2"
      and get2: "\<And>p. SessionManager_getByPlayer p sm2 = (if p = q then Some (matched rid s) else SessionManager_getByPlayer p sm)"
      by (rule set_in_room [OF assms w1 Cons.prems(2) Some]) blast
    define r1 where "r1 = snd (Room_addPlayer q (sess_username s) r)"
    define rm1 where "rm1 = RoomManager_update rid (\<lambda>r. snd (Room_addPlayer q (sess_username s) r)) rm"
    have "Room_playerCount r < max_players r" using Cons.prems(5) by simp
    note add = addPlayer_open [OF Cons.prems(4) this, of q "sess_username s", folded r1_def]
    have r1: "uget (rooms rm1) rid = Some r1" "open_room r1" "Room_playerCount r1 + int (length qs) \<le> max_players r1"
      using Cons.prems(3,5) add by (auto simp: rm1_def r1_def RoomManager_update_def)
    obtain out rm' sm' st' where f:
      "fill_room cdc env mm mode rid (length qs) rm1 sm2 st3 = Inr ((out, rm', sm'), st')" "waiting lst mode st' rest"
      "filled mm rid qs rm1 sm2 r1 out rm' sm'"
      using Cons.IH [OF w3 inv2 r1] by blast
    define note' where "note' = (if notify_cb_set mm
        then [(q, 2004 :: u32, SerializeToString cdc (MatchSuccessNotify rid ''127.0.0.1:9000''))] else [])"
    have "fill_room cdc env mm mode rid (length (q # qs)) rm sm st = Inr ((note' @ out, rm', sm'), st')"
      using pop Some 1 2 f(1) by (simp add: rm1_def note'_def)
    moreover have "filled mm rid (q # qs) rm sm r (note' @ out) rm' sm'"
    proof -
      have has: "has_session sm2 p = has_session sm p" for p
        using get2 [of p] Some by (simp add: has_session_def)
      then have has_eq: "has_session sm2 = has_session sm" by (rule ext)
      have hasq: "has_session sm q" using Some by (simp add: has_session_def)
      have keep: "uget (rooms rm1) i = uget (rooms rm) i" if "i \<noteq> rid" for i
        using that by (simp add: rm1_def RoomManager_update_def split: option.splits)
      have next1: "next_room_id rm1 = next_room_id rm"
        by (simp add: rm1_def RoomManager_update_def split: option.splits)
      have get: "SessionManager_getByPlayer p sm' = (if p \<in> set (q # qs) then map_option (matched rid) (SessionManager_getByPlayer p sm)
          else SessionManager_getByPlayer p sm)" for p
        using f(3) get2 [of p] Some by (auto simp: filled_def)
      obtain r' where r': "uget (rooms rm') rid = Some r'"
        "set (ukeys (room_players r')) = set (ukeys (room_players r1)) \<union> {p \<in> set qs. has_session sm2 p}"
        using f(3) by (auto simp: filled_def)
      have "set (ukeys (room_players r')) = set (ukeys (room_players r)) \<union> {p \<in> set (q # qs). has_session sm p}"
        using r'(2) add hasq has by auto
      moreover have "map fst (note' @ out) = (if notify_cb_set mm then filter (has_session sm) (q # qs) else [])"
        using f(3) hasq has_eq by (simp add: filled_def note'_def)
      moreover have "RoomManager_inv rm \<longrightarrow> RoomManager_inv rm'" "RoomManager_roomCount rm' = RoomManager_roomCount rm"
        using f(3) by (auto simp: filled_def rm1_def intro: update_keeps_inv)
      ultimately show ?thesis
        using f(3) keep next1 r'(1) get by (simp add: filled_def)
    qed
    ultimately show ?thesis using f(2) by blast
  qed
qed

section \<open>The whole loop\<close>

text \<open>
  What a call achieves for the players \<open>ps\<close> in the queue: one room per full group, under consecutive
  ids, with exactly the players of the group that have a session; older rooms stay as they were.
\<close>

definition grouped :: "nat \<Rightarrow> player_id list \<Rightarrow> room_manager \<Rightarrow> session_manager \<Rightarrow> room_manager \<Rightarrow> session_manager \<Rightarrow> bool" where
  "grouped n ps rm sm rm' sm' \<longleftrightarrow>
     session_inv sm' \<and> has_session sm' = has_session sm \<and> RoomManager_inv rm' \<and>
     RoomManager_roomCount rm' = RoomManager_roomCount rm + length ps div n \<and>
     (\<forall>i r. RoomManager_getRoom i rm = Some r \<longrightarrow> RoomManager_getRoom i rm' = Some r) \<and>
     (\<forall>k < length ps div n. \<exists>r. RoomManager_getRoom (next_room_id rm + of_nat k) rm' = Some r \<and>
        set (ukeys (room_players r)) = {p \<in> set (take n (drop (k * n) ps)). has_session sm p})"

lemma form_room_spec:
  assumes "match_server env lst" and "waiting lst mode st (qs @ rest)" and "session_inv sm" and "RoomManager_inv rm"
    and "next_room_id rm \<noteq> - 1" and "match_room_size mm = int (length qs)"
  shows "\<exists>out rm' sm' st' r. form_room cdc env mm mode rm sm st = Inr ((out, rm', sm'), st') \<and> waiting lst mode st' rest \<and>
     session_inv sm' \<and> has_session sm' = has_session sm \<and> RoomManager_inv rm' \<and> next_room_id rm' = next_room_id rm + 1 \<and>
     RoomManager_roomCount rm' = RoomManager_roomCount rm + 1 \<and> RoomManager_getRoom (next_room_id rm) rm = None \<and>
     RoomManager_getRoom (next_room_id rm) rm' = Some r \<and>
     set (ukeys (room_players r)) = {p \<in> set qs. has_session sm p} \<and>
     (\<forall>i. i \<noteq> next_room_id rm \<longrightarrow> RoomManager_getRoom i rm' = RoomManager_getRoom i rm)"
proof -
  define n rm1 where "n = match_room_size mm" and "rm1 = snd (RoomManager_createRoom n rm)"
  let ?i = "next_room_id rm"
  have c: "RoomManager_createRoom n rm = (?i, rm1)" and next1: "next_room_id rm1 = ?i + 1"
    by (simp_all add: rm1_def RoomManager_createRoom_def Let_def)
  note spec = createRoom_spec [OF assms(4,5), where n = n, unfolded c fst_conv snd_conv]
  have r: "uget (rooms rm1) ?i = Some (Room_new ?i n)" using spec(3) [of ?i] by (simp add: RoomManager_getRoom_def)
  have room: "open_room (Room_new ?i n)" "Room_playerCount (Room_new ?i n) + int (length qs) \<le> max_players (Room_new ?i n)"
    using assms(6) by (simp_all add: open_room_def Room_new_def Room_playerCount_def n_def)
  obtain out rm' sm' st' where f: "fill_room cdc env mm mode ?i (length qs) rm1 sm st = Inr ((out, rm', sm'), st')"
    "waiting lst mode st' rest" "filled mm ?i qs rm1 sm (Room_new ?i n) out rm' sm'"
    using fill_room_spec [OF assms(1,2,3) r room] by blast
  have "form_room cdc env mm mode rm sm st = Inr ((out, rm', sm'), st')"
    using f(1) c assms(6) by (simp add: form_room_def n_def)
  moreover have "has_session sm' = has_session sm"
    using f(3) by (auto simp: filled_def has_session_def fun_eq_iff)
  moreover obtain r' where "uget (rooms rm') ?i = Some r'" "set (ukeys (room_players r')) = {p \<in> set qs. has_session sm p}"
    using f(3) by (auto simp: filled_def Room_new_def)
  moreover have "RoomManager_getRoom j rm' = RoomManager_getRoom j rm" if "j \<noteq> ?i" for j
    using f(3) spec(3) [of j] that by (simp add: filled_def RoomManager_getRoom_def)
  moreover have "session_inv sm'" "RoomManager_inv rm'" "next_room_id rm' = ?i + 1"
    "RoomManager_roomCount rm' = RoomManager_roomCount rm + 1"
    using f(3) spec(1,4) next1 by (simp_all add: filled_def)
  moreover have "RoomManager_getRoom ?i rm = None" by (rule spec(2))
  ultimately show ?thesis
    using f(2) by (auto simp: RoomManager_getRoom_def)
qed

lemma grouped_step:
  assumes n: "0 < n" "n \<le> length ps" and fits: "unat (next_room_id rm) + length ps < 2 ^ 64"
    and new: "RoomManager_getRoom (next_room_id rm) rm = None" "RoomManager_getRoom (next_room_id rm) rm1 = Some r"
      "set (ukeys (room_players r)) = {p \<in> set (take n ps). has_session sm p}"
      "\<And>i. i \<noteq> next_room_id rm \<Longrightarrow> RoomManager_getRoom i rm1 = RoomManager_getRoom i rm"
    and next1: "next_room_id rm1 = next_room_id rm + 1" and count: "RoomManager_roomCount rm1 = RoomManager_roomCount rm + 1"
    and has: "has_session sm1 = has_session sm"
    and rest: "grouped n (drop n ps) rm1 sm1 rm' sm'"
  shows "grouped n ps rm sm rm' sm'"
proof -
  have len: "length ps div n = Suc (length (drop n ps) div n)"
    using n by (simp add: le_div_geq)
  have "\<exists>r. RoomManager_getRoom (next_room_id rm + of_nat k) rm' = Some r \<and>
        set (ukeys (room_players r)) = {p \<in> set (take n (drop (k * n) ps)). has_session sm p}"
    if "k < length ps div n" for k
  proof (cases k)
    case 0
    then show ?thesis using rest new(2,3) by (auto simp: grouped_def)
  next
    case (Suc j)
    then have "j < length (drop n ps) div n" using that len by simp
    then obtain r' where "RoomManager_getRoom (next_room_id rm1 + of_nat j) rm' = Some r'"
      "set (ukeys (room_players r')) = {p \<in> set (take n (drop (j * n) (drop n ps))). has_session sm1 p}"
      using rest unfolding grouped_def by blast
    moreover have "next_room_id rm1 + of_nat j = next_room_id rm + of_nat k"
      by (simp add: Suc next1)
    moreover have "drop (j * n) (drop n ps) = drop (k * n) ps"
      by (simp add: Suc add.commute)
    ultimately show ?thesis unfolding has by metis
  qed
  moreover have "RoomManager_getRoom i rm' = Some q" if "RoomManager_getRoom i rm = Some q" for i q
  proof -
    have "i \<noteq> next_room_id rm" using that new(1) by auto
    then have "RoomManager_getRoom i rm1 = Some q" using new(4) that by simp
    then show ?thesis using rest by (simp add: grouped_def)
  qed
  ultimately show ?thesis
    using rest len count has by (simp add: grouped_def)
qed

lemma match_loop_spec:
  assumes "match_server env lst" and "0 < n" and "match_room_size mm = int n"
  shows "waiting lst mode st ps \<Longrightarrow> length ps < 2 ^ 31 \<Longrightarrow> session_inv sm \<Longrightarrow> RoomManager_inv rm \<Longrightarrow>
     unat (next_room_id rm) + length ps < 2 ^ 64 \<Longrightarrow>
     \<exists>out' rm' sm' st'. match_loop cdc env mm mode formed out rm sm st =
         Some (Inr ((formed + int (length ps div n), out', rm', sm'), st')) \<and>
       waiting lst mode st' (drop (length ps div n * n) ps) \<and> grouped n ps rm sm rm' sm'"
proof (induction "length ps" arbitrary: ps st sm rm formed out rule: less_induct)
  case less
  have lists: "list_server env lst" using assms(1) by (simp add: match_server_def)
  obtain st1 where size: "RedisClient_matchQueueSize env mode st = Inr (int (length ps), st1)" and w1: "waiting lst mode st1 ps"
    using size_waiting [OF lists less.prems(1,2)] by blast
  show ?case
  proof (cases "length ps < n")
    case True
    then show ?thesis
      using size w1 less.prems assms(3) by (subst match_loop.simps) (simp add: grouped_def)
  next
    case False
    then have n: "n \<le> length ps" by simp
    have room: "match_room_size mm = int (length (take n ps))" using n assms(3) by simp
    have "next_room_id rm \<noteq> - 1"
    proof
      assume "next_room_id rm = - 1"
      then have "unat (next_room_id rm) = 2 ^ 64 - 1"
        by (simp add: unsigned_minus_1_eq_mask mask_eq_exp_minus_1)
      with less.prems(5) n assms(2) show False by linarith
    qed
    then obtain out1 rm1 sm1 st2 r where form:
      "form_room cdc env mm mode rm sm st1 = Inr ((out1, rm1, sm1), st2)" "waiting lst mode st2 (drop n ps)"
      "session_inv sm1" "has_session sm1 = has_session sm" "RoomManager_inv rm1" "next_room_id rm1 = next_room_id rm + 1"
      "RoomManager_roomCount rm1 = RoomManager_roomCount rm + 1" "RoomManager_getRoom (next_room_id rm) rm = None"
      "RoomManager_getRoom (next_room_id rm) rm1 = Some r"
      "set (ukeys (room_players r)) = {p \<in> set (take n ps). has_session sm p}"
      "\<And>i. i \<noteq> next_room_id rm \<Longrightarrow> RoomManager_getRoom i rm1 = RoomManager_getRoom i rm"
      using form_room_spec [OF assms(1) _ less.prems(3,4) _ room, of mode st1 "drop n ps" cdc] w1 by auto
    have "unat (next_room_id rm1) \<le> unat (next_room_id rm) + 1"
      unfolding form(6) by (simp add: unat_word_ariths)
    then have fits: "unat (next_room_id rm1) + length (drop n ps) < 2 ^ 64"
      using less.prems(5) n assms(2) by simp
    have "length (drop n ps) < length ps" using n assms(2) by simp
    have "length (drop n ps) < 2 ^ 31" using less.prems(2) by simp
    from less.hyps [OF \<open>length (drop n ps) < length ps\<close> form(2) this form(3,5) fits, of "formed + 1" "out @ out1"]
    obtain out' rm' sm' st' where ih:
      "match_loop cdc env mm mode (formed + 1) (out @ out1) rm1 sm1 st2 =
         Some (Inr ((formed + 1 + int (length (drop n ps) div n), out', rm', sm'), st'))"
      "waiting lst mode st' (drop (length (drop n ps) div n * n) (drop n ps))" "grouped n (drop n ps) rm1 sm1 rm' sm'"
      by blast
    have len: "length ps div n = Suc (length (drop n ps) div n)"
      using n assms(2) by (simp add: le_div_geq)
    have "match_loop cdc env mm mode formed out rm sm st =
        Some (Inr ((formed + int (length ps div n), out', rm', sm'), st'))"
      using size form(1) ih(1) n assms(3) len by (subst match_loop.simps) simp
    moreover have "waiting lst mode st' (drop (length ps div n * n) ps)"
      using ih(2) len by (simp add: add.commute)
    moreover have "grouped n ps rm sm rm' sm'"
      by (rule grouped_step [OF assms(2) n less.prems(5) form(8,9,10,11,6,7,4) ih(3)])
    ultimately show ?thesis by blast
  qed
qed

section \<open>A room size that is not positive\<close>

definition stuck :: "('w \<Rightarrow> string \<Rightarrow> string list) \<Rightarrow> 'w env \<Rightarrow> match_manager \<Rightarrow> int \<Rightarrow> 'w store \<Rightarrow> bool" where
  "stuck lst env mm mode st \<longleftrightarrow>
     match_server env lst \<and> match_room_size mm \<le> 0 \<and> (\<exists>ps. waiting lst mode st ps \<and> length ps < 2 ^ 31)"

lemma form_room_empty:
  "match_room_size mm \<le> 0 \<Longrightarrow>
   form_room cdc env mm mode rm sm st = Inr (([], snd (RoomManager_createRoom (match_room_size mm) rm), sm), st)"
  by (simp add: form_room_def case_prod_beta)

lemma match_loop_stuck: "match_loop cdc env mm mode formed out rm sm st = Some y \<Longrightarrow> \<not> stuck lst env mm mode st"
proof (induction rule: match_loop.raw_induct [rotated, consumes 1, case_names step])
  case (step match_loop cdc env mm mode formed out rm sm st y)
  show ?case
  proof
    assume "stuck lst env mm mode st"
    then obtain ps where env: "match_server env lst" "match_room_size mm \<le> 0" and w: "waiting lst mode st ps" "length ps < 2 ^ 31"
      by (auto simp: stuck_def)
    then have "list_server env lst" by (simp add: match_server_def)
    then obtain st1 where st1: "RedisClient_matchQueueSize env mode st = Inr (int (length ps), st1)" "waiting lst mode st1 ps"
      using size_waiting w by blast
    have "match_loop cdc env mm mode (formed + 1) out (snd (RoomManager_createRoom (match_room_size mm) rm)) sm st1 = Some y"
      using step(2) st1(1) env(2) by (simp add: form_room_empty)
    from step(1) [OF this] env w st1(2) show False by (auto simp: stuck_def)
  qed
qed

section \<open>Properties\<close>

text \<open>
  C12. The matchmaker terminates and matches in order of arrival: with a positive room size \<open>n\<close> and the
  players \<open>ps\<close> waiting, \<open>tryMatch\<close> returns, has formed exactly \<open>length ps div n\<close> rooms under new
  consecutive ids, the \<open>k\<close>-th holding the players of the \<open>k\<close>-th group of \<open>n\<close> who have a session,
  leaves the rest of the queue waiting in the same order, and does not touch the rooms there were.
\<close>
theorem tryMatch_forms_groups:
  fixes cdc :: codec
  assumes "match_server env lst" and "0 < n" and "match_room_size mm = int n"
    and "waiting lst mode st ps" and "length ps < 2 ^ 31"
    and "session_inv sm" and "RoomManager_inv rm" and "unat (next_room_id rm) + length ps < 2 ^ 64"
  shows "\<exists>out rm' sm' st'.
     MatchManager_tryMatch cdc env mm mode rm sm st = Some (Inr ((int (length ps div n), out, rm', sm'), st')) \<and>
     waiting lst mode st' (drop (length ps div n * n) ps) \<and>
     RoomManager_roomCount rm' = RoomManager_roomCount rm + length ps div n \<and>
     (\<forall>i r. RoomManager_getRoom i rm = Some r \<longrightarrow> RoomManager_getRoom i rm' = Some r) \<and>
     (\<forall>k < length ps div n. \<exists>r. RoomManager_getRoom (next_room_id rm + of_nat k) rm' = Some r \<and>
        set (ukeys (room_players r)) = {p \<in> set (take n (drop (k * n) ps)). SessionManager_getByPlayer p sm \<noteq> None})"
proof -
  obtain out rm' sm' st' where
    "match_loop cdc env mm mode 0 [] rm sm st = Some (Inr ((0 + int (length ps div n), out, rm', sm'), st'))"
    "waiting lst mode st' (drop (length ps div n * n) ps)" "grouped n ps rm sm rm' sm'"
    using match_loop_spec [OF assms] by blast
  then show ?thesis
    unfolding MatchManager_tryMatch_def grouped_def has_session_def by auto
qed

lemma example_match_server: "match_server example_env (\<lambda>w. w)"
  using example_list_server by (simp add: match_server_def example_env_def example_redis_def)

definition waiting_store :: "player_id list \<Rightarrow> (string \<Rightarrow> string list) store" where
  "waiting_store ps = example_store\<lparr>world := (\<lambda>k. [])(match_queue_key 0 := rev (map to_string_u64 ps))\<rparr>"

lemma waiting_store_waiting: "waiting (\<lambda>w. w) 0 (waiting_store ps) ps"
  by (simp add: waiting_def pool_ready_def waiting_store_def example_store_def)

theorem tryMatch_forms_groups_witness:
  "\<exists>out rm' sm' st'.
     MatchManager_tryMatch example_codec example_env \<lparr>match_room_size = 2, notify_cb_set = True\<rparr> 0
       RoomManager_new SessionManager_new (waiting_store [5, 3, 9, 4, 8]) = Some (Inr ((2, out, rm', sm'), st')) \<and>
     waiting (\<lambda>w. w) 0 st' [8] \<and> RoomManager_roomCount rm' = 2"
proof -
  let ?mm = "\<lparr>match_room_size = 2, notify_cb_set = True\<rparr>" and ?ps = "[5, 3, 9, 4, 8] :: player_id list"
  have h: "0 < (2 :: nat)" "match_room_size ?mm = int 2" "length ?ps < 2 ^ 31"
    "unat (next_room_id RoomManager_new) + length ?ps < 2 ^ 64"
    by (simp_all add: RoomManager_new_def)
  show ?thesis
    using tryMatch_forms_groups [OF example_match_server h(1,2) waiting_store_waiting h(3)
        new_sessions_inv new_rooms_inv h(4), of example_codec]
    by (elim exE conjE) (simp add: RoomManager_new_def RoomManager_roomCount_def)
qed

text \<open>
  With a room size that is not positive the matchmaker never returns: every check of the queue finds
  enough players, and each pass creates another empty room.
\<close>
theorem tryMatch_never_returns:
  assumes "match_server env lst" and "match_room_size mm \<le> 0"
    and "waiting lst mode st ps" and "length ps < 2 ^ 31"
  shows "MatchManager_tryMatch cdc env mm mode rm sm st = None"
proof (rule ccontr)
  assume "\<not> ?thesis"
  then obtain y where "match_loop cdc env mm mode 0 [] rm sm st = Some y"
    by (auto simp: MatchManager_tryMatch_def)
  from match_loop_stuck [OF this, of lst] assms show False by (auto simp: stuck_def)
qed

theorem tryMatch_never_returns_witness:
  "MatchManager_tryMatch example_codec example_env \<lparr>match_room_size = 0, notify_cb_set = True\<rparr> 0
     RoomManager_new SessionManager_new (waiting_store []) = None"
  by (rule tryMatch_never_returns [OF example_match_server _ waiting_store_waiting]) simp_all

end
