(* ===== verification/Battle_Manager.thy ===== *)
theory Battle_Manager
  imports Session_Manager Logic_Worker Room
begin

text \<open>
  \<open>src/src/game/battle_manager.{h,cpp}\<close>: the life cycle of battles. A battle is put on one of the logic
  workers, commands and disconnections are passed on to that worker, and the end of a battle notifies
  the players and takes the room from its worker. A pointer to a worker is its index in the vector,
  the one-shot flags that guard the start of a worker's thread are the list of flags already used.
\<close>

section \<open>State\<close>

record settlement_entry =
  se_player_id :: player_id
  se_kills :: int
  se_deaths :: int
  se_damage_dealt :: int
  se_damage_taken :: int
  se_rank :: int

record battle_manager =
  bm_workers :: "logic_worker list"
  room_to_worker :: "(room_id, nat) umap"
  bm_send_cb :: bool
  thread_flags :: "int list"

definition BattleManager_new :: "int \<Rightarrow> battle_manager" where
  "BattleManager_new logic_threads =
     \<lparr>bm_workers = map (\<lambda>i. LogicWorker_new (int i)) [0..<nat logic_threads], room_to_worker = [],
      bm_send_cb = False, thread_flags = []\<rparr>"

text \<open>The remainder by the number of workers; with no workers it is undefined.\<close>

definition BattleManager_assignWorker :: "room_id \<Rightarrow> battle_manager \<Rightarrow> fault + nat" where
  "BattleManager_assignWorker rid bm =
     (if bm_workers bm = [] then Inl Undefined else Inr (unat rid mod length (bm_workers bm)))"

definition BattleManager_setSendCallback :: "bool \<Rightarrow> battle_manager \<Rightarrow> battle_manager" where
  "BattleManager_setSendCallback cb bm =
     bm\<lparr>bm_send_cb := cb, bm_workers := map (LogicWorker_setSendCallback cb) (bm_workers bm)\<rparr>"

definition BattleManager_activeBattles :: "battle_manager \<Rightarrow> nat" where
  "BattleManager_activeBattles bm = length (room_to_worker bm)"

section \<open>The start of a battle\<close>

definition battle_player_of :: "player_id \<Rightarrow> room_player_info \<Rightarrow> nat \<Rightarrow> battle_player" where
  "battle_player_of pid info n =
     BattlePlayer_default\<lparr>bp_id := pid, bp_username := rp_username info,
        pos_x := f_mul (f_of_int (int n)) (f_lit 50 1), pos_y := f_zero False\<rparr>"

fun build_players :: "(player_id, room_player_info) umap \<Rightarrow> battle_players \<Rightarrow> battle_players" where
  "build_players [] bps = bps"
| "build_players ((pid, info) # ps) bps = build_players ps (uput pid (battle_player_of pid info (length bps)) bps)"

text \<open>
  The loop that starts threads. A worker without rooms first applies its pending operations; \<open>clk\<close> gives
  the readings of the clock there. There are sixteen flags, so an id outside is a read out of bounds.
\<close>

fun start_workers :: "(int \<Rightarrow> nat \<Rightarrow> time_ns) \<Rightarrow> logic_worker list \<Rightarrow> int list \<Rightarrow> fault + logic_worker list \<times> int list" where
  "start_workers clk [] flags = Inr ([], flags)"
| "start_workers clk (w # ws) flags =
     (let w1 = (if LogicWorker_roomCount w = 0 then LogicWorker_drainPendingOps (clk (lw_id w)) w else w)
      in if LogicWorker_roomCount w1 \<ge> 1 \<and> \<not> (0 \<le> lw_id w1 \<and> lw_id w1 < 16) then Inl Undefined
         else let flags1 = (if LogicWorker_roomCount w1 \<ge> 1 then List.insert (lw_id w1) flags else flags)
              in res_bind (start_workers clk ws flags1) (\<lambda>(ws', flags'). Inr (w1 # ws', flags')))"

fun enter_battle :: "'w env \<Rightarrow> (player_id, room_player_info) umap \<Rightarrow> session_manager \<Rightarrow> ('w, session_manager) io" where
  "enter_battle env [] sm = io_return sm"
| "enter_battle env ((pid, info) # ps) sm =
     (case SessionManager_getByPlayer pid sm of
        None \<Rightarrow> enter_battle env ps sm
      | Some s \<Rightarrow> io_bind (SessionManager_setState env (session_ident s) S_IN_BATTLE sm)
          (\<lambda>(ok, sm'). enter_battle env ps sm'))"

definition BattleManager_startBattle ::
    "'w env \<Rightarrow> (int \<Rightarrow> nat \<Rightarrow> time_ns) \<Rightarrow> room \<Rightarrow> battle_manager \<Rightarrow> session_manager \<Rightarrow> ('w, battle_manager \<times> session_manager) io" where
  "BattleManager_startBattle env clk room bm sm =
     (let rid = room_ident room; bps = build_players (room_players room) []
      in case BattleManager_assignWorker rid bm of
           Inl e \<Rightarrow> io_fail e
         | Inr i \<Rightarrow>
             let ws = (bm_workers bm)[i := LogicWorker_addRoom rid bps (bm_workers bm ! i)]
             in case start_workers clk ws (thread_flags bm) of
                  Inl e \<Rightarrow> io_fail e
                | Inr (ws', flags) \<Rightarrow>
                    io_bind (enter_battle env (room_players room) sm) (\<lambda>sm'.
                      io_return (bm\<lparr>bm_workers := ws', room_to_worker := uput rid i (room_to_worker bm), thread_flags := flags\<rparr>, sm')))"

section \<open>The end of a battle\<close>

text \<open>The loop over the players; \<open>mysql\<close> says whether there is a database client.\<close>

fun leave_battle ::
    "codec \<Rightarrow> 'w env \<Rightarrow> bool \<Rightarrow> bool \<Rightarrow> room_id \<Rightarrow> (player_id, room_player_info) umap \<Rightarrow> session_manager \<Rightarrow>
     ('w, player_send list \<times> session_manager) io" where
  "leave_battle cdc env mysql cb rid [] sm = io_return ([], sm)"
| "leave_battle cdc env mysql cb rid ((pid, info) # ps) sm =
     io_bind (case SessionManager_getByPlayer pid sm of
                None \<Rightarrow> io_return sm
              | Some s \<Rightarrow>
                  io_bind (SessionManager_setState env (session_ident s) S_IN_LOBBY sm) (\<lambda>(ok1, sm1).
                  io_bind (SessionManager_setCurrentRoom env (session_ident s) 0 sm1) (\<lambda>(ok2, sm2). io_return sm2)))
       (\<lambda>sm'. io_bind (if mysql then MysqlClient_saveBattleResult env pid rid 0 0 0 0 1 else io_return ())
       (\<lambda>_. io_bind (leave_battle cdc env mysql cb rid ps sm')
       (\<lambda>(out, sm''). io_return
          ((if cb then [(pid, 6001, SerializeToString cdc (BattleEndNotify rid 60)),
                        (pid, 6002, SerializeToString cdc (BattleSettlementNotify pid 0 0 0 0 1))] else []) @ out, sm''))))"

definition BattleManager_endBattle ::
    "codec \<Rightarrow> 'w env \<Rightarrow> bool \<Rightarrow> room_id \<Rightarrow> battle_manager \<Rightarrow> room_manager \<Rightarrow> session_manager \<Rightarrow>
     ('w, player_send list \<times> battle_manager \<times> room_manager \<times> session_manager) io" where
  "BattleManager_endBattle cdc env mysql rid bm rm sm =
     (case uget (room_to_worker bm) rid of
        None \<Rightarrow> io_return ([], bm, rm, sm)
      | Some i \<Rightarrow>
          (case RoomManager_getRoom rid rm of
             None \<Rightarrow> io_return ([], bm, rm, sm)
           | Some r \<Rightarrow>
               io_bind (leave_battle cdc env mysql (bm_send_cb bm) rid (room_players (Room_endBattle r)) sm) (\<lambda>(out, sm').
                 io_return (out,
                   bm\<lparr>bm_workers := (bm_workers bm)[i := LogicWorker_removeRoom rid (bm_workers bm ! i)],
                      room_to_worker := uerase rid (room_to_worker bm)\<rparr>,
                   RoomManager_update rid Room_endBattle rm, sm'))))"

section \<open>Messages to a running battle\<close>

definition BattleManager_dispatchCommand :: "room_id \<Rightarrow> command \<Rightarrow> battle_manager \<Rightarrow> battle_manager" where
  "BattleManager_dispatchCommand rid cmd bm =
     (case uget (room_to_worker bm) rid of
        None \<Rightarrow> bm
      | Some i \<Rightarrow> bm\<lparr>bm_workers := (bm_workers bm)[i := LogicWorker_pushCommand cmd (bm_workers bm ! i)]\<rparr>)"

definition BattleManager_onPlayerDisconnect :: "player_id \<Rightarrow> room_id \<Rightarrow> battle_manager \<Rightarrow> battle_manager" where
  "BattleManager_onPlayerDisconnect pid rid bm =
     (case uget (room_to_worker bm) rid of
        None \<Rightarrow> bm
      | Some i \<Rightarrow> bm\<lparr>bm_workers := (bm_workers bm)[i := LogicWorker_markDisconnected pid rid (bm_workers bm ! i)]\<rparr>)"

definition BattleManager_sendSnapshot :: "codec \<Rightarrow> player_id \<Rightarrow> room_id \<Rightarrow> battle_manager \<Rightarrow> player_send list" where
  "BattleManager_sendSnapshot cdc pid rid bm =
     (case uget (room_to_worker bm) rid of
        None \<Rightarrow> []
      | Some i \<Rightarrow>
          let snapshot = LogicWorker_getSnapshot cdc rid (bm_workers bm ! i)
          in if snapshot = [] then [] else if bm_send_cb bm then [(pid, 5003, snapshot)] else [])"

section \<open>Settlement\<close>

text \<open>
  \<open>std::sort\<close> may put elements that compare equal in any order, so the sorting function is an argument;
  \<open>is_std_sort\<close> is what the library promises for a strict weak ordering.
\<close>

definition is_std_sort :: "(('a \<Rightarrow> 'a \<Rightarrow> bool) \<Rightarrow> 'a list \<Rightarrow> 'a list) \<Rightarrow> bool" where
  "is_std_sort srt \<longleftrightarrow>
     (\<forall>before xs. asymp before \<and> transp before \<and> transp (\<lambda>a b. \<not> before a b \<and> \<not> before b a) \<longrightarrow>
        mset (srt before xs) = mset xs \<and> sorted_wrt (\<lambda>a b. \<not> before b a) (srt before xs))"

definition settlement_of :: "player_id \<Rightarrow> battle_player \<Rightarrow> settlement_entry" where
  "settlement_of pid bp =
     \<lparr>se_player_id = pid, se_kills = kills bp, se_deaths = deaths bp, se_damage_dealt = damage_dealt bp,
      se_damage_taken = damage_taken bp, se_rank = 0\<rparr>"

text \<open>The ranks are written in place, \<open>i\<close> being the index of the first entry; the cast to \<open>int32_t\<close> wraps.\<close>

fun assign_ranks :: "nat \<Rightarrow> settlement_entry list \<Rightarrow> settlement_entry list" where
  "assign_ranks i [] = []"
| "assign_ranks i (e # es) = e\<lparr>se_rank := sint (of_nat (i + 1) :: 32 word)\<rparr> # assign_ranks (i + 1) es"

definition BattleManager_computeSettlement ::
    "((settlement_entry \<Rightarrow> settlement_entry \<Rightarrow> bool) \<Rightarrow> settlement_entry list \<Rightarrow> settlement_entry list) \<Rightarrow>
     battle_players \<Rightarrow> settlement_entry list" where
  "BattleManager_computeSettlement srt players =
     assign_ranks 0 (srt (\<lambda>a b. se_kills a > se_kills b) (map (\<lambda>(pid, bp). settlement_of pid bp) players))"

section \<open>Ranks\<close>

lemma assign_ranks_length [simp]: "length (assign_ranks i es) = length es"
  by (induction i es rule: assign_ranks.induct) simp_all

lemma assign_ranks_nth:
  "k < length es \<Longrightarrow> assign_ranks i es ! k = (es ! k)\<lparr>se_rank := sint (of_nat (i + k + 1) :: 32 word)\<rparr>"
  by (induction i es arbitrary: k rule: assign_ranks.induct) (auto simp: nth_Cons split: nat.splits)

lemma assign_ranks_erase: "map (\<lambda>e. e\<lparr>se_rank := x\<rparr>) (assign_ranks i es) = map (\<lambda>e. e\<lparr>se_rank := x\<rparr>) es"
  by (induction i es rule: assign_ranks.induct) simp_all

lemma sint_small: "k < 2 ^ 31 \<Longrightarrow> sint (of_nat k :: 32 word) = int k"
  by (simp add: signed_of_nat signed_take_bit_int_eq_self)

lemma kills_order: "asymp (\<lambda>a b. se_kills b < se_kills a)" "transp (\<lambda>a b. se_kills b < se_kills a)"
  "transp (\<lambda>a b. \<not> se_kills b < se_kills a \<and> \<not> se_kills a < se_kills b)"
  by (auto intro!: asympI transpI)

section \<open>The rooms of a worker, pending operations included\<close>

fun op_keys :: "pending_op \<Rightarrow> room_id set \<Rightarrow> room_id set" where
  "op_keys (Op_AddRoom rid ps) K = insert rid K"
| "op_keys (Op_RemoveRoom rid) K = K - {rid}"
| "op_keys (Op_MarkDisconnected pid rid) K = K"

definition room_keys :: "logic_worker \<Rightarrow> room_id set" where
  "room_keys w = fold op_keys (pending_ops w) (set (ukeys (lw_rooms w)))"

lemma ukeys_dom: "set (ukeys m) = {k. uget m k \<noteq> None}"
  using uget_in_keys [of m] by blast

lemma apply_op_keys: "set (ukeys (apply_op now oper rs)) = op_keys oper (set (ukeys rs))"
  unfolding ukeys_dom by (cases oper) (auto split: option.splits)

lemma push_keys: "room_keys (push_op oper w) = op_keys oper (room_keys w)"
  by (simp add: room_keys_def push_op_def)

lemma drain_one_keys: "room_keys (drain_one now w) = room_keys w"
  unfolding room_keys_def drain_one_def by (cases "pending_ops w") (simp_all add: apply_op_keys del: set_map)

lemma settled_keys: "set (ukeys (settled_rooms now w)) = room_keys w"
proof -
  have "set (ukeys (fold (apply_op now) opers rs)) = fold op_keys opers (set (ukeys rs))" for opers rs
    by (induction opers arbitrary: rs) (simp_all add: apply_op_keys del: set_map)
  then show ?thesis by (simp add: settled_rooms_def room_keys_def)
qed

text \<open>Applying everything that is pending, whatever the clock says.\<close>

lemma drain_induct [case_names empty step]:
  assumes "\<And>w. pending_ops w = [] \<Longrightarrow> P w w"
    and "\<And>now w w'. pending_ops w \<noteq> [] \<Longrightarrow> P (drain_one now w) w' \<Longrightarrow> P w w'"
  shows "P w (LogicWorker_drainPendingOps clk w)"
proof (induction clk w rule: LogicWorker_drainPendingOps.induct)
  case (1 clk w)
  show ?case
  proof (cases "pending_ops w = []")
    case True
    then show ?thesis using assms(1) by (subst LogicWorker_drainPendingOps.simps) simp
  next
    case False
    then show ?thesis using assms(2) [OF False 1 [OF False]] by (subst LogicWorker_drainPendingOps.simps) simp
  qed
qed

text \<open>What draining leaves as it was, and what follows when the last pending operation adds a room.\<close>

definition kept :: "logic_worker \<Rightarrow> logic_worker \<Rightarrow> bool" where
  "kept w w' \<longleftrightarrow>
     lw_id w' = lw_id w \<and> room_keys w' = room_keys w \<and> (worker_inv w \<longrightarrow> worker_inv w')"

lemma kept_refl [simp]: "kept w w"
  by (simp add: kept_def)

lemma kept_drain_one: "kept (drain_one now w) w' \<Longrightarrow> kept w w'"
proof -
  have "lw_id (drain_one now w) = lw_id w"
    by (simp add: drain_one_def split: list.splits)
  then show "kept (drain_one now w) w' \<Longrightarrow> kept w w'"
    by (auto simp: kept_def drain_one_keys drain_one_inv)
qed

lemma drain_keeps:
  "kept w (LogicWorker_drainPendingOps clk w) \<and> pending_ops (LogicWorker_drainPendingOps clk w) = []"
  by (rule drain_induct [where P = "\<lambda>w w'. kept w w' \<and> pending_ops w' = []"]) (auto dest: kept_drain_one)

definition new_worker_room :: "room_id \<Rightarrow> battle_players \<Rightarrow> worker_room" where
  "new_worker_room rid ps = \<lparr>wr_room = rid, wr_players = ps, wr_disconnected = []\<rparr>"

definition just_added :: "room_id \<Rightarrow> battle_players \<Rightarrow> logic_worker \<Rightarrow> bool" where
  "just_added rid ps w \<longleftrightarrow>
     (\<exists>opers. pending_ops w = opers @ [Op_AddRoom rid ps]) \<or>
     pending_ops w = [] \<and> uget (lw_rooms w) rid = Some (new_worker_room rid ps)"

lemma just_added_drain_one:
  assumes "just_added rid ps w"
  shows "just_added rid ps (drain_one now w)"
proof (cases "pending_ops w = []")
  case True
  with assms show ?thesis by (simp add: drain_one_def)
next
  case False
  with assms obtain opers where "pending_ops w = opers @ [Op_AddRoom rid ps]" by (auto simp: just_added_def)
  then show ?thesis by (cases opers) (simp_all add: just_added_def drain_one_def new_worker_room_def)
qed

lemma just_added_drain: "just_added rid ps w \<Longrightarrow> just_added rid ps (LogicWorker_drainPendingOps clk w)"
  by (rule drain_induct [where P = "\<lambda>w w'. just_added rid ps w \<longrightarrow> just_added rid ps w'", rule_format])
    (auto intro: just_added_drain_one)

lemma just_added_settled: "just_added rid ps w \<Longrightarrow> uget (settled_rooms now w) rid = Some (new_worker_room rid ps)"
  by (auto simp: just_added_def settled_rooms_def new_worker_room_def)

lemma just_added_keys: "just_added rid ps w \<Longrightarrow> rid \<in> room_keys w"
  using just_added_settled [of rid ps w] settled_keys [of _ w] uget_in_keysD by metis

lemma addRoom_just_added: "just_added rid ps (LogicWorker_addRoom rid ps w)"
  by (simp add: just_added_def LogicWorker_addRoom_def push_op_def)

section \<open>Starting the threads\<close>

text \<open>After the loop each worker is as before or has applied what was pending, and one with rooms has its thread.\<close>

definition swept :: "(int \<Rightarrow> nat \<Rightarrow> time_ns) \<Rightarrow> logic_worker \<Rightarrow> logic_worker \<Rightarrow> bool" where
  "swept clk w w' \<longleftrightarrow>
     (if LogicWorker_roomCount w = 0 then w' = LogicWorker_drainPendingOps (clk (lw_id w)) w else w' = w)"

lemma swept_kept: "swept clk w w' \<Longrightarrow> kept w w'"
  using drain_keeps by (auto simp: swept_def split: if_splits)

lemma swept_just_added: "swept clk w w' \<Longrightarrow> just_added rid ps w \<Longrightarrow> just_added rid ps w'"
  by (auto simp: swept_def just_added_drain split: if_splits)

lemma swept_rooms: "swept clk w w' \<Longrightarrow> room_keys w' \<noteq> {} \<Longrightarrow> LogicWorker_roomCount w' \<ge> 1"
  using drain_keeps [of w] by (auto simp: swept_def LogicWorker_roomCount_def room_keys_def Suc_le_eq split: if_splits)

lemma start_workers_spec:
  "\<forall>w \<in> set ws. 0 \<le> lw_id w \<and> lw_id w < 16 \<Longrightarrow>
   \<exists>ws' flags'. start_workers clk ws flags = Inr (ws', flags') \<and> list_all2 (swept clk) ws ws' \<and> set flags \<subseteq> set flags' \<and>
     (\<forall>w' \<in> set ws'. room_keys w' \<noteq> {} \<longrightarrow> lw_id w' \<in> set flags')"
proof (induction clk ws flags rule: start_workers.induct)
  case (1 clk flags)
  then show ?case by simp
next
  case (2 clk w ws flags)
  define w1 where "w1 = (if LogicWorker_roomCount w = 0 then LogicWorker_drainPendingOps (clk (lw_id w)) w else w)"
  define flags1 where "flags1 = (if LogicWorker_roomCount w1 \<ge> 1 then List.insert (lw_id w1) flags else flags)"
  have sw: "swept clk w w1" by (simp add: swept_def w1_def)
  have bounded: "0 \<le> lw_id w1 \<and> lw_id w1 < 16" using "2.prems" swept_kept [OF sw] by (simp add: kept_def)
  obtain ws' flags' where ih: "start_workers clk ws flags1 = Inr (ws', flags')" "list_all2 (swept clk) ws ws'"
    "set flags1 \<subseteq> set flags'" "\<forall>w' \<in> set ws'. room_keys w' \<noteq> {} \<longrightarrow> lw_id w' \<in> set flags'"
    using "2.IH" [OF w1_def _ flags1_def] "2.prems" bounded by auto
  have "start_workers clk (w # ws) flags = Inr (w1 # ws', flags')"
    using ih(1) bounded by (simp add: w1_def [symmetric] flags1_def [symmetric] Let_def del: One_nat_def)
  moreover have "room_keys w1 \<noteq> {} \<longrightarrow> lw_id w1 \<in> set flags'"
    using swept_rooms [OF sw] ih(3) by (auto simp: flags1_def split: if_splits)
  moreover have "set flags \<subseteq> set flags'" using ih(3) by (auto simp: flags1_def split: if_splits)
  ultimately show ?case using ih sw by auto
qed

section \<open>The sessions of the players\<close>

lemma setState_by_player:
  assumes "healthy env" and "pools_ready st" and "session_inv sm" and "SessionManager_getByPlayer pid sm = Some s"
  obtains sm' st' where "SessionManager_setState env (session_ident s) x sm st = Inr ((True, sm'), st')" "pools_ready st'"
    "session_inv sm'"
    "\<And>p. SessionManager_getByPlayer p sm' = (if p = pid then Some (s\<lparr>sess_state := x\<rparr>) else SessionManager_getByPlayer p sm)"
proof -
  obtain st' where r: "SessionManager_saveToRedis env (s\<lparr>sess_state := x\<rparr>) st = Inr ((), st')" and st': "pools_ready st'"
    using returnsD [OF saveToRedis_total [OF assms(1)] assms(2)] by (metis old.unit.exhaust)
  let ?sm = "sm\<lparr>sessions := uput (session_ident s) (s\<lparr>sess_state := x\<rparr>) (sessions sm)\<rparr>"
  have set: "SessionManager_setState env (session_ident s) x sm st = Inr ((True, ?sm), st')"
    using r getByPlayerD [OF assms(3,4)] by (simp add: SessionManager_setState_def Let_def)
  show ?thesis
    by (rule that [OF set st' setState_inv [OF assms(3) set] getByPlayer_update [OF assms(3,4)]])
qed

definition in_battle :: "session \<Rightarrow> session" where
  "in_battle s = s\<lparr>sess_state := S_IN_BATTLE\<rparr>"

lemma in_battle_twice [simp]: "in_battle (in_battle s) = in_battle s"
  by (simp add: in_battle_def)

lemma enter_battle_spec:
  "healthy env \<Longrightarrow> pools_ready st \<Longrightarrow> session_inv sm \<Longrightarrow>
   \<exists>sm' st'. enter_battle env ps sm st = Inr (sm', st') \<and> pools_ready st' \<and> session_inv sm' \<and>
     (\<forall>p. SessionManager_getByPlayer p sm' = (if p \<in> set (ukeys ps) then map_option in_battle (SessionManager_getByPlayer p sm)
        else SessionManager_getByPlayer p sm))"
proof (induction env ps sm arbitrary: st rule: enter_battle.induct)
  case (1 env sm)
  then show ?case by simp
next
  case (2 env pid info ps sm)
  show ?case
  proof (cases "SessionManager_getByPlayer pid sm")
    case None
    from "2.IH"(1) [OF None "2.prems"] None show ?thesis by auto
  next
    case (Some s)
    obtain sm1 st1 where 1: "SessionManager_setState env (session_ident s) S_IN_BATTLE sm st = Inr ((True, sm1), st1)"
      "pools_ready st1" "session_inv sm1"
      and get: "\<And>p. SessionManager_getByPlayer p sm1 = (if p = pid then Some (in_battle s) else SessionManager_getByPlayer p sm)"
      unfolding in_battle_def by (rule setState_by_player [OF "2.prems" Some]) blast
    obtain sm' st' where "enter_battle env ps sm1 st1 = Inr (sm', st')" "pools_ready st'" "session_inv sm'"
      "\<forall>p. SessionManager_getByPlayer p sm' = (if p \<in> set (ukeys ps) then map_option in_battle (SessionManager_getByPlayer p sm1)
        else SessionManager_getByPlayer p sm1)"
      using "2.IH"(2) [OF Some "2.prems"(1) 1(2,3)] by blast
    with Some 1(1) get show ?thesis by (auto simp: in_battle_def)
  qed
qed

section \<open>The players of a battle\<close>

lemma build_players_fresh: "fresh_battle bps \<Longrightarrow> fresh_battle (build_players ps bps)"
proof (induction ps bps rule: build_players.induct)
  case (1 bps)
  then show ?case by simp
next
  case (2 pid info ps bps)
  have "fresh_bp pid (battle_player_of pid info n)" for n
    by (simp add: fresh_bp_def battle_player_of_def BattlePlayer_default_def)
  then have "fresh_battle (uput pid (battle_player_of pid info (length bps)) bps)"
    using "2.prems" by (auto simp: fresh_battle_def list_all_iff distinct_update dest!: uput_mem)
  with "2.IH" show ?case by simp
qed

lemma build_players_keys: "set (ukeys (build_players ps bps)) = set (ukeys ps) \<union> set (ukeys bps)"
  by (induction ps bps rule: build_players.induct) (auto simp: ukeys_dom simp del: set_map)

section \<open>The manager and its workers as a machine\<close>

datatype battle_event =
    BE_Start "int \<Rightarrow> nat \<Rightarrow> time_ns" room_id
  | BE_End bool room_id
  | BE_Dispatch room_id command
  | BE_Disconnect player_id room_id
  | BE_Worker nat worker_event

type_synonym 'w battle_system = "battle_manager \<times> room_manager \<times> session_manager \<times> 'w store"

text \<open>A fault ends the program; the machine then stays where it was.\<close>

fun battle_step :: "codec \<Rightarrow> 'w env \<Rightarrow> 'w battle_system \<Rightarrow> battle_event \<Rightarrow> 'w battle_system" where
  "battle_step cdc env (bm, rm, sm, st) (BE_Start clk rid) =
     (case RoomManager_getRoom rid rm of
        None \<Rightarrow> (bm, rm, sm, st)
      | Some r \<Rightarrow>
          (case BattleManager_startBattle env clk r bm sm st of
             Inl _ \<Rightarrow> (bm, rm, sm, st) | Inr ((bm', sm'), st') \<Rightarrow> (bm', rm, sm', st')))"
| "battle_step cdc env (bm, rm, sm, st) (BE_End mysql rid) =
     (case BattleManager_endBattle cdc env mysql rid bm rm sm st of
        Inl _ \<Rightarrow> (bm, rm, sm, st) | Inr ((out, bm', rm', sm'), st') \<Rightarrow> (bm', rm', sm', st'))"
| "battle_step cdc env (bm, rm, sm, st) (BE_Dispatch rid cmd) = (BattleManager_dispatchCommand rid cmd bm, rm, sm, st)"
| "battle_step cdc env (bm, rm, sm, st) (BE_Disconnect pid rid) = (BattleManager_onPlayerDisconnect pid rid bm, rm, sm, st)"
| "battle_step cdc env (bm, rm, sm, st) (BE_Worker i ev) =
     (bm\<lparr>bm_workers := (bm_workers bm)[i := worker_step cdc (bm_workers bm ! i) ev]\<rparr>, rm, sm, st)"

text \<open>The steps a worker takes on its own are applying a pending operation and a tick.\<close>

fun own_step :: "'w battle_system \<Rightarrow> battle_event \<Rightarrow> bool" where
  "own_step s (BE_Worker i (DrainOne now)) = True"
| "own_step s (BE_Worker i (Tick clk)) = True"
| "own_step s (BE_Worker i _) = False"
| "own_step s _ = True"

definition tracked :: "battle_manager \<Rightarrow> nat \<Rightarrow> logic_worker \<Rightarrow> bool" where
  "tracked bm i w \<longleftrightarrow>
     lw_id w = int i \<and> worker_inv w \<and> room_keys w = {rid. uget (room_to_worker bm) rid = Some i} \<and>
     (room_keys w \<noteq> {} \<longrightarrow> int i \<in> set (thread_flags bm))"

definition bm_inv :: "nat \<Rightarrow> battle_manager \<Rightarrow> bool" where
  "bm_inv n bm \<longleftrightarrow>
     0 < n \<and> n \<le> 16 \<and> length (bm_workers bm) = n \<and> (\<forall>i < n. tracked bm i (bm_workers bm ! i)) \<and>
     (\<forall>rid i. uget (room_to_worker bm) rid = Some i \<longrightarrow> i = unat rid mod n)"

lemma new_battle_manager_inv: "0 < n \<Longrightarrow> n \<le> 16 \<Longrightarrow> bm_inv (nat n) (BattleManager_new n)"
  by (auto simp: bm_inv_def tracked_def BattleManager_new_def room_keys_def LogicWorker_new_def worker_inv_def)

lemma bm_inv_owner: "bm_inv n bm \<Longrightarrow> uget (room_to_worker bm) rid = Some i \<Longrightarrow> i < n"
  by (metis bm_inv_def mod_less_divisor)

lemma bm_inv_worker:
  assumes "bm_inv n bm" and "i < n" and "kept (bm_workers bm ! i) w"
  shows "bm_inv n (bm\<lparr>bm_workers := (bm_workers bm)[i := w]\<rparr>)"
  using assms by (auto simp: bm_inv_def tracked_def kept_def nth_list_update)

lemma worker_step_kept:
  assumes "worker_inv w" and "ev = DrainOne now \<or> ev = Tick clk"
  shows "kept w (worker_step cdc w ev)"
proof (cases "ev = Tick clk")
  case False
  with assms kept_drain_one [OF kept_refl [of "drain_one now w"]] show ?thesis by auto
next
  case True
  have "kept w w'" if "LogicWorker_tick cdc clk w = Inr (out, w')" for out w'
  proof -
    have "lw_id w' = lw_id w" using that by (auto simp: LogicWorker_tick_def res_bind_Inr_iff case_prod_beta)
    with tick_inv [OF assms(1) that] show ?thesis by (simp add: kept_def room_keys_def)
  qed
  with True show ?thesis by (auto split: sum.splits)
qed

lemma start_outcome:
  fixes r :: room and bm :: battle_manager
  assumes "bm_workers bm \<noteq> []" and "\<forall>w \<in> set (bm_workers bm). 0 \<le> lw_id w \<and> lw_id w < 16"
  defines "rid \<equiv> room_ident r"
  defines "i \<equiv> unat rid mod length (bm_workers bm)"
  defines "ws \<equiv> (bm_workers bm)[i := LogicWorker_addRoom rid (build_players (room_players r) []) (bm_workers bm ! i)]"
  shows "\<exists>ws' flags. list_all2 (swept clk) ws ws' \<and> set (thread_flags bm) \<subseteq> set flags \<and>
     (\<forall>w' \<in> set ws'. room_keys w' \<noteq> {} \<longrightarrow> lw_id w' \<in> set flags) \<and>
     BattleManager_startBattle env clk r bm sm =
       io_bind (enter_battle env (room_players r) sm) (\<lambda>sm'. io_return
         (bm\<lparr>bm_workers := ws', room_to_worker := uput rid i (room_to_worker bm), thread_flags := flags\<rparr>, sm'))"
proof -
  have "\<forall>w \<in> set ws. 0 \<le> lw_id w \<and> lw_id w < 16"
    using assms(1,2) unfolding ws_def i_def
    by (auto dest!: set_update_subset_insert [THEN subsetD] simp: LogicWorker_addRoom_def push_op_def)
  from start_workers_spec [OF this, of clk "thread_flags bm"] obtain ws' flags where
    "start_workers clk ws (thread_flags bm) = Inr (ws', flags)" "list_all2 (swept clk) ws ws'"
    "set (thread_flags bm) \<subseteq> set flags" "\<forall>w' \<in> set ws'. room_keys w' \<noteq> {} \<longrightarrow> lw_id w' \<in> set flags" by blast
  with assms(1) show ?thesis
    by (auto simp: BattleManager_startBattle_def BattleManager_assignWorker_def Let_def rid_def i_def ws_def)
qed

lemma start_inv:
  assumes "bm_inv n bm" and "BattleManager_startBattle env clk r bm sm st = Inr ((bm', sm'), st')"
  shows "bm_inv n bm'"
proof -
  define rid i where "rid = room_ident r" and "i = unat rid mod n"
  define bps where "bps = build_players (room_players r) []"
  define ws where "ws = (bm_workers bm)[i := LogicWorker_addRoom rid bps (bm_workers bm ! i)]"
  have n: "length (bm_workers bm) = n" "i < n" and tr: "\<And>j. j < n \<Longrightarrow> tracked bm j (bm_workers bm ! j)"
    using assms(1) by (auto simp: bm_inv_def i_def)
  have "\<forall>w \<in> set (bm_workers bm). 0 \<le> lw_id w \<and> lw_id w < 16"
    using assms(1) by (auto simp: bm_inv_def tracked_def in_set_conv_nth)
  moreover have "bm_workers bm \<noteq> []" using n by auto
  ultimately obtain ws' flags where sw: "list_all2 (swept clk) ws ws'" and fl: "set (thread_flags bm) \<subseteq> set flags"
    "\<forall>w' \<in> set ws'. room_keys w' \<noteq> {} \<longrightarrow> lw_id w' \<in> set flags"
    and bm': "bm' = bm\<lparr>bm_workers := ws', room_to_worker := uput rid i (room_to_worker bm), thread_flags := flags\<rparr>"
    using start_outcome [of bm clk r env sm] assms(2) n(1)
    by (auto simp: rid_def i_def bps_def ws_def io_bind_result)
  have len: "length ws' = n" using list_all2_lengthD [OF sw] n by (simp add: ws_def)
  have "fresh_battle bps" unfolding bps_def by (rule build_players_fresh) (simp add: fresh_battle_def)
  then have add: "lw_id (LogicWorker_addRoom rid bps w) = lw_id w" "room_keys (LogicWorker_addRoom rid bps w) = insert rid (room_keys w)"
    "worker_inv w \<Longrightarrow> worker_inv (LogicWorker_addRoom rid bps w)" for w
    by (auto simp: LogicWorker_addRoom_def push_keys intro!: push_op_inv fresh_battle_inv) (simp add: push_op_def)
  have "tracked bm' j (ws' ! j)" if j: "j < n" for j
  proof -
    have k: "kept (ws ! j) (ws' ! j)" using sw j n len by (auto simp: list_all2_conv_all_nth intro: swept_kept)
    have "lw_id (ws' ! j) \<in> set flags" if "room_keys (ws' ! j) \<noteq> {}" using fl(2) j len that by simp
    moreover have "uget (room_to_worker bm) rid = Some j \<Longrightarrow> j = i"
      using assms(1) by (auto simp: bm_inv_def i_def)
    ultimately show ?thesis using k tr [OF j] add j n
      by (cases "j = i") (auto simp: tracked_def kept_def bm' ws_def split: if_splits)
  qed
  moreover have "uget (room_to_worker bm') q = Some j \<Longrightarrow> j = unat q mod n" for q j
    using assms(1) by (auto simp: bm' bm_inv_def i_def split: if_splits)
  ultimately show ?thesis using assms(1) len by (simp add: bm_inv_def bm')
qed

lemma end_inv:
  assumes "bm_inv n bm" and "BattleManager_endBattle cdc env mysql rid bm rm sm st = Inr ((out, bm', rm', sm'), st')"
  shows "bm_inv n bm'"
proof (cases "bm' = bm")
  case True
  with assms(1) show ?thesis by simp
next
  case False
  with assms(2) obtain i where i: "uget (room_to_worker bm) rid = Some i"
    and bm': "bm' = bm\<lparr>bm_workers := (bm_workers bm)[i := LogicWorker_removeRoom rid (bm_workers bm ! i)],
                      room_to_worker := uerase rid (room_to_worker bm)\<rparr>"
    by (auto simp: BattleManager_endBattle_def io_bind_result split: option.splits)
  have rem: "lw_id (LogicWorker_removeRoom rid w) = lw_id w" "room_keys (LogicWorker_removeRoom rid w) = room_keys w - {rid}"
    "worker_inv w \<Longrightarrow> worker_inv (LogicWorker_removeRoom rid w)" for w
    by (auto simp: LogicWorker_removeRoom_def push_keys intro!: push_op_inv) (simp add: push_op_def)
  have "tracked bm' j (bm_workers bm' ! j)" if "j < n" for j
    using assms(1) that rem i by (cases "j = i") (auto simp: bm_inv_def tracked_def bm')
  with assms(1) show ?thesis by (auto simp: bm_inv_def bm' split: if_splits)
qed

lemma dispatch_inv: "bm_inv n bm \<Longrightarrow> bm_inv n (BattleManager_dispatchCommand rid cmd bm)"
  unfolding BattleManager_dispatchCommand_def
  by (cases "uget (room_to_worker bm) rid")
    (auto simp: kept_def LogicWorker_pushCommand_def room_keys_def worker_inv_def intro!: bm_inv_worker dest: bm_inv_owner)

lemma disconnect_inv: "bm_inv n bm \<Longrightarrow> bm_inv n (BattleManager_onPlayerDisconnect pid rid bm)"
  unfolding BattleManager_onPlayerDisconnect_def
  by (cases "uget (room_to_worker bm) rid")
    (auto simp: kept_def LogicWorker_markDisconnected_def room_keys_def worker_inv_def push_op_def
       intro!: bm_inv_worker dest: bm_inv_owner)

lemma battle_step_inv:
  assumes "bm_inv n (fst s)" and "own_step s ev"
  shows "bm_inv n (fst (battle_step cdc env s ev))"
proof -
  obtain bm rm sm st where s: "s = (bm, rm, sm, st)" by (cases s)
  have inv: "bm_inv n bm" using assms(1) by (simp add: s)
  show ?thesis
  proof (cases ev)
    case (BE_Worker i wev)
    show ?thesis
    proof (cases "i < n")
      case True
      then have "worker_inv (bm_workers bm ! i)" using inv by (simp add: bm_inv_def tracked_def)
      from worker_step_kept [OF this, of wev] bm_inv_worker [OF inv True] BE_Worker assms(2) s show ?thesis
        by (cases wev) auto
    next
      case False
      then have "(bm_workers bm)[i := x] = bm_workers bm" for x
        using inv by (auto simp: bm_inv_def intro: list_update_beyond)
      with inv BE_Worker s show ?thesis by simp
    qed
  qed (use inv start_inv [OF inv] end_inv [OF inv] dispatch_inv disconnect_inv s in
        \<open>auto split: option.splits sum.splits prod.splits\<close>)
qed

interpretation bat: machine "battle_step cdc env" own_step "\<lambda>s. bm_inv n (fst s)" for cdc env n
  by unfold_locales (rule battle_step_inv)

lemma startBattle_spec:
  fixes r :: room and bm :: battle_manager
  assumes "healthy env" and "pools_ready st" and "session_inv sm"
    and "bm_workers bm \<noteq> []" and "\<forall>w \<in> set (bm_workers bm). 0 \<le> lw_id w \<and> lw_id w < 16"
  defines "rid \<equiv> room_ident r"
  defines "i \<equiv> unat rid mod length (bm_workers bm)"
  shows "\<exists>bm' sm' st' bps. BattleManager_startBattle env clk r bm sm st = Inr ((bm', sm'), st') \<and>
     uget (room_to_worker bm') rid = Some i \<and> lw_id (bm_workers bm' ! i) \<in> set (thread_flags bm') \<and>
     (\<forall>now. uget (settled_rooms now (bm_workers bm' ! i)) rid =
        Some \<lparr>wr_room = rid, wr_players = bps, wr_disconnected = []\<rparr>) \<and>
     fresh_battle bps \<and> set (ukeys bps) = set (ukeys (room_players r)) \<and>
     (\<forall>p. SessionManager_getByPlayer p sm' =
        (if p \<in> set (ukeys (room_players r)) then map_option (\<lambda>s. s\<lparr>sess_state := S_IN_BATTLE\<rparr>) (SessionManager_getByPlayer p sm)
         else SessionManager_getByPlayer p sm))"
proof -
  define bps where "bps = build_players (room_players r) []"
  have i: "i < length (bm_workers bm)" using assms(4) by (simp add: i_def)
  obtain ws' flags where sw: "list_all2 (swept clk) ((bm_workers bm)[i := LogicWorker_addRoom rid bps (bm_workers bm ! i)]) ws'"
    and fl: "\<forall>w' \<in> set ws'. room_keys w' \<noteq> {} \<longrightarrow> lw_id w' \<in> set flags"
    and start: "BattleManager_startBattle env clk r bm sm =
       io_bind (enter_battle env (room_players r) sm) (\<lambda>sm'. io_return
         (bm\<lparr>bm_workers := ws', room_to_worker := uput rid i (room_to_worker bm), thread_flags := flags\<rparr>, sm'))"
    using start_outcome [OF assms(4,5), of clk r env sm] unfolding rid_def i_def bps_def by blast
  have "swept clk (LogicWorker_addRoom rid bps (bm_workers bm ! i)) (ws' ! i)"
    using list_all2_nthD [OF sw, of i] i by simp
  from swept_just_added [OF this addRoom_just_added] have added: "just_added rid bps (ws' ! i)" .
  have mem: "ws' ! i \<in> set ws'" using list_all2_lengthD [OF sw] i by simp
  have "lw_id (ws' ! i) \<in> set flags" using fl mem just_added_keys [OF added] by blast
  moreover have "fresh_battle bps" unfolding bps_def by (rule build_players_fresh) (simp add: fresh_battle_def)
  moreover have "set (ukeys bps) = set (ukeys (room_players r))" by (simp add: bps_def build_players_keys del: set_map)
  moreover obtain sm' st' where "enter_battle env (room_players r) sm st = Inr (sm', st')"
    "\<forall>p. SessionManager_getByPlayer p sm' = (if p \<in> set (ukeys (room_players r))
       then map_option in_battle (SessionManager_getByPlayer p sm) else SessionManager_getByPlayer p sm)"
    using enter_battle_spec [OF assms(1-3)] by blast
  ultimately show ?thesis
    using just_added_settled [OF added] by (simp add: start new_worker_room_def in_battle_def [abs_def] del: set_map)
qed

section \<open>Properties\<close>

text \<open>
  C13. Starting a battle always succeeds and puts it where it will run: with at most sixteen workers and a
  storage that works, the room goes to the worker its id selects, that worker's thread is started, the
  worker holds (or has pending) exactly the fresh battle players of the room, one per player, and
  exactly the players' sessions go into the state of a battle.
\<close>
theorem battle_started:
  fixes r :: room and bm :: battle_manager
  assumes "healthy env" and "pools_ready st" and "session_inv sm"
    and "bm_workers bm \<noteq> []" and "\<forall>w \<in> set (bm_workers bm). 0 \<le> lw_id w \<and> lw_id w < 16"
  defines "rid \<equiv> room_ident r"
  defines "i \<equiv> unat rid mod length (bm_workers bm)"
  shows "\<exists>bm' sm' st' bps. BattleManager_startBattle env clk r bm sm st = Inr ((bm', sm'), st') \<and>
     uget (room_to_worker bm') rid = Some i \<and> lw_id (bm_workers bm' ! i) \<in> set (thread_flags bm') \<and>
     (\<forall>now. uget (settled_rooms now (bm_workers bm' ! i)) rid =
        Some \<lparr>wr_room = rid, wr_players = bps, wr_disconnected = []\<rparr>) \<and>
     fresh_battle bps \<and> set (ukeys bps) = set (ukeys (room_players r)) \<and>
     (\<forall>p. SessionManager_getByPlayer p sm' =
        (if p \<in> set (ukeys (room_players r)) then map_option (\<lambda>s. s\<lparr>sess_state := S_IN_BATTLE\<rparr>) (SessionManager_getByPlayer p sm)
         else SessionManager_getByPlayer p sm))"
  unfolding rid_def i_def by (rule startBattle_spec [OF assms(1-5)])

text \<open>
  C14. The manager and its workers agree about the battles for every history of starts, ends, commands,
  disconnections, applied operations and ticks: a room is registered for a worker exactly if that
  worker has it once its pending operations are applied, the worker is the one the id selects, and
  no battle sits on a worker whose thread has not been started.
\<close>
theorem battles_tracked:
  assumes "0 < n" and "n \<le> 16" and "admitted (battle_step cdc env) own_step (BattleManager_new n, rm, sm, st) evs"
  defines "bm \<equiv> fst (run_events (battle_step cdc env) (BattleManager_new n, rm, sm, st) evs)"
  shows "(uget (room_to_worker bm) rid = Some i \<longleftrightarrow>
            i < nat n \<and> rid \<in> set (ukeys (settled_rooms now (bm_workers bm ! i)))) \<and>
         (uget (room_to_worker bm) rid = Some i \<longrightarrow>
            i = unat rid mod nat n \<and> lw_id (bm_workers bm ! i) = int i \<and> int i \<in> set (thread_flags bm))"
proof -
  have "bm_inv (nat n) bm"
    unfolding bm_def by (rule bat.run_inv) (use assms(1-3) in \<open>simp_all add: new_battle_manager_inv\<close>)
  then show ?thesis
    using bm_inv_owner [of "nat n" bm rid i] unfolding settled_keys bm_inv_def tracked_def by auto
qed

text \<open>
  The settlement of a battle, for any sorting function that keeps the promise of \<open>std::sort\<close>: every player
  appears once with the statistics of the battle, the ranks count from one without gaps, and more
  kills always give a better rank.
\<close>
theorem settlement_ranks_by_kills:
  fixes players :: battle_players
  assumes "is_std_sort srt" and "length players < 2 ^ 31"
  defines "es \<equiv> BattleManager_computeSettlement srt players"
  shows "mset (map (\<lambda>e. e\<lparr>se_rank := 0\<rparr>) es) = mset (map (\<lambda>(pid, bp). settlement_of pid bp) players) \<and>
         map se_rank es = map (\<lambda>k. int k + 1) [0..<length players] \<and>
         (\<forall>i < length es. \<forall>j < length es. se_kills (es ! i) > se_kills (es ! j) \<longrightarrow> se_rank (es ! i) < se_rank (es ! j))"
proof -
  define xs where "xs = map (\<lambda>(pid, bp). settlement_of pid bp) players"
  define ys where "ys = srt (\<lambda>a b. se_kills a > se_kills b) xs"
  have es: "es = assign_ranks 0 ys" by (simp add: es_def BattleManager_computeSettlement_def ys_def xs_def)
  have srt: "mset ys = mset xs" "sorted_wrt (\<lambda>a b. \<not> se_kills b > se_kills a) ys"
    using assms(1) kills_order unfolding is_std_sort_def ys_def by blast+
  have len: "length ys = length players" using mset_eq_length [OF srt(1)] by (simp add: xs_def)
  have rank: "se_rank (es ! k) = int (k + 1)" "se_kills (es ! k) = se_kills (ys ! k)" if "k < length es" for k
    using that assms(2) len sint_small [of "k + 1"] by (simp_all add: es assign_ranks_nth)
  have "map (\<lambda>e. e\<lparr>se_rank := 0\<rparr>) xs = xs" by (auto simp: xs_def settlement_of_def)
  then have "mset (map (\<lambda>e. e\<lparr>se_rank := 0\<rparr>) es) = mset xs"
    by (simp only: es assign_ranks_erase mset_map srt(1)) (simp only: mset_map [symmetric])
  moreover have "map se_rank es = map (\<lambda>k. int k + 1) [0..<length players]"
    by (rule nth_equalityI) (use rank in \<open>simp_all add: es len\<close>)
  moreover have "i < j" if "i < length es" "j < length es" "se_kills (es ! i) > se_kills (es ! j)" for i j
  proof (rule ccontr)
    assume "\<not> i < j"
    with that have "j < i" by (cases "i = j") auto
    with sorted_wrt_nth_less [OF srt(2) this] that rank show False by (simp add: es)
  qed
  ultimately show ?thesis using rank by (auto simp: xs_def)
qed

text \<open>Insertion sort keeps the promise of \<open>std::sort\<close>.\<close>

fun insert_by :: "('a \<Rightarrow> 'a \<Rightarrow> bool) \<Rightarrow> 'a \<Rightarrow> 'a list \<Rightarrow> 'a list" where
  "insert_by before x [] = [x]"
| "insert_by before x (y # ys) = (if before y x then y # insert_by before x ys else x # y # ys)"

definition insertion_sort :: "('a \<Rightarrow> 'a \<Rightarrow> bool) \<Rightarrow> 'a list \<Rightarrow> 'a list" where
  "insertion_sort before xs = foldr (insert_by before) xs []"

lemma insert_by_mset [simp]: "mset (insert_by before x ys) = add_mset x (mset ys)"
  by (induction ys) auto

lemma insert_by_set [simp]: "set (insert_by before x ys) = insert x (set ys)"
  by (induction ys) auto

lemma not_before_trans:
  assumes "asymp before" and "transp before" and "transp (\<lambda>a b. \<not> before a b \<and> \<not> before b a)"
    and "\<not> before b a" and "\<not> before c b"
  shows "\<not> before c a"
proof
  assume ca: "before c a"
  then have "\<not> before a b" "\<not> before b c" using transpD [OF assms(2)] assms(4,5) by blast+
  with transpD [OF assms(3), of a b c] assms(4,5) ca show False by blast
qed

lemma insert_by_sorted:
  assumes "asymp before" and "transp before" and "transp (\<lambda>a b. \<not> before a b \<and> \<not> before b a)"
  shows "sorted_wrt (\<lambda>a b. \<not> before b a) ys \<Longrightarrow> sorted_wrt (\<lambda>a b. \<not> before b a) (insert_by before x ys)"
proof (induction ys)
  case Nil
  then show ?case by simp
next
  case (Cons y ys)
  with not_before_trans [OF assms, of y x] assms(1) show ?case by (auto dest: asympD)
qed

lemma insertion_sort_std: "is_std_sort insertion_sort"
proof -
  have "mset (foldr (insert_by before) xs []) = mset xs" for before and xs :: "'a list"
    by (induction xs) simp_all
  moreover have "sorted_wrt (\<lambda>a b. \<not> before b a) (foldr (insert_by before) xs [])"
    if "asymp before" "transp before" "transp (\<lambda>a b. \<not> before a b \<and> \<not> before b a)" for before and xs :: "'a list"
    by (induction xs) (simp_all add: insert_by_sorted [OF that])
  ultimately show ?thesis by (simp add: is_std_sort_def insertion_sort_def)
qed

definition scored :: "int \<Rightarrow> battle_player" where
  "scored k = BattlePlayer_default\<lparr>kills := k\<rparr>"

theorem settlement_ranks_by_kills_witness:
  "map se_rank (BattleManager_computeSettlement insertion_sort [(7, scored 1), (8, scored 3), (9, scored 2)]) = [1, 2, 3] \<and>
   map se_player_id (BattleManager_computeSettlement insertion_sort [(7, scored 1), (8, scored 3), (9, scored 2)]) = [8, 9, 7]"
proof -
  have "map se_rank (BattleManager_computeSettlement insertion_sort [(7, scored 1), (8, scored 3), (9, scored 2)]) = [1, 2, 3]"
    using settlement_ranks_by_kills [OF insertion_sort_std, of "[(7, scored 1), (8, scored 3), (9, scored 2)]"]
    by (simp add: upt_rec)
  then show ?thesis
    by (simp add: BattleManager_computeSettlement_def insertion_sort_def settlement_of_def scored_def BattlePlayer_default_def)
qed

definition two_player_room :: room where
  "two_player_room = snd (Room_addPlayer 2 ''bob'' (snd (Room_addPlayer 1 ''alice'' (Room_new 6 2))))"

lemma two_player_room_facts [simp]: "room_ident two_player_room = 6" "set (ukeys (room_players two_player_room)) = {1, 2}"
  by (auto simp: two_player_room_def Room_addPlayer_def Room_new_def Room_isFull_def Room_playerCount_def Let_def)

theorem battle_started_witness:
  "\<exists>bm' sm' st' bps. BattleManager_startBattle example_env (\<lambda>_ _. 0) two_player_room (BattleManager_new 4) SessionManager_new example_store =
      Inr ((bm', sm'), st') \<and> uget (room_to_worker bm') 6 = Some 2 \<and> lw_id (bm_workers bm' ! 2) \<in> set (thread_flags bm') \<and>
      fresh_battle bps \<and> set (ukeys bps) = {1, 2}"
proof -
  have "bm_workers (BattleManager_new 4) \<noteq> []" "\<forall>w \<in> set (bm_workers (BattleManager_new 4)). 0 \<le> lw_id w \<and> lw_id w < 16"
    and i: "unat (6 :: room_id) mod length (bm_workers (BattleManager_new 4)) = 2"
    by (auto simp: BattleManager_new_def LogicWorker_new_def)
  from battle_started [OF example_healthy example_pools new_sessions_inv this(1,2), of "\<lambda>_ _. 0" two_player_room]
  show ?thesis unfolding two_player_room_facts i by blast
qed

theorem battles_tracked_witness:
  "let bm = fst (run_events (battle_step example_codec example_env)
              (BattleManager_new 2, snd (RoomManager_createRoom 2 RoomManager_new), SessionManager_new, example_store)
              [BE_Start (\<lambda>_ _. 0) 1, BE_Dispatch 1 (Command_default STOP_MOVE 1), BE_Worker 1 (DrainOne 5), BE_End False 1])
   in uget (room_to_worker bm) 1 = Some 1 \<longleftrightarrow> 1 \<in> set (ukeys (settled_rooms 9 (bm_workers bm ! 1)))"
proof -
  let ?evs = "[BE_Start (\<lambda>_ _. 0) 1, BE_Dispatch 1 (Command_default STOP_MOVE 1), BE_Worker 1 (DrainOne 5), BE_End False 1]"
  have n: "0 < (2 :: int)" "(2 :: int) \<le> 16" "1 < nat 2" by simp_all
  have adm: "admitted (battle_step example_codec example_env) own_step
      (BattleManager_new 2, snd (RoomManager_createRoom 2 RoomManager_new), SessionManager_new, example_store) ?evs"
    by (simp only: admitted.simps own_step.simps simp_thms)
  show ?thesis
    unfolding Let_def using battles_tracked [OF n(1,2) adm, of 1 1 9] n(3) by (elim conjE) (simp only: simp_thms)
qed

end
