(* ===== verification/Game_Server.thy ===== *)
theory Game_Server
  imports Match_Manager Battle_Manager Frame_Codec
begin

text \<open>
  \<open>src/src/game/game_server.{h,cpp}\<close> and \<open>message_router.{h,cpp}\<close>: the handlers of the client messages, the
  callbacks of the network, and the pass of the timer thread, over the session, room, match and battle
  managers. An event loop is its index in the vector. A message to a client is what \<open>sendToConnection\<close>
  of its loop is given. Operations that fault (a wait for ever, memory corruption, an exception that
  leaves the thread) end the program.
\<close>

section \<open>State\<close>

record game_config =
  cfg_listen_port :: u16
  cfg_io_threads :: int
  cfg_match_room_size :: int
  cfg_match_interval_ms :: int
  cfg_mysql_host :: string
  cfg_mysql_port :: int
  cfg_mysql_user :: string
  cfg_mysql_pass :: string
  cfg_mysql_db :: string
  cfg_redis_host :: string
  cfg_redis_port :: int

definition GameConfig_default :: game_config where
  "GameConfig_default =
     \<lparr>cfg_listen_port = 9000, cfg_io_threads = 4, cfg_match_room_size = 10, cfg_match_interval_ms = 500,
      cfg_mysql_host = ''127.0.0.1'', cfg_mysql_port = 3306, cfg_mysql_user = ''miniarena'', cfg_mysql_pass = ''miniarena'',
      cfg_mysql_db = ''miniarena'', cfg_redis_host = ''127.0.0.1'', cfg_redis_port = 6379\<rparr>"

record game_server =
  gs_sessions :: session_manager
  gs_rooms :: room_manager
  gs_matcher :: match_manager
  gs_battle :: battle_manager
  conn_to_loop :: "(conn_id, nat) umap"

text \<open>What a handler reads from outside: the random session id, three readings of the clock, and those of a battle start.\<close>

record gs_input =
  in_sid :: u64
  in_now :: int
  in_now' :: int
  in_server_ms :: u64
  in_clk :: "int \<Rightarrow> nat \<Rightarrow> time_ns"

type_synonym loop_write = "nat \<times> conn_id \<times> bytes"

definition GameServer_initBusiness :: "game_config \<Rightarrow> game_server" where
  "GameServer_initBusiness cfg =
     \<lparr>gs_sessions = SessionManager_setSendCallback True SessionManager_new, gs_rooms = RoomManager_new,
      gs_matcher = MatchManager_setNotifyCallback True (MatchManager_new (cfg_match_room_size cfg)),
      gs_battle = BattleManager_setSendCallback True (BattleManager_new 2), conn_to_loop = []\<rparr>"

section \<open>Sending\<close>

text \<open>\<open>encode\<close> throws on a payload that is too long, and nothing catches it.\<close>

definition GameServer_sendResponse :: "conn_id \<Rightarrow> u32 \<Rightarrow> bytes \<Rightarrow> game_server \<Rightarrow> fault + loop_write list" where
  "GameServer_sendResponse c msg_id pl gs =
     (case FrameCodec_encode msg_id 0 0 pl of
        Inl e \<Rightarrow> Inl Payload_too_large
      | Inr data \<Rightarrow> Inr (case uget (conn_to_loop gs) c of None \<Rightarrow> [] | Some l \<Rightarrow> [(l, c, data)]))"

fun send_all :: "conn_send list \<Rightarrow> game_server \<Rightarrow> fault + loop_write list" where
  "send_all [] gs = Inr []"
| "send_all ((c, msg_id, pl) # ms) gs =
     res_bind (GameServer_sendResponse c msg_id pl gs) (\<lambda>out. res_bind (send_all ms gs) (\<lambda>outs. Inr (out @ outs)))"

text \<open>The match and battle callbacks look the player's connection up.\<close>

fun send_players :: "player_send list \<Rightarrow> game_server \<Rightarrow> fault + loop_write list" where
  "send_players [] gs = Inr []"
| "send_players ((pid, msg_id, pl) # ms) gs =
     res_bind (case SessionManager_getByPlayer pid (gs_sessions gs) of
                 None \<Rightarrow> Inr []
               | Some s \<Rightarrow> GameServer_sendResponse (sess_conn s) msg_id pl gs)
       (\<lambda>out. res_bind (send_players ms gs) (\<lambda>outs. Inr (out @ outs)))"

section \<open>Handlers\<close>

type_synonym 'w gs_op = "game_server \<Rightarrow> ('w, loop_write list \<times> game_server) io"

definition reply :: "codec \<Rightarrow> conn_id \<Rightarrow> u32 \<Rightarrow> server_msg \<Rightarrow> 'w gs_op" where
  "reply cdc c msg_id m gs =
     io_bind (io_lift (GameServer_sendResponse c msg_id (SerializeToString cdc m) gs)) (\<lambda>out. io_return (out, gs))"

definition handle_login :: "codec \<Rightarrow> 'w env \<Rightarrow> gs_input \<Rightarrow> conn_id \<Rightarrow> frame \<Rightarrow> 'w gs_op" where
  "handle_login cdc env inp c f gs =
     (let (ok, req) = Parse_LoginRequest cdc (payload f)
      in if \<not> ok then io_return ([], gs)
         else
           io_bind (SessionManager_login cdc env (in_sid inp) (in_now inp) c (req_username req) (req_password req) (gs_sessions gs))
             (\<lambda>(res, kicks, sm1).
                let gs1 = gs\<lparr>gs_sessions := sm1\<rparr>
                in io_bind (io_lift (send_all kicks gs1)) (\<lambda>out1.
                   io_bind (reply cdc c 1002 (LoginResponse (error_code res) (res_session_id res) 0 (error_msg res)) gs1) (\<lambda>(out2, _).
                     if error_code res = 0
                     then io_bind (SessionManager_setState env (res_session_id res) S_IN_LOBBY sm1) (\<lambda>(b, sm2).
                            io_return (out1 @ out2, gs\<lparr>gs_sessions := sm2\<rparr>))
                     else io_return (out1 @ out2, gs1)))))"

definition handle_heartbeat :: "codec \<Rightarrow> gs_input \<Rightarrow> conn_id \<Rightarrow> 'w gs_op" where
  "handle_heartbeat cdc inp c gs =
     (case SessionManager_getByConn c (gs_sessions gs) of
        None \<Rightarrow> io_return ([], gs)
      | Some s \<Rightarrow>
          reply cdc c 1102 (HeartbeatResponse (in_server_ms inp))
            (gs\<lparr>gs_sessions := SessionManager_heartbeat (in_now inp) (session_ident s) (gs_sessions gs)\<rparr>))"

definition handle_matchStart :: "codec \<Rightarrow> 'w env \<Rightarrow> conn_id \<Rightarrow> frame \<Rightarrow> 'w gs_op" where
  "handle_matchStart cdc env c f gs =
     (case SessionManager_getByConn c (gs_sessions gs) of
        None \<Rightarrow> reply cdc c 2002 (MatchStartResponse 20002 ''Not logged in'') gs
      | Some s \<Rightarrow>
          io_bind (MatchManager_joinQueue env (sess_player s) (snd (Parse_MatchStartRequest cdc (payload f))) (gs_sessions gs))
            (\<lambda>(err, sm1). reply cdc c 2002 (MatchStartResponse err []) (gs\<lparr>gs_sessions := sm1\<rparr>)))"

definition handle_matchCancel :: "'w env \<Rightarrow> conn_id \<Rightarrow> 'w gs_op" where
  "handle_matchCancel env c gs =
     (case SessionManager_getByConn c (gs_sessions gs) of
        None \<Rightarrow> io_return ([], gs)
      | Some s \<Rightarrow>
          io_bind (MatchManager_leaveQueue env (sess_player s) (gs_sessions gs)) (\<lambda>(err, sm1).
            io_return ([], gs\<lparr>gs_sessions := sm1\<rparr>)))"

definition handle_enterRoom :: "codec \<Rightarrow> 'w env \<Rightarrow> conn_id \<Rightarrow> frame \<Rightarrow> 'w gs_op" where
  "handle_enterRoom cdc env c f gs =
     (case SessionManager_getByConn c (gs_sessions gs) of
        None \<Rightarrow> reply cdc c 3002 (EnterRoomResponse 20002 ''Not logged in'' 0) gs
      | Some s \<Rightarrow>
          let rid = snd (Parse_EnterRoomRequest cdc (payload f))
          in case RoomManager_getRoom rid (gs_rooms gs) of
               None \<Rightarrow> reply cdc c 3002 (EnterRoomResponse 40001 ''Room not found'' 0) gs
             | Some r \<Rightarrow>
                 let (err, r') = Room_addPlayer (sess_player s) (sess_username s) r;
                     gs1 = gs\<lparr>gs_rooms := RoomManager_update rid (\<lambda>_. r') (gs_rooms gs)\<rparr>
                 in if err = 0
                    then io_bind (SessionManager_setCurrentRoom env (session_ident s) rid (gs_sessions gs1)) (\<lambda>(b, sm1).
                           reply cdc c 3002 (EnterRoomResponse err [] rid) (gs1\<lparr>gs_sessions := sm1\<rparr>))
                    else reply cdc c 3002 (EnterRoomResponse err [] 0) gs1)"

definition handle_playerReady :: "codec \<Rightarrow> 'w env \<Rightarrow> gs_input \<Rightarrow> conn_id \<Rightarrow> 'w gs_op" where
  "handle_playerReady cdc env inp c gs =
     (case SessionManager_getByConn c (gs_sessions gs) of
        None \<Rightarrow> io_return ([], gs)
      | Some s \<Rightarrow>
          if current_room s = 0 then io_return ([], gs)
          else case RoomManager_getRoom (current_room s) (gs_rooms gs) of
            None \<Rightarrow> io_return ([], gs)
          | Some r \<Rightarrow>
              let r1 = Room_playerReady (sess_player s) r
              in if Room_allReady r1
                 then let r2 = Room_startBattle r1
                      in io_bind (BattleManager_startBattle env (in_clk inp) r2 (gs_battle gs) (gs_sessions gs)) (\<lambda>(bm1, sm1).
                           let gs1 = gs\<lparr>gs_rooms := RoomManager_update (current_room s) (\<lambda>_. r2) (gs_rooms gs),
                                        gs_battle := bm1, gs_sessions := sm1\<rparr>;
                               data = SerializeToString cdc (BattleStartNotify (room_ident r2) 0)
                           in io_bind (io_lift (send_players (map (\<lambda>(pid, info). (pid, 3004, data)) (room_players r2)) gs1))
                                (\<lambda>out. io_return (out, gs1)))
                 else io_return ([], gs\<lparr>gs_rooms := RoomManager_update (current_room s) (\<lambda>_. r1) (gs_rooms gs)\<rparr>))"

text \<open>The three battle commands share their guard and their dispatch.\<close>

definition dispatch_command :: "conn_id \<Rightarrow> (session \<Rightarrow> command option) \<Rightarrow> 'w gs_op" where
  "dispatch_command c mk gs =
     (case SessionManager_getByConn c (gs_sessions gs) of
        None \<Rightarrow> io_return ([], gs)
      | Some s \<Rightarrow>
          if sess_state s \<noteq> S_IN_BATTLE then io_return ([], gs)
          else case mk s of
            None \<Rightarrow> io_return ([], gs)
          | Some cmd \<Rightarrow> io_return ([], gs\<lparr>gs_battle := BattleManager_dispatchCommand (current_room s) cmd (gs_battle gs)\<rparr>))"

definition move_command :: "codec \<Rightarrow> frame \<Rightarrow> session \<Rightarrow> command option" where
  "move_command cdc f s =
     (case Parse_PlayerMoveRequest cdc (payload f) of (ok, x, y) \<Rightarrow>
        if \<not> ok then None
        else Some ((Command_default MOVE (sess_player s))\<lparr>cmd_sequence := sequence f, move_dir_x := x, move_dir_y := y\<rparr>))"

definition attack_command :: "codec \<Rightarrow> frame \<Rightarrow> session \<Rightarrow> command option" where
  "attack_command cdc f s =
     (case Parse_PlayerAttackRequest cdc (payload f) of (ok, target) \<Rightarrow>
        if \<not> ok then None
        else Some ((Command_default ATTACK (sess_player s))\<lparr>cmd_sequence := sequence f, target_id := target\<rparr>))"

definition skill_command :: "codec \<Rightarrow> frame \<Rightarrow> session \<Rightarrow> command option" where
  "skill_command cdc f s =
     (case Parse_PlayerSkillRequest cdc (payload f) of (ok, req) \<Rightarrow>
        if \<not> ok then None
        else Some ((Command_default SKILL (sess_player s))\<lparr>cmd_sequence := sequence f, skill_id := req_skill_id req,
          target_id := req_skill_target req, skill_target_x := req_target_x req, skill_target_y := req_target_y req\<rparr>))"

definition handle_reconnect :: "codec \<Rightarrow> 'w env \<Rightarrow> gs_input \<Rightarrow> conn_id \<Rightarrow> frame \<Rightarrow> 'w gs_op" where
  "handle_reconnect cdc env inp c f gs =
     (let (ok, sid) = Parse_ReconnectRequest cdc (payload f)
      in if \<not> ok then io_return ([], gs)
         else
           io_bind (SessionManager_tryReconnect env (in_now inp) (in_now' inp) sid c (gs_sessions gs)) (\<lambda>(res, sm1).
             let gs1 = gs\<lparr>gs_sessions := sm1\<rparr>
             in io_bind (reply cdc c 5002 (ReconnectResponse (error_code res) (error_msg res)) gs1) (\<lambda>(out, _).
                  if error_code res = 0
                  then case SessionManager_getBySession (res_session_id res) sm1 of
                         None \<Rightarrow> io_return (out, gs1)
                       | Some s \<Rightarrow>
                           if sess_state s = S_IN_BATTLE \<and> current_room s > 0
                           then io_bind (io_lift (send_players (BattleManager_sendSnapshot cdc (sess_player s) (current_room s) (gs_battle gs1)) gs1))
                                  (\<lambda>out'. io_return (out @ out', gs1))
                           else io_return (out, gs1)
                  else io_return (out, gs1))))"

section \<open>Routing\<close>

datatype handler =
    H_Login | H_Heartbeat | H_MatchStart | H_MatchCancel | H_EnterRoom | H_PlayerReady | H_PlayerMove
  | H_PlayerAttack | H_PlayerSkill | H_Reconnect

type_synonym message_router = "(u32, handler) umap"

definition MessageRouter_registerHandler :: "u32 \<Rightarrow> handler \<Rightarrow> message_router \<Rightarrow> message_router" where
  "MessageRouter_registerHandler msg_id h r = uput msg_id h r"

definition GameServer_registerHandlers :: message_router where
  "GameServer_registerHandlers =
     fold (\<lambda>(msg_id, h). MessageRouter_registerHandler msg_id h)
       [(1001, H_Login), (1101, H_Heartbeat), (2001, H_MatchStart), (2003, H_MatchCancel), (3001, H_EnterRoom),
        (3003, H_PlayerReady), (4001, H_PlayerMove), (4002, H_PlayerAttack), (4003, H_PlayerSkill), (5001, H_Reconnect)] []"

fun run_handler :: "codec \<Rightarrow> 'w env \<Rightarrow> gs_input \<Rightarrow> handler \<Rightarrow> conn_id \<Rightarrow> frame \<Rightarrow> 'w gs_op" where
  "run_handler cdc env inp H_Login c f = handle_login cdc env inp c f"
| "run_handler cdc env inp H_Heartbeat c f = handle_heartbeat cdc inp c"
| "run_handler cdc env inp H_MatchStart c f = handle_matchStart cdc env c f"
| "run_handler cdc env inp H_MatchCancel c f = handle_matchCancel env c"
| "run_handler cdc env inp H_EnterRoom c f = handle_enterRoom cdc env c f"
| "run_handler cdc env inp H_PlayerReady c f = handle_playerReady cdc env inp c"
| "run_handler cdc env inp H_PlayerMove c f = dispatch_command c (move_command cdc f)"
| "run_handler cdc env inp H_PlayerAttack c f = dispatch_command c (attack_command cdc f)"
| "run_handler cdc env inp H_PlayerSkill c f = dispatch_command c (skill_command cdc f)"
| "run_handler cdc env inp H_Reconnect c f = handle_reconnect cdc env inp c f"

definition MessageRouter_dispatch :: "codec \<Rightarrow> 'w env \<Rightarrow> message_router \<Rightarrow> gs_input \<Rightarrow> conn_id \<Rightarrow> frame \<Rightarrow> 'w gs_op" where
  "MessageRouter_dispatch cdc env router inp c f gs =
     (case uget router (message_id f) of
        Some h \<Rightarrow> run_handler cdc env inp h c f gs
      | None \<Rightarrow> io_return ([], gs))"

section \<open>Callbacks and timer\<close>

text \<open>The frame callback of a loop: \<open>inps\<close> gives the inputs of each frame's handler.\<close>

fun dispatch_frames :: "codec \<Rightarrow> 'w env \<Rightarrow> (nat \<Rightarrow> gs_input) \<Rightarrow> nat \<Rightarrow> conn_id \<Rightarrow> frame list \<Rightarrow> 'w gs_op" where
  "dispatch_frames cdc env inps k c [] gs = io_return ([], gs)"
| "dispatch_frames cdc env inps k c (f # fs) gs =
     io_bind (MessageRouter_dispatch cdc env GameServer_registerHandlers (inps k) c f gs) (\<lambda>(out, gs1).
     io_bind (dispatch_frames cdc env inps (k + 1) c fs gs1) (\<lambda>(outs, gs2). io_return (out @ outs, gs2)))"

definition GameServer_onConnectionAccepted :: "conn_id \<Rightarrow> nat \<Rightarrow> game_server \<Rightarrow> game_server" where
  "GameServer_onConnectionAccepted c l gs = gs\<lparr>conn_to_loop := uput c l (conn_to_loop gs)\<rparr>"

definition GameServer_onFrames :: "codec \<Rightarrow> 'w env \<Rightarrow> (nat \<Rightarrow> gs_input) \<Rightarrow> nat \<Rightarrow> conn_id \<Rightarrow> frame list \<Rightarrow> 'w gs_op" where
  "GameServer_onFrames cdc env inps l c fs gs =
     dispatch_frames cdc env inps 0 c fs (gs\<lparr>conn_to_loop := uput c l (conn_to_loop gs)\<rparr>)"

text \<open>The disconnect callback; \<open>s\<close> is a pointer, so its fields are read after \<open>markDisconnected\<close> has changed them.\<close>

definition GameServer_onDisconnect :: "'w env \<Rightarrow> int \<Rightarrow> conn_id \<Rightarrow> 'w gs_op" where
  "GameServer_onDisconnect env now c gs0 =
     (let gs = gs0\<lparr>conn_to_loop := uerase c (conn_to_loop gs0)\<rparr>
      in case SessionManager_getByConn c (gs_sessions gs) of
           None \<Rightarrow> io_return ([], gs)
         | Some s0 \<Rightarrow>
             io_bind (SessionManager_markDisconnected env now c (gs_sessions gs)) (\<lambda>sm1.
               let gs1 = gs\<lparr>gs_sessions := sm1\<rparr>
               in case SessionManager_getByConn c sm1 of
                    None \<Rightarrow> io_fail Undefined
                  | Some s \<Rightarrow>
                      if sess_state s = S_IN_BATTLE \<and> current_room s > 0
                      then io_return ([], gs1\<lparr>gs_battle := BattleManager_onPlayerDisconnect (sess_player s) (current_room s) (gs_battle gs1)\<rparr>)
                      else io_return ([], gs1)))"

text \<open>One pass of the timer thread; it does not return if the matchmaker does not.\<close>

definition GameServer_timerPass ::
    "codec \<Rightarrow> 'w env \<Rightarrow> int \<Rightarrow> game_server \<Rightarrow> 'w store \<Rightarrow> (fault + (loop_write list \<times> game_server) \<times> 'w store) option" where
  "GameServer_timerPass cdc env now gs st =
     (case MatchManager_tryMatch cdc env (gs_matcher gs) 0 (gs_rooms gs) (gs_sessions gs) st of
        None \<Rightarrow> None
      | Some (Inl e) \<Rightarrow> Some (Inl e)
      | Some (Inr ((n, notes, rm1, sm1), st1)) \<Rightarrow>
          let gs1 = gs\<lparr>gs_rooms := rm1, gs_sessions := sm1\<rparr>
          in Some (io_bind (io_lift (send_players notes gs1)) (\<lambda>out.
                   io_bind (SessionManager_cleanupExpired env now sm1) (\<lambda>sm2.
                     io_return (out, gs1\<lparr>gs_sessions := sm2\<rparr>))) st1))"

section \<open>What every part of the server keeps\<close>

definition rooms_open :: "room_manager \<Rightarrow> bool" where
  "rooms_open rm \<longleftrightarrow> (\<forall>rid r. RoomManager_getRoom rid rm = Some r \<longrightarrow> open_room r)"

definition server_inv :: "game_server \<Rightarrow> bool" where
  "server_inv gs \<longleftrightarrow> session_inv (gs_sessions gs) \<and> rooms_open (gs_rooms gs) \<and> bm_inv 2 (gs_battle gs)"

named_theorems keeps \<open>operations that keep the invariants of the managers\<close>

lemmas session_keeps [keeps] = login_inv logout_inv setState_inv setCurrentRoom_inv cleanup_inv markDisconnected_inv tryReconnect_inv

lemma reply_result: "reply cdc c m x gs st = Inr ((out, gs'), st') \<Longrightarrow>
    gs' = gs \<and> st' = st \<and> GameServer_sendResponse c m (SerializeToString cdc x) gs = Inr out"
  by (auto simp: reply_def io_bind_result io_lift_result)

lemma enter_battle_inv: "enter_battle env ps sm st = Inr (sm', st') \<Longrightarrow> session_inv sm \<Longrightarrow> session_inv sm'"
proof (induction env ps sm arbitrary: st rule: enter_battle.induct)
  case (2 env pid info ps sm)
  show ?case
  proof (cases "SessionManager_getByPlayer pid sm")
    case None
    with 2 show ?thesis by simp
  next
    case (Some s)
    with "2.prems"(1) obtain b sm1 st1 where "SessionManager_setState env (session_ident s) S_IN_BATTLE sm st = Inr ((b, sm1), st1)"
      and "enter_battle env ps sm1 st1 = Inr (sm', st')"
      by (auto simp: io_bind_result)
    with "2.IH"(2) [OF Some] setState_inv [OF "2.prems"(2)] show ?thesis by blast
  qed
qed simp

lemma startBattle_sessions [keeps]:
  assumes "session_inv sm" and "BattleManager_startBattle env clk r bm sm st = Inr ((bm', sm'), st')"
  shows "session_inv sm'"
  using assms by (auto simp: BattleManager_startBattle_def Let_def io_bind_result split: sum.splits prod.splits
      intro: enter_battle_inv)

lemma joinQueue_inv [keeps]:
  assumes "session_inv sm" and "MatchManager_joinQueue env pid mode sm st = Inr ((n, sm'), st')"
  shows "session_inv sm'"
  using assms by (auto simp: MatchManager_joinQueue_def io_bind_result split: option.splits
      intro!: setMatchMode_inv dest: setState_inv [OF assms(1)])

lemma leaveQueue_inv [keeps]:
  assumes "session_inv sm" and "MatchManager_leaveQueue env pid sm st = Inr ((n, sm'), st')"
  shows "session_inv sm'"
  using assms by (auto simp: MatchManager_leaveQueue_def io_bind_result split: option.splits
      intro!: setMatchMode_inv dest: setState_inv [OF assms(1)])

text \<open>No operation the server uses moves a room past waiting for players.\<close>

lemma open_addPlayer: "open_room r \<Longrightarrow> open_room (snd (Room_addPlayer p name r))"
  by (auto simp: open_room_def Room_addPlayer_def Let_def)

lemma open_playerReady: "open_room r \<Longrightarrow> open_room (Room_playerReady p r)"
  by (auto simp: open_room_def Room_playerReady_def split: option.splits)

lemma open_startBattle: "open_room r \<Longrightarrow> Room_startBattle r = r"
  by (auto simp: open_room_def Room_startBattle_def)

lemma rooms_open_update:
  assumes "rooms_open rm" and "\<And>r. open_room r \<Longrightarrow> open_room (f r)"
  shows "rooms_open (RoomManager_update rid f rm)"
  using assms by (auto simp: rooms_open_def RoomManager_getRoom_def RoomManager_update_def split: option.splits if_splits)

lemma rooms_open_create: "rooms_open rm \<Longrightarrow> rooms_open (snd (RoomManager_createRoom n rm))"
  by (auto simp: rooms_open_def RoomManager_getRoom_def RoomManager_createRoom_def Let_def open_room_def Room_new_def
      split: if_splits)

lemma fill_room_inv:
  "fill_room cdc env mm mode rid n rm sm st = Inr ((out, rm', sm'), st') \<Longrightarrow> session_inv sm \<Longrightarrow> rooms_open rm \<Longrightarrow>
   session_inv sm' \<and> rooms_open rm'"
proof (induction n arbitrary: rm sm st out)
  case 0
  then show ?case by simp
next
  case (Suc n)
  have upd: "rooms_open (RoomManager_update rid (\<lambda>r. snd (Room_addPlayer pid name r)) rm)" for pid name
    using Suc.prems(3) open_addPlayer by (rule rooms_open_update)
  obtain pid_opt st1 where pop: "RedisClient_popMatchQueue env mode 0 st = Inr (pid_opt, st1)"
    using Suc.prems(1) by (auto simp: io_bind_result)
  show ?case
  proof (cases pid_opt)
    case None
    with pop Suc.prems show ?thesis by simp
  next
    case pid: (Some pid)
    show ?thesis
    proof (cases "SessionManager_getByPlayer pid sm")
      case None
      with pop pid Suc show ?thesis by simp
    next
      case (Some s)
      from Suc.prems(1) pop pid Some obtain b1 sm1 st2 b2 sm2 st3 out' where
        1: "SessionManager_setState env (session_ident s) S_IN_ROOM sm st1 = Inr ((b1, sm1), st2)"
        and 2: "SessionManager_setCurrentRoom env (session_ident s) rid sm1 st2 = Inr ((b2, sm2), st3)"
        and 3: "fill_room cdc env mm mode rid n (RoomManager_update rid (\<lambda>r. snd (Room_addPlayer pid (sess_username s) r)) rm)
           sm2 st3 = Inr ((out', rm', sm'), st')"
        by (auto simp: io_bind_result Let_def)
      show ?thesis
        by (rule Suc.IH [OF 3 setCurrentRoom_inv [OF setState_inv [OF Suc.prems(2) 1] 2] upd])
    qed
  qed
qed

lemma match_loop_inv:
  "match_loop cdc env mm mode formed out rm sm st = Some (Inr ((n, out', rm', sm'), st')) \<Longrightarrow> session_inv sm \<Longrightarrow> rooms_open rm \<Longrightarrow>
   session_inv sm' \<and> rooms_open rm'"
proof -
  have "session_inv sm \<longrightarrow> rooms_open rm \<longrightarrow> (\<forall>n out' rm' sm' st'. y = Inr ((n, out', rm', sm'), st') \<longrightarrow> session_inv sm' \<and> rooms_open rm')"
    if "match_loop cdc env mm mode formed out rm sm st = Some y" for y
    using that
  proof (induction rule: match_loop.raw_induct [rotated, consumes 1, case_names step])
    case (step match_loop cdc env mm mode formed out rm sm st y)
    show ?case
    proof (cases "RedisClient_matchQueueSize env mode st")
      case (Inl e)
      with step(2) show ?thesis by auto
    next
      case (Inr r)
      obtain k st1 where r: "r = (k, st1)" by (cases r)
      show ?thesis
      proof (cases "k < match_room_size mm \<or> (\<exists>e. form_room cdc env mm mode rm sm st1 = Inl e)")
        case True
        with step(2) Inr r show ?thesis by (auto split: if_splits)
      next
        case False
        then obtain out1 rm1 sm1 st2 where form: "form_room cdc env mm mode rm sm st1 = Inr ((out1, rm1, sm1), st2)"
          by (cases "form_room cdc env mm mode rm sm st1") auto
        with step(2) Inr r False have next': "match_loop cdc env mm mode (formed + 1) (out @ out1) rm1 sm1 st2 = Some y"
          by simp
        have "session_inv sm1 \<and> rooms_open rm1" if "session_inv sm" "rooms_open rm"
          using form that rooms_open_create [OF that(2)] by (auto simp: form_room_def case_prod_beta dest: fill_room_inv)
        with step(1) [OF next'] show ?thesis by blast
      qed
    qed
  qed
  then show "match_loop cdc env mm mode formed out rm sm st = Some (Inr ((n, out', rm', sm'), st')) \<Longrightarrow> session_inv sm \<Longrightarrow>
      rooms_open rm \<Longrightarrow> session_inv sm' \<and> rooms_open rm'"
    by blast
qed

section \<open>The handlers keep the invariant\<close>

lemma handle_login_inv:
  assumes "server_inv gs" and "uget (sessions (gs_sessions gs)) (in_sid inp) = None"
    and "handle_login cdc env inp c f gs st = Inr ((out, gs'), st')"
  shows "server_inv gs'"
proof (cases "fst (Parse_LoginRequest cdc (payload f))")
  case False
  with assms show ?thesis by (simp add: handle_login_def case_prod_beta)
next
  case True
  have inv: "session_inv (gs_sessions gs)" using assms(1) by (simp add: server_inv_def)
  note log = login_inv [OF inv assms(2)]
  from assms(3) True obtain sm' where "gs' = gs\<lparr>gs_sessions := sm'\<rparr>" "session_inv sm'"
    by (auto simp: handle_login_def case_prod_beta io_bind_result Let_def dest!: reply_result
        dest: log setState_inv [OF log] split: if_splits)
  with assms(1) show ?thesis by (simp add: server_inv_def)
qed

lemma handle_enterRoom_inv:
  assumes "server_inv gs" and "handle_enterRoom cdc env c f gs st = Inr ((out, gs'), st')"
  shows "server_inv gs'"
proof (cases "SessionManager_getByConn c (gs_sessions gs)")
  case None
  with assms show ?thesis by (auto simp: handle_enterRoom_def dest: reply_result)
next
  case (Some s)
  define rid where "rid = snd (Parse_EnterRoomRequest cdc (payload f))"
  show ?thesis
  proof (cases "RoomManager_getRoom rid (gs_rooms gs)")
    case None
    with assms Some show ?thesis by (auto simp: handle_enterRoom_def rid_def Let_def dest: reply_result)
  next
    case (Some r)
    have inv: "session_inv (gs_sessions gs)" "rooms_open (gs_rooms gs)" using assms(1) by (simp_all add: server_inv_def)
    have "open_room (snd (Room_addPlayer (sess_player s) (sess_username s) r))"
      using inv(2) Some by (auto simp: rooms_open_def intro: open_addPlayer)
    then have upd: "rooms_open (RoomManager_update rid (\<lambda>_. snd (Room_addPlayer (sess_player s) (sess_username s) r)) (gs_rooms gs))"
      using inv(2) by (auto intro: rooms_open_update)
    from assms(2) Some \<open>SessionManager_getByConn c (gs_sessions gs) = Some s\<close> show ?thesis
      using assms(1) upd setCurrentRoom_inv [OF inv(1)]
      by (auto simp: handle_enterRoom_def rid_def [symmetric] Let_def case_prod_beta io_bind_result server_inv_def
          dest!: reply_result split: if_splits)
  qed
qed

lemma handle_playerReady_inv:
  assumes "server_inv gs" and "handle_playerReady cdc env inp c gs st = Inr ((out, gs'), st')"
  shows "server_inv gs'"
proof (cases "gs' = gs")
  case True
  with assms(1) show ?thesis by simp
next
  case False
  with assms(2) obtain s r where s: "SessionManager_getByConn c (gs_sessions gs) = Some s" "current_room s \<noteq> 0"
    "RoomManager_getRoom (current_room s) (gs_rooms gs) = Some r"
    by (auto simp: handle_playerReady_def split: option.splits if_splits)
  define r1 where "r1 = Room_playerReady (sess_player s) r"
  have inv: "session_inv (gs_sessions gs)" "rooms_open (gs_rooms gs)" "bm_inv 2 (gs_battle gs)"
    using assms(1) by (simp_all add: server_inv_def)
  have "open_room r1" using inv(2) s(3) by (auto simp: rooms_open_def r1_def intro: open_playerReady)
  then have upd: "rooms_open (RoomManager_update (current_room s) (\<lambda>_. r1) (gs_rooms gs))" "Room_startBattle r1 = r1"
    using inv(2) by (auto intro: rooms_open_update simp: open_startBattle)
  show ?thesis
    using assms(2) s inv upd start_inv [OF inv(3)] startBattle_sessions [OF inv(1)]
    by (auto simp: handle_playerReady_def r1_def [symmetric] Let_def io_bind_result io_lift_result server_inv_def
        split: if_splits)
qed

text \<open>A reconnect that succeeds leaves the session in the lobby, so the branch that sends a snapshot is never taken.\<close>

lemma tryReconnect_lobby:
  assumes "SessionManager_tryReconnect env now now' sid c sm st = Inr ((res, sm'), st')" and "error_code res = 0"
  shows "\<exists>s. SessionManager_getBySession (res_session_id res) sm' = Some s \<and> sess_state s = S_IN_LOBBY"
  using assms by (auto simp: SessionManager_tryReconnect_def SessionManager_getBySession_def LoginResult_default_def
      io_bind_result Let_def split: option.splits if_splits)

lemma handle_reconnect_result:
  assumes "handle_reconnect cdc env inp c f gs st = Inr ((out, gs'), st')"
    and "Parse_ReconnectRequest cdc (payload f) = (True, sid)"
  shows "\<exists>res sm'. SessionManager_tryReconnect env (in_now inp) (in_now' inp) sid c (gs_sessions gs) st = Inr ((res, sm'), st') \<and>
     gs' = gs\<lparr>gs_sessions := sm'\<rparr> \<and>
     GameServer_sendResponse c 5002 (SerializeToString cdc (ReconnectResponse (error_code res) (error_msg res))) gs' = Inr out"
proof -
  obtain res sm' st1 where t: "SessionManager_tryReconnect env (in_now inp) (in_now' inp) sid c (gs_sessions gs) st = Inr ((res, sm'), st1)"
    using assms by (auto simp: handle_reconnect_def io_bind_result)
  show ?thesis
  proof (cases "error_code res = 0")
    case True
    with tryReconnect_lobby [OF t] assms t show ?thesis
      by (auto simp: handle_reconnect_def Let_def io_bind_result dest!: reply_result)
  next
    case False
    with assms t show ?thesis
      by (auto simp: handle_reconnect_def Let_def io_bind_result dest!: reply_result)
  qed
qed

lemma handle_reconnect_inv:
  assumes "server_inv gs" and "handle_reconnect cdc env inp c f gs st = Inr ((out, gs'), st')"
  shows "server_inv gs'"
proof -
  obtain ok sid where p: "Parse_ReconnectRequest cdc (payload f) = (ok, sid)" by fastforce
  show ?thesis
  proof (cases ok)
    case True
    have "session_inv (gs_sessions gs)" using assms(1) by (simp add: server_inv_def)
    from handle_reconnect_result [OF assms(2)] p True tryReconnect_inv [OF this] assms(1) show ?thesis
      by (auto simp: server_inv_def)
  next
    case False
    with p assms show ?thesis by (simp add: handle_reconnect_def)
  qed
qed

lemma small_handlers_inv:
  assumes "server_inv gs"
  shows "handle_heartbeat cdc inp c gs st = Inr ((out, gs'), st') \<Longrightarrow> server_inv gs'"
    and "handle_matchStart cdc env c f gs st = Inr ((out, gs'), st') \<Longrightarrow> server_inv gs'"
    and "handle_matchCancel env c gs st = Inr ((out, gs'), st') \<Longrightarrow> server_inv gs'"
    and "handle_reconnect cdc env inp c f gs st = Inr ((out, gs'), st') \<Longrightarrow> server_inv gs'"
    and "dispatch_command c mk gs st = Inr ((out, gs'), st') \<Longrightarrow> server_inv gs'"
proof -
  have inv: "session_inv (gs_sessions gs)" using assms by (simp add: server_inv_def)
  have put: "session_inv sm \<Longrightarrow> server_inv (gs\<lparr>gs_sessions := sm\<rparr>)" for sm
    using assms by (simp add: server_inv_def)
  show "handle_heartbeat cdc inp c gs st = Inr ((out, gs'), st') \<Longrightarrow> server_inv gs'"
    using assms by (auto simp: handle_heartbeat_def dest!: reply_result intro!: put heartbeat_inv inv split: option.splits)
  show "handle_matchStart cdc env c f gs st = Inr ((out, gs'), st') \<Longrightarrow> server_inv gs'"
    using assms by (auto simp: handle_matchStart_def io_bind_result dest!: reply_result intro!: put
        dest: joinQueue_inv [OF inv] split: option.splits)
  show "handle_matchCancel env c gs st = Inr ((out, gs'), st') \<Longrightarrow> server_inv gs'"
    using assms by (auto simp: handle_matchCancel_def io_bind_result intro!: put
        dest: leaveQueue_inv [OF inv] split: option.splits)
  show "handle_reconnect cdc env inp c f gs st = Inr ((out, gs'), st') \<Longrightarrow> server_inv gs'"
    by (rule handle_reconnect_inv [OF assms])
  show "dispatch_command c mk gs st = Inr ((out, gs'), st') \<Longrightarrow> server_inv gs'"
    using assms dispatch_inv
    by (auto simp: dispatch_command_def server_inv_def split: option.splits if_splits)
qed

lemma run_handler_inv:
  assumes "server_inv gs" and "uget (sessions (gs_sessions gs)) (in_sid inp) = None"
    and "run_handler cdc env inp h c f gs st = Inr ((out, gs'), st')"
  shows "server_inv gs'"
  using assms(3) handle_login_inv [OF assms(1,2)] handle_enterRoom_inv [OF assms(1)] handle_playerReady_inv [OF assms(1)]
    small_handlers_inv [OF assms(1)]
  by (cases h) simp_all

lemma dispatch_router_inv:
  assumes "server_inv gs" and "uget (sessions (gs_sessions gs)) (in_sid inp) = None"
    and "MessageRouter_dispatch cdc env router inp c f gs st = Inr ((out, gs'), st')"
  shows "server_inv gs'"
  using assms(1,3) run_handler_inv [OF assms(1,2)]
  by (auto simp: MessageRouter_dispatch_def split: option.splits)

section \<open>Routes to the loops\<close>

text \<open>No handler touches the table from connections to loops; only the callbacks do.\<close>

lemma handlers_keep_routes:
  "handle_login cdc env inp c f gs st = Inr ((out, gs'), st') \<Longrightarrow> conn_to_loop gs' = conn_to_loop gs"
  "handle_heartbeat cdc inp c gs st = Inr ((out, gs'), st') \<Longrightarrow> conn_to_loop gs' = conn_to_loop gs"
  "handle_matchStart cdc env c f gs st = Inr ((out, gs'), st') \<Longrightarrow> conn_to_loop gs' = conn_to_loop gs"
  "handle_matchCancel env c gs st = Inr ((out, gs'), st') \<Longrightarrow> conn_to_loop gs' = conn_to_loop gs"
  "handle_enterRoom cdc env c f gs st = Inr ((out, gs'), st') \<Longrightarrow> conn_to_loop gs' = conn_to_loop gs"
  "handle_playerReady cdc env inp c gs st = Inr ((out, gs'), st') \<Longrightarrow> conn_to_loop gs' = conn_to_loop gs"
  "dispatch_command c mk gs st = Inr ((out, gs'), st') \<Longrightarrow> conn_to_loop gs' = conn_to_loop gs"
  "handle_reconnect cdc env inp c f gs st = Inr ((out, gs'), st') \<Longrightarrow> conn_to_loop gs' = conn_to_loop gs"
  by (auto simp: handle_login_def handle_heartbeat_def handle_matchStart_def handle_matchCancel_def handle_enterRoom_def
      handle_playerReady_def dispatch_command_def handle_reconnect_def case_prod_beta Let_def io_bind_result io_lift_result
      split: option.splits if_splits dest!: reply_result)

lemma run_handler_routes: "run_handler cdc env inp h c f gs st = Inr ((out, gs'), st') \<Longrightarrow> conn_to_loop gs' = conn_to_loop gs"
  by (cases h) (auto dest: handlers_keep_routes)

lemma dispatch_routes:
  "MessageRouter_dispatch cdc env router inp c f gs st = Inr ((out, gs'), st') \<Longrightarrow> conn_to_loop gs' = conn_to_loop gs"
  by (auto simp: MessageRouter_dispatch_def split: option.splits dest: run_handler_routes)

lemma dispatch_frames_routes:
  "dispatch_frames cdc env inps k c fs gs st = Inr ((out, gs'), st') \<Longrightarrow> conn_to_loop gs' = conn_to_loop gs"
  by (induction fs arbitrary: k gs st out) (auto simp: io_bind_result dest!: dispatch_routes)

lemma onFrames_routes:
  "GameServer_onFrames cdc env inps l c fs gs st = Inr ((out, gs'), st') \<Longrightarrow> conn_to_loop gs' = uput c l (conn_to_loop gs)"
  by (auto simp: GameServer_onFrames_def dest: dispatch_frames_routes)

lemma onDisconnect_routes:
  "GameServer_onDisconnect env now c gs st = Inr ((out, gs'), st') \<Longrightarrow> out = [] \<and> conn_to_loop gs' = uerase c (conn_to_loop gs)"
  by (auto simp: GameServer_onDisconnect_def Let_def io_bind_result split: option.splits if_splits)

lemma timerPass_routes:
  "GameServer_timerPass cdc env now gs st = Some (Inr ((out, gs'), st')) \<Longrightarrow> conn_to_loop gs' = conn_to_loop gs"
  by (auto simp: GameServer_timerPass_def Let_def io_bind_result split: option.splits sum.splits prod.splits)

text \<open>Whatever is sent goes to the loop the table gives for its connection.\<close>

definition routed :: "(conn_id, nat) umap \<Rightarrow> loop_write list \<Rightarrow> bool" where
  "routed m ws \<longleftrightarrow> (\<forall>(l, c, data) \<in> set ws. uget m c = Some l)"

lemma routed_append [simp]: "routed m (ws @ ws') \<longleftrightarrow> routed m ws \<and> routed m ws'"
  by (simp add: routed_def ball_Un)

lemma routed_Nil [simp]: "routed m []"
  by (simp add: routed_def)

lemma sendResponse_routed: "GameServer_sendResponse c m pl gs = Inr out \<Longrightarrow> routed (conn_to_loop gs) out"
  by (auto simp: GameServer_sendResponse_def routed_def split: sum.splits option.splits)

lemma send_players_routed: "send_players ms gs = Inr out \<Longrightarrow> routed (conn_to_loop gs) out"
proof (induction ms arbitrary: out)
  case (Cons x ms)
  then show ?case
    by (cases x) (auto simp: res_bind_Inr_iff split: option.splits dest: sendResponse_routed)
qed simp

section \<open>The whole server as a machine\<close>

datatype server_event =
    SE_Frame gs_input nat conn_id frame
  | SE_Disconnect int conn_id
  | SE_Timer int
  | SE_Worker nat worker_event

text \<open>A callback with several frames is several of these events. A fault ends the program.\<close>

definition continue_with :: "fault + (loop_write list \<times> game_server) \<times> 'w store \<Rightarrow> game_server \<times> 'w store \<Rightarrow> game_server \<times> 'w store" where
  "continue_with r s = (case r of Inl e \<Rightarrow> s | Inr ((out, gs), st) \<Rightarrow> (gs, st))"

fun server_step :: "codec \<Rightarrow> 'w env \<Rightarrow> game_server \<times> 'w store \<Rightarrow> server_event \<Rightarrow> game_server \<times> 'w store" where
  "server_step cdc env (gs, st) (SE_Frame inp l c f) =
     continue_with (GameServer_onFrames cdc env (\<lambda>_. inp) l c [f] gs st) (gs, st)"
| "server_step cdc env (gs, st) (SE_Disconnect now c) = continue_with (GameServer_onDisconnect env now c gs st) (gs, st)"
| "server_step cdc env (gs, st) (SE_Timer now) =
     (case GameServer_timerPass cdc env now gs st of None \<Rightarrow> (gs, st) | Some r \<Rightarrow> continue_with r (gs, st))"
| "server_step cdc env (gs, st) (SE_Worker i ev) =
     (gs\<lparr>gs_battle := (gs_battle gs)\<lparr>bm_workers := (bm_workers (gs_battle gs))[i := worker_step cdc (bm_workers (gs_battle gs) ! i) ev]\<rparr>\<rparr>, st)"

fun server_event_ok :: "game_server \<times> 'w store \<Rightarrow> server_event \<Rightarrow> bool" where
  "server_event_ok (gs, st) (SE_Frame inp l c f) = (uget (sessions (gs_sessions gs)) (in_sid inp) = None)"
| "server_event_ok s (SE_Worker i (DrainOne now)) = True"
| "server_event_ok s (SE_Worker i (Tick clk)) = True"
| "server_event_ok s (SE_Worker i _) = False"
| "server_event_ok s _ = True"

lemma continue_inv:
  "(\<And>out gs' st'. r = Inr ((out, gs'), st') \<Longrightarrow> server_inv gs') \<Longrightarrow> server_inv (fst s) \<Longrightarrow> server_inv (fst (continue_with r s))"
  by (auto simp: continue_with_def split: sum.splits)

lemma server_inv_loops [simp]: "server_inv (gs\<lparr>conn_to_loop := m\<rparr>) = server_inv gs"
  by (simp add: server_inv_def)

lemma onFrames_one:
  "GameServer_onFrames cdc env inps l c [f] gs =
   MessageRouter_dispatch cdc env GameServer_registerHandlers (inps 0) c f (gs\<lparr>conn_to_loop := uput c l (conn_to_loop gs)\<rparr>)"
  by (rule ext) (auto simp: GameServer_onFrames_def io_bind_def split: sum.splits)

text \<open>The frame after \<open>markDisconnected\<close>: the session is no longer in a battle when the callback looks at it.\<close>

lemma onDisconnect_result:
  assumes "GameServer_onDisconnect env now c gs st = Inr ((out, gs'), st')"
  shows "out = [] \<and> gs_battle gs' = gs_battle gs \<and> gs_rooms gs' = gs_rooms gs \<and>
     (gs_sessions gs' = gs_sessions gs \<or> SessionManager_markDisconnected env now c (gs_sessions gs) st = Inr (gs_sessions gs', st'))"
proof (cases "SessionManager_getByConn c (gs_sessions gs)")
  case None
  with assms show ?thesis by (auto simp: GameServer_onDisconnect_def)
next
  case (Some s0)
  with assms obtain sm1 st1 where m: "SessionManager_markDisconnected env now c (gs_sessions gs) st = Inr (sm1, st1)"
    by (auto simp: GameServer_onDisconnect_def Let_def io_bind_result)
  have "SessionManager_getByConn c sm1 = Some s \<Longrightarrow> sess_state s \<noteq> S_IN_BATTLE" for s
    using m Some by (auto simp: SessionManager_markDisconnected_def SessionManager_getByConn_def io_bind_result Let_def
        split: option.splits)
  with m Some assms show ?thesis
    by (auto simp: GameServer_onDisconnect_def Let_def split: option.splits if_splits)
qed

lemma timerPass_inv:
  assumes "server_inv gs" and "GameServer_timerPass cdc env now gs st = Some (Inr ((out, gs'), st'))"
  shows "server_inv gs'"
proof -
  from assms(2) obtain n ns rm1 sm1 st1 where
    m: "match_loop cdc env (gs_matcher gs) 0 0 [] (gs_rooms gs) (gs_sessions gs) st = Some (Inr ((n, ns, rm1, sm1), st1))"
    by (auto simp: GameServer_timerPass_def MatchManager_tryMatch_def split: option.splits sum.splits prod.splits)
  have "session_inv sm1 \<and> rooms_open rm1"
    using match_loop_inv [OF m] assms(1) by (simp add: server_inv_def)
  with m assms cleanup_inv [of sm1] show ?thesis
    by (auto simp: GameServer_timerPass_def MatchManager_tryMatch_def Let_def io_bind_result io_lift_result server_inv_def)
qed

lemma server_step_inv:
  assumes "server_inv (fst s)" and "server_event_ok s ev"
  shows "server_inv (fst (server_step cdc env s ev))"
proof -
  obtain gs st where s: "s = (gs, st)" by (cases s)
  have inv: "server_inv gs" using assms(1) by (simp add: s)
  show ?thesis
  proof (cases ev)
    case (SE_Frame inp l c f)
    have "uget (sessions (gs_sessions (gs\<lparr>conn_to_loop := uput c l (conn_to_loop gs)\<rparr>))) (in_sid inp) = None"
      using assms(2) SE_Frame s by simp
    from dispatch_router_inv [OF _ this] inv show ?thesis
      by (auto simp: s SE_Frame onFrames_one intro!: continue_inv)
  next
    case (SE_Disconnect now c)
    have "server_inv gs'" if "GameServer_onDisconnect env now c gs st = Inr ((out, gs'), st')" for out gs' st'
      using onDisconnect_result [OF that] inv markDisconnected_inv [of "gs_sessions gs" env now c st] by (auto simp: server_inv_def)
    with inv show ?thesis by (auto simp: s SE_Disconnect intro!: continue_inv)
  next
    case (SE_Timer now)
    with inv timerPass_inv [OF inv] show ?thesis by (auto simp: s split: option.splits intro!: continue_inv)
  next
    case (SE_Worker i wev)
    have "bm_inv 2 (fst (battle_step cdc env (gs_battle gs, gs_rooms gs, gs_sessions gs, st) (BE_Worker i wev)))"
    proof (rule battle_step_inv)
      show "own_step (gs_battle gs, gs_rooms gs, gs_sessions gs, st) (BE_Worker i wev)"
        using assms(2) SE_Worker s by (cases wev) simp_all
    qed (use inv in \<open>simp add: server_inv_def\<close>)
    with inv show ?thesis by (simp add: s SE_Worker server_inv_def)
  qed
qed

interpretation srv: machine "server_step cdc env" server_event_ok "\<lambda>s. server_inv (fst s)" for cdc env
  by unfold_locales (rule server_step_inv)

lemma initial_server_inv: "server_inv (GameServer_initBusiness cfg)"
proof -
  have "bm_inv 2 (BattleManager_setSendCallback True (BattleManager_new 2))"
    by (auto simp: bm_inv_def tracked_def BattleManager_new_def BattleManager_setSendCallback_def LogicWorker_setSendCallback_def
        room_keys_def LogicWorker_new_def worker_inv_def)
  moreover have "session_inv (SessionManager_setSendCallback True SessionManager_new)"
    by (simp add: session_inv_def SessionManager_setSendCallback_def SessionManager_new_def)
  ultimately show ?thesis
    by (simp add: server_inv_def GameServer_initBusiness_def rooms_open_def RoomManager_getRoom_def RoomManager_new_def)
qed

section \<open>The command queues\<close>

definition queues :: "game_server \<Rightarrow> command list list" where
  "queues gs = map (\<lambda>w. cmd_queue (lw_cmd_queue w)) (bm_workers (gs_battle gs))"

lemma drain_queue: "lw_cmd_queue (LogicWorker_drainPendingOps clk w) = lw_cmd_queue w"
proof -
  have "lw_cmd_queue (drain_one now w) = lw_cmd_queue w" for now w
    by (simp add: drain_one_def split: list.splits)
  then show ?thesis
    using drain_induct [of "\<lambda>w w'. lw_cmd_queue w' = lw_cmd_queue w" w clk] by simp
qed

lemma startBattle_queues:
  assumes "bm_inv n bm" and "BattleManager_startBattle env clk r bm sm st = Inr ((bm', sm'), st')"
  shows "map lw_cmd_queue (bm_workers bm') = map lw_cmd_queue (bm_workers bm)"
proof -
  define i where "i = unat (room_ident r) mod length (bm_workers bm)"
  define ws where "ws = (bm_workers bm)[i := LogicWorker_addRoom (room_ident r) (build_players (room_players r) []) (bm_workers bm ! i)]"
  have "bm_workers bm \<noteq> []" "\<forall>w \<in> set (bm_workers bm). 0 \<le> lw_id w \<and> lw_id w < 16"
    using assms(1) by (auto simp: bm_inv_def tracked_def in_set_conv_nth)
  from start_outcome [OF this, of clk r env sm] assms(2) have sw: "list_all2 (swept clk) ws (bm_workers bm')"
    by (auto simp: io_bind_result ws_def i_def)
  have "swept clk w w' \<Longrightarrow> lw_cmd_queue w' = lw_cmd_queue w" for w w'
    by (auto simp: swept_def drain_queue split: if_splits)
  then have "map lw_cmd_queue (bm_workers bm') = map lw_cmd_queue ws"
    using sw by (auto simp: list_all2_conv_all_nth intro!: nth_equalityI)
  also have "\<dots> = (map lw_cmd_queue (bm_workers bm))[i := lw_cmd_queue (bm_workers bm ! i)]"
    by (simp add: ws_def map_update LogicWorker_addRoom_def push_op_def)
  also have "\<dots> = map lw_cmd_queue (bm_workers bm)"
    by (cases "i < length (bm_workers bm)") (simp_all add: list_update_same_conv list_update_beyond)
  finally show ?thesis .
qed

lemma dispatch_queues:
  assumes "BattleManager_dispatchCommand rid cmd bm = bm'" and "bm_inv n bm"
  shows "map (\<lambda>w. cmd_queue (lw_cmd_queue w)) (bm_workers bm') =
     (case uget (room_to_worker bm) rid of
        None \<Rightarrow> map (\<lambda>w. cmd_queue (lw_cmd_queue w)) (bm_workers bm)
      | Some i \<Rightarrow> (map (\<lambda>w. cmd_queue (lw_cmd_queue w)) (bm_workers bm))
           [i := map (\<lambda>w. cmd_queue (lw_cmd_queue w)) (bm_workers bm) ! i @ [cmd]])"
proof (cases "uget (room_to_worker bm) rid")
  case (Some i)
  have "i < length (bm_workers bm)" using bm_inv_owner [OF assms(2) Some] assms(2) by (simp add: bm_inv_def)
  with Some assms(1) show ?thesis
    by (auto simp: BattleManager_dispatchCommand_def map_update LogicWorker_pushCommand_def CommandQueue_push_def)
qed (use assms(1) in \<open>simp add: BattleManager_dispatchCommand_def\<close>)

lemma quiet_handlers:
  assumes "bm_inv n (gs_battle gs)" and "h \<notin> {H_PlayerMove, H_PlayerAttack, H_PlayerSkill}"
    and "run_handler cdc env inp h c f gs st = Inr ((out, gs'), st')"
  shows "queues gs' = queues gs"
proof (cases "h = H_PlayerReady")
  case True
  have "map lw_cmd_queue (bm_workers (gs_battle gs')) = map lw_cmd_queue (bm_workers (gs_battle gs))"
    using assms(3) True startBattle_queues [OF assms(1)]
    by (auto simp: handle_playerReady_def Let_def io_bind_result io_lift_result split: option.splits if_splits)
  from arg_cong [OF this, of "map cmd_queue"] show ?thesis by (simp add: queues_def o_def)
next
  case False
  have "gs_battle gs' = gs_battle gs"
  proof (cases h)
    case H_Reconnect
    obtain ok sid where p: "Parse_ReconnectRequest cdc (payload f) = (ok, sid)" by fastforce
    from assms(3) H_Reconnect handle_reconnect_result [of cdc env inp c f gs st out gs' st' sid] p show ?thesis
      by (cases ok) (auto simp: handle_reconnect_def)
  qed (use assms False in \<open>auto simp: handle_login_def handle_heartbeat_def handle_matchStart_def handle_matchCancel_def
      handle_enterRoom_def case_prod_beta Let_def io_bind_result split: option.splits if_splits dest!: reply_result\<close>)
  then show ?thesis by (simp add: queues_def)
qed

section \<open>Telling the players\<close>

definition fits :: "codec \<Rightarrow> server_msg \<Rightarrow> bool" where
  "fits cdc m \<longleftrightarrow> length (SerializeToString cdc m) \<le> kMaxPayload"

lemma sendResponse_fits:
  assumes "fits cdc m"
  obtains data where "FrameCodec_encode msg_id 0 0 (SerializeToString cdc m) = Inr data"
    "\<And>c gs. GameServer_sendResponse c msg_id (SerializeToString cdc m) gs =
       Inr (case uget (conn_to_loop gs) c of None \<Rightarrow> [] | Some l \<Rightarrow> [(l, c, data)])"
proof -
  obtain data where "FrameCodec_encode msg_id 0 0 (SerializeToString cdc m) = Inr data"
    using assms by (simp add: FrameCodec_encode_def fits_def Let_def)
  then show ?thesis by (intro that) (simp_all add: GameServer_sendResponse_def)
qed

lemma send_players_all:
  assumes "\<And>c gs. GameServer_sendResponse c msg_id pl gs = Inr (case uget (conn_to_loop gs) c of None \<Rightarrow> [] | Some l \<Rightarrow> [(l, c, data)])"
  shows "\<exists>out. send_players (map (\<lambda>(pid, info). (pid, msg_id, pl)) ps) gs = Inr out \<and>
     set out = {(l, sess_conn s, data) | p s l. p \<in> set (ukeys ps) \<and> SessionManager_getByPlayer p (gs_sessions gs) = Some s \<and>
        uget (conn_to_loop gs) (sess_conn s) = Some l}"
proof (induction ps)
  case Nil
  then show ?case by simp
next
  case (Cons q ps)
  then obtain out where out: "send_players (map (\<lambda>(pid, info). (pid, msg_id, pl)) ps) gs = Inr out"
    "set out = {(l, sess_conn s, data) | p s l. p \<in> set (ukeys ps) \<and> SessionManager_getByPlayer p (gs_sessions gs) = Some s \<and>
        uget (conn_to_loop gs) (sess_conn s) = Some l}" by blast
  obtain p info where q: "q = (p, info)" by (cases q)
  show ?case
  proof (cases "SessionManager_getByPlayer p (gs_sessions gs)")
    case None
    with out q show ?thesis by auto
  next
    case (Some s)
    with out q assms [of "sess_conn s" gs] show ?thesis
      by (cases "uget (conn_to_loop gs) (sess_conn s)") (auto simp del: set_map)
  qed
qed

section \<open>Properties\<close>

lemma router_lookup:
  "uget GameServer_registerHandlers m =
     (if m = 1001 then Some H_Login else if m = 1101 then Some H_Heartbeat else if m = 2001 then Some H_MatchStart
      else if m = 2003 then Some H_MatchCancel else if m = 3001 then Some H_EnterRoom else if m = 3003 then Some H_PlayerReady
      else if m = 4001 then Some H_PlayerMove else if m = 4002 then Some H_PlayerAttack else if m = 4003 then Some H_PlayerSkill
      else if m = 5001 then Some H_Reconnect else None)"
  by (simp add: GameServer_registerHandlers_def MessageRouter_registerHandler_def)

lemma sendResponse_only:
  "GameServer_sendResponse c m pl gs = Inr out \<Longrightarrow> w \<in> set out \<Longrightarrow> fst (snd w) = c"
  by (auto simp: GameServer_sendResponse_def split: sum.splits option.splits)

text \<open>
  C22. A client that has not logged in cannot do anything to the game: for every message except login and
  reconnect, on a connection without a session, the whole state of the server and of the storage
  stays as it is, and at most an answer to that connection is sent.
\<close>
theorem unauthenticated_no_effect:
  assumes "SessionManager_getByConn c (gs_sessions gs) = None"
    and "message_id f \<noteq> 1001" and "message_id f \<noteq> 5001"
    and "MessageRouter_dispatch cdc env GameServer_registerHandlers inp c f gs st = Inr ((out, gs'), st')"
  shows "gs' = gs \<and> st' = st \<and> (\<forall>w \<in> set out. fst (snd w) = c)"
  using assms
  by (auto simp: MessageRouter_dispatch_def router_lookup handle_heartbeat_def handle_matchStart_def handle_matchCancel_def
      handle_enterRoom_def handle_playerReady_def dispatch_command_def split: if_splits dest!: reply_result dest: sendResponse_only)

text \<open>
  C9. Battle commands are authenticated: whatever message arrives on a connection, the command queues of the
  logic workers change only if that connection is bound to a session in a battle, and then by one
  command, at the end of the queue of the worker that owns the session's room, that carries the
  session's own player and the sequence number of the frame.
\<close>
theorem commands_authenticated:
  assumes "server_inv gs"
    and "MessageRouter_dispatch cdc env GameServer_registerHandlers inp c f gs st = Inr ((out, gs'), st')"
  shows "queues gs' = queues gs \<or>
     (\<exists>s cmd i. SessionManager_getByConn c (gs_sessions gs) = Some s \<and> sess_state s = S_IN_BATTLE \<and>
        uget (room_to_worker (gs_battle gs)) (current_room s) = Some i \<and>
        cmd_player_id cmd = sess_player s \<and> cmd_sequence cmd = sequence f \<and>
        queues gs' = (queues gs)[i := queues gs ! i @ [cmd]])"
proof -
  have bm: "bm_inv 2 (gs_battle gs)" using assms(1) by (simp add: server_inv_def)
  note start = startBattle_queues [OF bm]
  have cmd: "queues gs' = queues gs \<or> (\<exists>s cmd i. SessionManager_getByConn c (gs_sessions gs) = Some s \<and> sess_state s = S_IN_BATTLE \<and>
        uget (room_to_worker (gs_battle gs)) (current_room s) = Some i \<and> mk s = Some cmd \<and>
        queues gs' = (queues gs)[i := queues gs ! i @ [cmd]])"
    if "dispatch_command c mk gs st = Inr ((out, gs'), st')" for mk
    using that dispatch_queues [OF refl bm]
    by (auto simp: dispatch_command_def queues_def split: option.splits if_splits)
  have mk: "cmd_player_id cmd = sess_player s \<and> cmd_sequence cmd = sequence f"
    if "mk \<in> {move_command cdc f, attack_command cdc f, skill_command cdc f}" "mk s = Some cmd" for mk s cmd
    using that by (auto simp: move_command_def attack_command_def skill_command_def Command_default_def split: prod.splits if_splits)
  obtain h where h: "h = uget GameServer_registerHandlers (message_id f)" by simp
  show ?thesis
  proof (cases "h \<in> {Some H_PlayerMove, Some H_PlayerAttack, Some H_PlayerSkill}")
    case True
    with assms(2) h obtain mk where "dispatch_command c mk gs st = Inr ((out, gs'), st')"
      and "mk \<in> {move_command cdc f, attack_command cdc f, skill_command cdc f}"
      by (auto simp: MessageRouter_dispatch_def)
    with cmd mk show ?thesis by blast
  next
    case False
    have "queues gs' = queues gs"
    proof (cases h)
      case None
      with assms(2) h show ?thesis by (simp add: MessageRouter_dispatch_def)
    next
      case (Some h')
      with assms(2) h [symmetric] have "run_handler cdc env inp h' c f gs st = Inr ((out, gs'), st')"
        by (simp add: MessageRouter_dispatch_def)
      with False Some quiet_handlers [OF bm] show ?thesis by blast
    qed
    then show ?thesis ..
  qed
qed


text \<open>
  C36. No room of the server ever runs: the server starts battles without ever calling \<open>startLoading\<close>, so in
  every history every room stays open for players, also while its battle is being fought.
\<close>
theorem rooms_never_running:
  fixes st :: "'w store"
  assumes "admitted (server_step cdc env) server_event_ok (GameServer_initBusiness cfg, st) evs"
    and "RoomManager_getRoom rid (gs_rooms (fst (run_events (server_step cdc env) (GameServer_initBusiness cfg, st) evs))) = Some r"
  shows "room_state r = R_CREATED \<or> room_state r = R_WAITING_PLAYERS"
proof -
  have "server_inv (fst (run_events (server_step cdc env) (GameServer_initBusiness cfg, st) evs))"
    using srv.run_inv [of "(GameServer_initBusiness cfg, st)" cdc env evs] assms(1) initial_server_inv by simp
  with assms(2) show ?thesis by (auto simp: server_inv_def rooms_open_def open_room_def)
qed

text \<open>
  C34. A disconnection never reaches the battle: the callback marks the session as disconnected first and only
  then asks whether it is in a battle, so for a player in a battle the battle manager and its
  workers are left exactly as they were.
\<close>
theorem disconnect_never_reaches_battle:
  assumes "healthy env" and "pools_ready st"
    and "SessionManager_getByConn c (gs_sessions gs) = Some s" and "sess_state s = S_IN_BATTLE" and "current_room s \<noteq> 0"
  shows "\<exists>gs' st'. GameServer_onDisconnect env now c gs st = Inr (([], gs'), st') \<and> gs_battle gs' = gs_battle gs \<and>
     SessionManager_getByConn c (gs_sessions gs') = Some (s\<lparr>sess_state := S_DISCONNECTED, last_active := now\<rparr>)"
proof -
  obtain sm1 st1 where m: "SessionManager_markDisconnected env now c (gs_sessions gs) st = Inr (sm1, st1)"
    using returnsD [OF markDisconnected_total [OF assms(1)] assms(2)] by metis
  then have "SessionManager_getByConn c sm1 = Some (s\<lparr>sess_state := S_DISCONNECTED, last_active := now\<rparr>)"
    using assms(3) by (auto simp: SessionManager_markDisconnected_def SessionManager_getByConn_def io_bind_result Let_def
        split: option.splits)
  with m assms(3) show ?thesis by (simp add: GameServer_onDisconnect_def Let_def)
qed

text \<open>
  A reconnecting client is never sent a snapshot of its battle: whatever the session was doing before,
  all that is sent is the answer to the request, because a successful reconnect has put the session
  into the lobby.
\<close>
theorem reconnect_without_snapshot:
  assumes "message_id f = 5001" and "Parse_ReconnectRequest cdc (payload f) = (True, sid)"
    and "MessageRouter_dispatch cdc env GameServer_registerHandlers inp c f gs st = Inr ((out, gs'), st')"
  shows "\<exists>err msg. GameServer_sendResponse c 5002 (SerializeToString cdc (ReconnectResponse err msg)) gs' = Inr out"
proof -
  have "handle_reconnect cdc env inp c f gs st = Inr ((out, gs'), st')"
    using assms(1,3) by (simp add: MessageRouter_dispatch_def router_lookup)
  from handle_reconnect_result [OF this assms(2)] show ?thesis by blast
qed

text \<open>
  C21. The last player to get ready starts the battle for everybody: when the room is then all ready, the
  handler returns, the battle is registered on the worker the room's id selects, every player of the
  room with a session is in the battle, and exactly the players with a session and a live
  connection are told, on the loop of their connection.
\<close>
theorem last_ready_starts_battle:
  assumes "server_inv gs" and "healthy env" and "pools_ready st"
    and "SessionManager_getByConn c (gs_sessions gs) = Some s" and "current_room s \<noteq> 0"
    and "RoomManager_getRoom (current_room s) (gs_rooms gs) = Some r" and "room_ident r = current_room s"
    and "Room_allReady (Room_playerReady (sess_player s) r)"
    and "fits cdc (BattleStartNotify (current_room s) 0)" and "message_id f = 3003"
  shows "\<exists>out gs' st' data. MessageRouter_dispatch cdc env GameServer_registerHandlers inp c f gs st = Inr ((out, gs'), st') \<and>
     uget (room_to_worker (gs_battle gs')) (current_room s) = Some (unat (current_room s) mod 2) \<and>
     (\<forall>p \<in> set (ukeys (room_players r)). \<forall>s'. SessionManager_getByPlayer p (gs_sessions gs') = Some s' \<longrightarrow> sess_state s' = S_IN_BATTLE) \<and>
     FrameCodec_encode 3004 0 0 (SerializeToString cdc (BattleStartNotify (current_room s) 0)) = Inr data \<and>
     set out = {(l, sess_conn s', data) | p s' l. p \<in> set (ukeys (room_players r)) \<and>
        SessionManager_getByPlayer p (gs_sessions gs') = Some s' \<and> uget (conn_to_loop gs) (sess_conn s') = Some l}"
proof -
  define r1 where "r1 = Room_playerReady (sess_player s) r"
  have inv: "session_inv (gs_sessions gs)" "rooms_open (gs_rooms gs)" "bm_inv 2 (gs_battle gs)"
    using assms(1) by (simp_all add: server_inv_def)
  have "open_room r1" using inv(2) assms(6) by (auto simp: rooms_open_def r1_def intro: open_playerReady)
  then have sb: "Room_startBattle r1 = r1" by (rule open_startBattle)
  have r1: "room_ident r1 = current_room s" "ukeys (room_players r1) = ukeys (room_players r)"
    using assms(7) by (auto simp: r1_def Room_playerReady_def uput_keys split: option.splits)
  have workers: "bm_workers (gs_battle gs) \<noteq> []" "\<forall>w \<in> set (bm_workers (gs_battle gs)). 0 \<le> lw_id w \<and> lw_id w < 16"
    and two: "length (bm_workers (gs_battle gs)) = 2"
    using inv(3) by (auto simp: bm_inv_def tracked_def in_set_conv_nth)
  obtain bm' sm' st' where start: "BattleManager_startBattle env (in_clk inp) r1 (gs_battle gs) (gs_sessions gs) st = Inr ((bm', sm'), st')"
    "uget (room_to_worker bm') (current_room s) = Some (unat (current_room s) mod 2)"
    "\<forall>p. SessionManager_getByPlayer p sm' = (if p \<in> set (ukeys (room_players r))
        then map_option (\<lambda>s. s\<lparr>sess_state := S_IN_BATTLE\<rparr>) (SessionManager_getByPlayer p (gs_sessions gs))
        else SessionManager_getByPlayer p (gs_sessions gs))"
    using startBattle_spec [OF assms(2,3) inv(1) workers, of "in_clk inp" r1] unfolding r1 two by blast
  obtain data where data: "FrameCodec_encode 3004 0 0 (SerializeToString cdc (BattleStartNotify (current_room s) 0)) = Inr data"
    "\<And>c gs. GameServer_sendResponse c 3004 (SerializeToString cdc (BattleStartNotify (current_room s) 0)) gs =
       Inr (case uget (conn_to_loop gs) c of None \<Rightarrow> [] | Some l \<Rightarrow> [(l, c, data)])"
    using sendResponse_fits [OF assms(9)] by metis
  define gs' where "gs' = gs\<lparr>gs_rooms := RoomManager_update (current_room s) (\<lambda>_. r1) (gs_rooms gs), gs_battle := bm', gs_sessions := sm'\<rparr>"
  obtain out where out: "send_players (map (\<lambda>(pid, info). (pid, 3004, SerializeToString cdc (BattleStartNotify (current_room s) 0))) (room_players r1)) gs' = Inr out"
    "set out = {(l, sess_conn s', data) | p s' l. p \<in> set (ukeys (room_players r)) \<and>
        SessionManager_getByPlayer p (gs_sessions gs') = Some s' \<and> uget (conn_to_loop gs') (sess_conn s') = Some l}"
    using send_players_all [OF data(2), of "room_players r1" gs'] unfolding r1 by blast
  have "MessageRouter_dispatch cdc env GameServer_registerHandlers inp c f gs st = Inr ((out, gs'), st')"
    using assms(4-6,8,10) start(1) out(1) sb r1(1)
    by (simp add: MessageRouter_dispatch_def router_lookup handle_playerReady_def r1_def [symmetric] Let_def gs'_def [symmetric])
  moreover have "conn_to_loop gs' = conn_to_loop gs" "gs_battle gs' = bm'" "gs_sessions gs' = sm'" by (simp_all add: gs'_def)
  ultimately show ?thesis using start(2,3) data(1) out(2) by auto
qed

text \<open>
  C35. A player who loses the connection while waiting for the battle cannot come back. The start of
  the battle sets the session of every player of the room to \<open>IN_BATTLE\<close>, also a disconnected one,
  and a reconnection to that session is then refused with 20003, at any time and from any connection.
\<close>

theorem battle_start_blocks_reconnect:
  assumes "healthy env" and "pools_ready st" and "session_inv sm"
    and "bm_workers bm \<noteq> []" and "\<forall>w \<in> set (bm_workers bm). 0 \<le> lw_id w \<and> lw_id w < 16"
    and "p \<in> set (ukeys (room_players r))" and "SessionManager_getByPlayer p sm = Some s" and "sess_state s = S_DISCONNECTED"
  shows "\<exists>bm' sm' st'. BattleManager_startBattle env clk r bm sm st = Inr ((bm', sm'), st') \<and>
    (\<forall>now now' c. SessionManager_tryReconnect env now now' (session_ident s) c sm' =
       io_return (LoginResult_default\<lparr>error_code := 20003, error_msg := ''Session not in disconnected state''\<rparr>, sm'))"
proof -
  obtain bm' sm' st' where start: "BattleManager_startBattle env clk r bm sm st = Inr ((bm', sm'), st')"
    and all: "\<forall>p. SessionManager_getByPlayer p sm' =
        (if p \<in> set (ukeys (room_players r)) then map_option (\<lambda>s. s\<lparr>sess_state := S_IN_BATTLE\<rparr>) (SessionManager_getByPlayer p sm)
         else SessionManager_getByPlayer p sm)"
    using startBattle_spec [OF assms(1-5), of clk r] by blast
  have p: "SessionManager_getByPlayer p sm' = Some (s\<lparr>sess_state := S_IN_BATTLE\<rparr>)"
    using assms(6,7) by (simp only: all if_True option.map)
  have "session_inv sm'" by (rule startBattle_sessions [OF assms(3) start])
  from getByPlayerD(2) [OF this p] have "uget (sessions sm') (session_ident s) = Some (s\<lparr>sess_state := S_IN_BATTLE\<rparr>)" by simp
  with start show ?thesis by (auto simp: SessionManager_tryReconnect_def)
qed

section \<open>Examples\<close>

text \<open>A server with one player, in the room 1 whose battle is on the second worker.\<close>

definition fighter :: session where
  "fighter = (new_session 101 5 3 alice)\<lparr>sess_state := S_IN_BATTLE, current_room := 1\<rparr>"

definition duel_room :: room where
  "duel_room = snd (Room_addPlayer 7 ''alice'' (Room_new 1 2))"

definition duel_battle :: battle_manager where
  "duel_battle = (BattleManager_new 2)\<lparr>bm_workers := [LogicWorker_new 0, LogicWorker_addRoom 1 [] (LogicWorker_new 1)],
     room_to_worker := [(1, 1)], thread_flags := [1]\<rparr>"

definition duel_server :: game_server where
  "duel_server = (GameServer_initBusiness GameConfig_default)\<lparr>gs_sessions := one_session fighter,
     gs_rooms := \<lparr>rooms = [(1, duel_room)], next_room_id = 2\<rparr>, gs_battle := duel_battle, conn_to_loop := [(3, 0)]\<rparr>"

definition frame_with :: "u32 \<Rightarrow> bytes \<Rightarrow> frame" where
  "frame_with m pl = \<lparr>total_length = 0, message_id = m, flags = 0, sequence = 4, payload = pl\<rparr>"

definition example_input :: gs_input where
  "example_input = \<lparr>in_sid = 200, in_now = 9, in_now' = 9, in_server_ms = 1, in_clk = (\<lambda>_ _. 0)\<rparr>"

lemma fighter_bound: "SessionManager_getByConn 3 (gs_sessions duel_server) = Some fighter"
  by (simp add: duel_server_def one_session_def bind_session_def fighter_def new_session_def SessionManager_new_def
      SessionManager_getByConn_def)

lemma one_session_inv: "session_inv (one_session s)"
  unfolding one_session_def by (rule inv_bind) (simp_all, simp_all add: SessionManager_new_def)

lemma duel_server_inv: "server_inv duel_server"
proof -
  have "session_inv (one_session fighter)" by (rule one_session_inv)
  moreover have "open_room duel_room"
    by (simp add: duel_room_def Room_addPlayer_def Room_new_def Room_isFull_def Room_playerCount_def open_room_def Let_def)
  moreover have "bm_inv 2 duel_battle"
    by (auto simp: bm_inv_def tracked_def duel_battle_def less_2_cases_iff LogicWorker_addRoom_def push_op_def room_keys_def
        LogicWorker_new_def worker_inv_def battle_inv_def tally_def umap_ok_def split: if_splits)
  ultimately show ?thesis
    by (simp add: server_inv_def duel_server_def rooms_open_def RoomManager_getRoom_def)
qed

theorem unauthenticated_no_effect_witness:
  "\<exists>out. MessageRouter_dispatch example_codec example_env GameServer_registerHandlers example_input 8 (frame_with 2001 [])
       (duel_server\<lparr>conn_to_loop := [(8, 1)]\<rparr>) example_store = Inr ((out, duel_server\<lparr>conn_to_loop := [(8, 1)]\<rparr>), example_store) \<and>
     length out = 1 \<and> (\<forall>w \<in> set out. fst (snd w) = 8)"
proof -
  let ?gs = "duel_server\<lparr>conn_to_loop := [(8, 1)]\<rparr>"
  let ?dispatch = "MessageRouter_dispatch example_codec example_env GameServer_registerHandlers example_input 8 (frame_with 2001 []) ?gs example_store"
  have none: "SessionManager_getByConn 8 (gs_sessions ?gs) = None"
    by (simp add: duel_server_def one_session_def bind_session_def fighter_def new_session_def SessionManager_new_def
        SessionManager_getByConn_def)
  obtain out gs' st' where run: "?dispatch = Inr ((out, gs'), st')" "length out = 1"
    by (simp add: MessageRouter_dispatch_def router_lookup frame_with_def handle_matchStart_def none [simplified] reply_def
        GameServer_sendResponse_def FrameCodec_encode_def example_codec_def kMaxPayload_def Let_def)
  have m: "message_id (frame_with 2001 []) \<noteq> 1001" "message_id (frame_with 2001 []) \<noteq> 5001" by (simp_all add: frame_with_def)
  from unauthenticated_no_effect [OF none m run(1)] run show ?thesis by blast
qed

theorem commands_authenticated_witness:
  "\<exists>out gs' st'.
     MessageRouter_dispatch example_codec example_env GameServer_registerHandlers example_input 3 (frame_with 4002 [8]) duel_server example_store =
       Inr ((out, gs'), st') \<and>
     queues gs' = [[], [(Command_default ATTACK 7)\<lparr>cmd_sequence := 4, target_id := 8\<rparr>]] \<and>
     (queues gs' = queues duel_server \<or>
      (\<exists>s cmd i. SessionManager_getByConn 3 (gs_sessions duel_server) = Some s \<and> cmd_player_id cmd = sess_player s \<and>
         queues gs' = (queues duel_server)[i := queues duel_server ! i @ [cmd]]))"
proof -
  let ?cmd = "(Command_default ATTACK 7)\<lparr>cmd_sequence := 4, target_id := 8\<rparr>"
  let ?gs = "duel_server\<lparr>gs_battle := BattleManager_dispatchCommand 1 ?cmd duel_battle\<rparr>"
  have run: "MessageRouter_dispatch example_codec example_env GameServer_registerHandlers example_input 3 (frame_with 4002 [8]) duel_server example_store =
     Inr (([], ?gs), example_store)"
    by (simp add: MessageRouter_dispatch_def router_lookup frame_with_def dispatch_command_def fighter_bound attack_command_def
        example_codec_def first_byte_def fighter_def new_session_def alice_def)
       (simp add: duel_server_def)
  have "queues ?gs = [[], [?cmd]]"
    by (simp add: queues_def BattleManager_dispatchCommand_def duel_battle_def LogicWorker_pushCommand_def CommandQueue_push_def
        LogicWorker_addRoom_def push_op_def LogicWorker_new_def CommandQueue_new_def)
  with commands_authenticated [OF duel_server_inv run] run show ?thesis by blast
qed

theorem disconnect_never_reaches_battle_witness:
  "\<exists>gs' st'. GameServer_onDisconnect example_env 9 3 duel_server example_store = Inr (([], gs'), st') \<and>
     gs_battle gs' = duel_battle \<and>
     SessionManager_getByConn 3 (gs_sessions gs') = Some (fighter\<lparr>sess_state := S_DISCONNECTED, last_active := 9\<rparr>)"
proof -
  have "sess_state fighter = S_IN_BATTLE" "current_room fighter \<noteq> 0" "gs_battle duel_server = duel_battle"
    by (simp_all add: fighter_def duel_server_def)
  with disconnect_never_reaches_battle [OF example_healthy example_pools fighter_bound this(1,2), of 9] show ?thesis by simp
qed

theorem last_ready_starts_battle_witness:
  "\<exists>out gs' st'. MessageRouter_dispatch example_codec example_env GameServer_registerHandlers example_input 3 (frame_with 3003 []) duel_server example_store =
     Inr ((out, gs'), st') \<and> uget (room_to_worker (gs_battle gs')) 1 = Some 1"
proof -
  have room: "RoomManager_getRoom (current_room fighter) (gs_rooms duel_server) = Some duel_room" "current_room fighter = 1" "current_room fighter \<noteq> 0"
    "room_ident duel_room = current_room fighter" "Room_allReady (Room_playerReady (sess_player fighter) duel_room)"
    by (simp_all add: fighter_def duel_server_def RoomManager_getRoom_def duel_room_def Room_addPlayer_def Room_new_def Room_isFull_def
        Room_playerCount_def Room_playerReady_def Room_allReady_def new_session_def alice_def Let_def)
  have fits: "fits example_codec (BattleStartNotify (current_room fighter) 0)"
    by (simp add: fits_def example_codec_def kMaxPayload_def)
  have m: "message_id (frame_with 3003 []) = 3003" by (simp add: frame_with_def)
  have one: "unat (1 :: room_id) mod 2 = 1" by simp
  show ?thesis
    using last_ready_starts_battle [OF duel_server_inv example_healthy example_pools fighter_bound room(3,1,4,5) fits m, of example_input]
    unfolding room(2) one by blast
qed

theorem battle_start_blocks_reconnect_witness:
  "\<exists>bm' sm' st'. BattleManager_startBattle example_env (\<lambda>_ _. 0) duel_room (BattleManager_new 2)
       (one_session (fighter\<lparr>sess_state := S_DISCONNECTED\<rparr>)) example_store = Inr ((bm', sm'), st') \<and>
     SessionManager_tryReconnect example_env 9 9 101 4 sm' =
       io_return (LoginResult_default\<lparr>error_code := 20003, error_msg := ''Session not in disconnected state''\<rparr>, sm')"
proof -
  let ?s = "fighter\<lparr>sess_state := S_DISCONNECTED\<rparr>"
  have workers: "bm_workers (BattleManager_new 2) \<noteq> []" "\<forall>w \<in> set (bm_workers (BattleManager_new 2)). 0 \<le> lw_id w \<and> lw_id w < 16"
    by (auto simp: BattleManager_new_def LogicWorker_new_def)
  have room: "7 \<in> set (ukeys (room_players duel_room))"
    by (simp add: duel_room_def Room_addPlayer_def Room_new_def Room_isFull_def Room_playerCount_def Let_def)
  have s: "SessionManager_getByPlayer 7 (one_session ?s) = Some ?s" "sess_state ?s = S_DISCONNECTED" "session_ident ?s = 101"
    by (simp_all add: one_session_def bind_session_def fighter_def new_session_def alice_def SessionManager_new_def SessionManager_getByPlayer_def)
  show ?thesis
    using battle_start_blocks_reconnect [OF example_healthy example_pools one_session_inv workers room s(1,2), of "\<lambda>_ _. 0"]
    unfolding s(3) by blast
qed


lemma handle_reconnect_returns:
  assumes "healthy env" and "pools_ready st" and "\<And>err msg. fits cdc (ReconnectResponse err msg)"
  shows "\<exists>out gs' st'. handle_reconnect cdc env inp c f gs st = Inr ((out, gs'), st')"
proof -
  obtain ok sid where p: "Parse_ReconnectRequest cdc (payload f) = (ok, sid)" by fastforce
  obtain x st1 where "SessionManager_tryReconnect env (in_now inp) (in_now' inp) sid c (gs_sessions gs) st = Inr (x, st1)"
    using returnsD [OF tryReconnect_total [OF assms(1)] assms(2)] by metis
  moreover obtain res sm1 where "x = (res, sm1)" by (cases x)
  ultimately have t: "SessionManager_tryReconnect env (in_now inp) (in_now' inp) sid c (gs_sessions gs) st = Inr ((res, sm1), st1)" by simp
  obtain data where "\<And>c gs. GameServer_sendResponse c 5002 (SerializeToString cdc (ReconnectResponse (error_code res) (error_msg res))) gs =
       Inr (case uget (conn_to_loop gs) c of None \<Rightarrow> [] | Some l \<Rightarrow> [(l, c, data)])"
    using sendResponse_fits [OF assms(3)] by metis
  with p t tryReconnect_lobby [OF t] show ?thesis
    by (cases "error_code res = 0") (auto simp: handle_reconnect_def Let_def reply_def)
qed

theorem reconnect_without_snapshot_witness:
  "\<exists>out gs' st' err msg.
     MessageRouter_dispatch example_codec example_env GameServer_registerHandlers example_input 4 (frame_with 5001 [101])
       (duel_server\<lparr>gs_sessions := one_session (fighter\<lparr>sess_state := S_DISCONNECTED\<rparr>)\<rparr>) example_store = Inr ((out, gs'), st') \<and>
     GameServer_sendResponse 4 5002 (SerializeToString example_codec (ReconnectResponse err msg)) gs' = Inr out"
proof -
  let ?gs = "duel_server\<lparr>gs_sessions := one_session (fighter\<lparr>sess_state := S_DISCONNECTED\<rparr>)\<rparr>"
  have m: "message_id (frame_with 5001 [101]) = 5001" "Parse_ReconnectRequest example_codec (payload (frame_with 5001 [101])) = (True, 101)"
    by (simp_all add: frame_with_def example_codec_def first_byte_def)
  have "fits example_codec (ReconnectResponse err msg)" for err msg
    by (simp add: fits_def example_codec_def kMaxPayload_def)
  from handle_reconnect_returns [OF example_healthy example_pools this, of example_input 4 "frame_with 5001 [101]" ?gs]
  obtain out gs' st' where "MessageRouter_dispatch example_codec example_env GameServer_registerHandlers example_input 4
      (frame_with 5001 [101]) ?gs example_store = Inr ((out, gs'), st')"
    by (auto simp: MessageRouter_dispatch_def router_lookup m)
  from this reconnect_without_snapshot [OF m this] show ?thesis by blast
qed

text \<open>A queue of players who have all left gives an empty room.\<close>

lemma fill_room_nobody:
  assumes "match_server env lst" and "\<And>p. SessionManager_getByPlayer p sm = None"
  shows "waiting lst mode st (qs @ rest) \<Longrightarrow>
     \<exists>st'. fill_room cdc env mm mode rid (length qs) rm sm st = Inr (([], rm, sm), st') \<and> waiting lst mode st' rest"
proof (induction qs arbitrary: st)
  case (Cons q qs)
  have "list_server env lst" using assms(1) by (simp add: match_server_def)
  then obtain st1 where "RedisClient_popMatchQueue env mode 0 st = Inr (Some q, st1)" "waiting lst mode st1 (qs @ rest)"
    using pop_waiting [of env lst mode st q "qs @ rest" 0] Cons.prems by auto
  with Cons.IH assms(2) show ?case by fastforce
qed simp

theorem rooms_never_running_witness:
  "\<exists>r. RoomManager_getRoom 1 (gs_rooms (fst (run_events (server_step example_codec example_env)
          (GameServer_initBusiness (GameConfig_default\<lparr>cfg_match_room_size := 2\<rparr>), waiting_store [5, 3]) [SE_Timer 4]))) = Some r \<and>
     (room_state r = R_CREATED \<or> room_state r = R_WAITING_PLAYERS)"
proof -
  let ?gs = "GameServer_initBusiness (GameConfig_default\<lparr>cfg_match_room_size := 2\<rparr>)"
  let ?mm = "gs_matcher ?gs" and ?rm = "RoomManager_new" and ?sm = "gs_sessions ?gs"
  let ?rm1 = "snd (RoomManager_createRoom 2 ?rm)"
  have list: "list_server example_env (\<lambda>w. w)" using example_match_server by (simp add: match_server_def)
  have nobody: "SessionManager_getByPlayer p ?sm = None" for p
    by (simp add: GameServer_initBusiness_def SessionManager_setSendCallback_def SessionManager_new_def SessionManager_getByPlayer_def)
  have mm: "match_room_size ?mm = 2" by (simp add: GameServer_initBusiness_def MatchManager_new_def MatchManager_setNotifyCallback_def)
  obtain st1 where 1: "RedisClient_matchQueueSize example_env 0 (waiting_store [5, 3]) = Inr (2, st1)" "waiting (\<lambda>w. w) 0 st1 [5, 3]"
    using size_waiting [OF list waiting_store_waiting, of "[5, 3]"] by auto
  have two: "length [5 :: player_id, 3] = 2" by simp
  obtain st2 where 2: "fill_room example_codec example_env ?mm 0 1 2 ?rm1 ?sm st1 = Inr (([], ?rm1, ?sm), st2)" "waiting (\<lambda>w. w) 0 st2 []"
    using fill_room_nobody [OF example_match_server nobody, where qs = "[5, 3]" and rest = "[]", unfolded append_Nil2 two] 1(2) by blast
  obtain st3 where 3: "RedisClient_matchQueueSize example_env 0 st2 = Inr (0, st3)"
    using size_waiting [OF list 2(2)] by auto
  have "form_room example_codec example_env ?mm 0 ?rm ?sm st1 = Inr (([], ?rm1, ?sm), st2)"
    using 2(1) by (simp add: form_room_def mm case_prod_beta) (simp add: RoomManager_createRoom_def RoomManager_new_def Let_def)
  then have "MatchManager_tryMatch example_codec example_env ?mm 0 ?rm ?sm (waiting_store [5, 3]) = Some (Inr ((1, [], ?rm1, ?sm), st3))"
    unfolding MatchManager_tryMatch_def using 1(1) 3 by (subst match_loop.simps, subst match_loop.simps) (simp add: mm)
  then have "\<exists>st'. server_step example_codec example_env (?gs, waiting_store [5, 3]) (SE_Timer 4) = (?gs\<lparr>gs_rooms := ?rm1\<rparr>, st')"
    by (simp add: GameServer_initBusiness_def SessionManager_setSendCallback_def SessionManager_new_def GameServer_timerPass_def
        continue_with_def SessionManager_cleanupExpired_def)
  then obtain r where r: "RoomManager_getRoom 1 (gs_rooms (fst (run_events (server_step example_codec example_env)
          (?gs, waiting_store [5, 3]) [SE_Timer 4]))) = Some r"
    by (auto simp: RoomManager_getRoom_def RoomManager_createRoom_def RoomManager_new_def Let_def)
  have adm: "admitted (server_step example_codec example_env) server_event_ok (?gs, waiting_store [5, 3]) [SE_Timer 4]"
    by (simp only: admitted.simps server_event_ok.simps simp_thms)
  from rooms_never_running [OF adm r] r show ?thesis by blast
qed

end
