(* ===== verification/Event_Loop.thy ===== *)
theory Event_Loop
  imports Connection Timer_Wheel
begin

text \<open>
  \<open>src/src/network/event_loop.{h,cpp}\<close>: the I/O thread that owns connections. Other threads only append to its two queues. The kernel is an argument: which events
  \<open>epoll_wait\<close> reports, what \<open>read\<close> and \<open>write\<close> answer, and whether a descriptor can be registered. The
  interest list that \<open>epoll_ctl\<close> changes is kept as a table from descriptors to the flags for writing
  and for edge triggering. Callbacks into the game server are outputs; what they do to the loop is
  appending to its queue of writes, which an iteration does not look at again.
\<close>

section \<open>State\<close>

record event_loop =
  pending_conns :: "connection list"
  pending_writes :: "(conn_id \<times> bytes) list"
  el_conns :: "(conn_id, connection) umap"
  fd_to_id :: "(int, conn_id) umap"
  el_wheel :: "unit timer_wheel"
  interest :: "(int, bool \<times> bool) umap"
  el_frame_cb :: bool
  el_disconnect_cb :: bool
  heartbeat_ms :: u64
  timeout_ms :: u64
  el_running :: bool

definition kHeartbeatIntervalMs :: u64 where "kHeartbeatIntervalMs = 5000"
definition kConnectionTimeoutMs :: u64 where "kConnectionTimeoutMs = 15000"

definition EventLoop_new :: event_loop where
  "EventLoop_new =
     \<lparr>pending_conns = [], pending_writes = [], el_conns = [], fd_to_id = [], el_wheel = TimerWheel_new, interest = [],
      el_frame_cb = False, el_disconnect_cb = False, heartbeat_ms = kHeartbeatIntervalMs, timeout_ms = kConnectionTimeoutMs,
      el_running = False\<rparr>"

datatype loop_out = Frames conn_id "frame list" | Disconnected conn_id

section \<open>Operations of other threads\<close>

definition EventLoop_addConnection :: "connection \<Rightarrow> event_loop \<Rightarrow> event_loop" where
  "EventLoop_addConnection c el = el\<lparr>pending_conns := pending_conns el @ [c]\<rparr>"

definition EventLoop_sendToConnection :: "conn_id \<Rightarrow> bytes \<Rightarrow> event_loop \<Rightarrow> event_loop" where
  "EventLoop_sendToConnection i data el = el\<lparr>pending_writes := pending_writes el @ [(i, data)]\<rparr>"

definition EventLoop_stop :: "event_loop \<Rightarrow> event_loop" where
  "EventLoop_stop el = el\<lparr>el_running := False\<rparr>"

definition EventLoop_connectionCount :: "event_loop \<Rightarrow> nat" where
  "EventLoop_connectionCount el = length (el_conns el)"

definition EventLoop_setFrameCallback :: "bool \<Rightarrow> event_loop \<Rightarrow> event_loop" where
  "EventLoop_setFrameCallback cb el = el\<lparr>el_frame_cb := cb\<rparr>"

definition EventLoop_setDisconnectCallback :: "bool \<Rightarrow> event_loop \<Rightarrow> event_loop" where
  "EventLoop_setDisconnectCallback cb el = el\<lparr>el_disconnect_cb := cb\<rparr>"

definition EventLoop_setHeartbeatInterval :: "u64 \<Rightarrow> event_loop \<Rightarrow> event_loop" where
  "EventLoop_setHeartbeatInterval ms el = el\<lparr>heartbeat_ms := ms\<rparr>"

definition EventLoop_setTimeout :: "u64 \<Rightarrow> event_loop \<Rightarrow> event_loop" where
  "EventLoop_setTimeout ms el = el\<lparr>timeout_ms := ms\<rparr>"

section \<open>Connections and interest\<close>

text \<open>\<open>EPOLL_CTL_MOD\<close> changes the entry of a registered descriptor and fails, unnoticed, otherwise.\<close>

definition epoll_mod :: "int \<Rightarrow> bool \<times> bool \<Rightarrow> event_loop \<Rightarrow> event_loop" where
  "epoll_mod fd ev el = (if uget (interest el) fd = None then el else el\<lparr>interest := uput fd ev (interest el)\<rparr>)"

definition with_conn :: "conn_id \<Rightarrow> (connection \<Rightarrow> event_loop \<Rightarrow> event_loop) \<Rightarrow> event_loop \<Rightarrow> event_loop" where
  "with_conn i f el = (case uget (el_conns el) i of None \<Rightarrow> el | Some c \<Rightarrow> f c el)"

definition EventLoop_enableRead :: "conn_id \<Rightarrow> event_loop \<Rightarrow> event_loop" where
  "EventLoop_enableRead i = with_conn i (\<lambda>c. epoll_mod (conn_fd c) (False, True))"

definition EventLoop_enableWrite :: "conn_id \<Rightarrow> event_loop \<Rightarrow> event_loop" where
  "EventLoop_enableWrite i = with_conn i (\<lambda>c. epoll_mod (conn_fd c) (True, True))"

definition EventLoop_disableWrite :: "conn_id \<Rightarrow> event_loop \<Rightarrow> event_loop" where
  "EventLoop_disableWrite i = with_conn i (\<lambda>c. epoll_mod (conn_fd c) (False, True))"

definition put_conn :: "conn_id \<Rightarrow> connection \<Rightarrow> event_loop \<Rightarrow> event_loop" where
  "put_conn i c el = el\<lparr>el_conns := uput i c (el_conns el)\<rparr>"

definition EventLoop_closeConnection :: "conn_id \<Rightarrow> event_loop \<Rightarrow> event_loop" where
  "EventLoop_closeConnection i =
     with_conn i (\<lambda>c el. (put_conn i (Connection_close c) el)\<lparr>el_wheel := TimerWheel_remove i (el_wheel el)\<rparr>)"

text \<open>A descriptor that cannot be registered drops the connection without a word to the server.\<close>

definition EventLoop_addConnectionImpl :: "bool \<Rightarrow> connection \<Rightarrow> event_loop \<Rightarrow> event_loop" where
  "EventLoop_addConnectionImpl registered c el =
     (if \<not> registered then el
      else el\<lparr>interest := uput (conn_fd c) (False, False) (interest el),
              fd_to_id := uput (conn_fd c) (conn_ident c) (fd_to_id el),
              el_wheel := TimerWheel_add (conn_ident c) (heartbeat_ms el) (Some ()) (el_wheel el),
              el_conns := uput (conn_ident c) c (el_conns el)\<rparr>)"

section \<open>Draining the queues\<close>

definition take_conn :: "(int \<Rightarrow> bool) \<Rightarrow> event_loop \<Rightarrow> event_loop" where
  "take_conn reg el =
     (case pending_conns el of
        [] \<Rightarrow> el
      | c # cs \<Rightarrow> EventLoop_addConnectionImpl (reg (conn_fd c)) c (el\<lparr>pending_conns := cs\<rparr>))"

lemma addConnectionImpl_pending [simp]: "pending_conns (EventLoop_addConnectionImpl r c el) = pending_conns el"
  by (simp add: EventLoop_addConnectionImpl_def)

function EventLoop_drainPending :: "(int \<Rightarrow> bool) \<Rightarrow> event_loop \<Rightarrow> event_loop" where
  "EventLoop_drainPending reg el = (if pending_conns el = [] then el else EventLoop_drainPending reg (take_conn reg el))"
  by auto
termination
  by (relation "measure (\<lambda>(reg, el). length (pending_conns el))") (auto simp: take_conn_def split: list.splits)

declare EventLoop_drainPending.simps [simp del]

definition take_write :: "event_loop \<Rightarrow> event_loop" where
  "take_write el =
     (case pending_writes el of
        [] \<Rightarrow> el
      | (i, data) # ws \<Rightarrow>
          with_conn i (\<lambda>c el. EventLoop_enableWrite i (put_conn i (Connection_sendRaw data c) el)) (el\<lparr>pending_writes := ws\<rparr>))"

lemma loop_ops_queues [simp]:
  "pending_writes (epoll_mod fd ev el) = pending_writes el" "pending_conns (epoll_mod fd ev el) = pending_conns el"
  "el_conns (epoll_mod fd ev el) = el_conns el" "fd_to_id (epoll_mod fd ev el) = fd_to_id el"
  "el_wheel (epoll_mod fd ev el) = el_wheel el"
  "pending_writes (put_conn i c el) = pending_writes el" "pending_conns (put_conn i c el) = pending_conns el"
  "el_conns (put_conn i c el) = uput i c (el_conns el)" "fd_to_id (put_conn i c el) = fd_to_id el"
  "el_wheel (put_conn i c el) = el_wheel el"
  by (simp_all add: epoll_mod_def put_conn_def)

lemma write_interest_queues [simp]:
  "pending_writes (EventLoop_enableWrite i el) = pending_writes el" "pending_conns (EventLoop_enableWrite i el) = pending_conns el"
  "el_conns (EventLoop_enableWrite i el) = el_conns el" "fd_to_id (EventLoop_enableWrite i el) = fd_to_id el"
  "el_wheel (EventLoop_enableWrite i el) = el_wheel el"
  "pending_writes (EventLoop_disableWrite i el) = pending_writes el" "pending_conns (EventLoop_disableWrite i el) = pending_conns el"
  "el_conns (EventLoop_disableWrite i el) = el_conns el" "fd_to_id (EventLoop_disableWrite i el) = fd_to_id el"
  "el_wheel (EventLoop_disableWrite i el) = el_wheel el"
  by (simp_all add: EventLoop_enableWrite_def EventLoop_disableWrite_def with_conn_def split: option.splits)

function EventLoop_drainPendingWrites :: "event_loop \<Rightarrow> event_loop" where
  "EventLoop_drainPendingWrites el = (if pending_writes el = [] then el else EventLoop_drainPendingWrites (take_write el))"
  by auto
termination
  by (relation "measure (\<lambda>el. length (pending_writes el))") (auto simp: take_write_def with_conn_def split: list.splits option.splits)

declare EventLoop_drainPendingWrites.simps [simp del]

section \<open>Events\<close>

text \<open>
  One reported event: the descriptor, whether it is readable (or has an error or hang-up), whether it is
  writable, and the kernel's answers to the calls it leads to.
\<close>

record epoll_ev =
  ev_fd :: int
  ev_in :: bool
  ev_out :: bool
  ev_now :: u64
  ev_read :: sys_read
  ev_write :: sys_write

definition on_readable :: "epoll_ev \<Rightarrow> conn_id \<Rightarrow> connection \<Rightarrow> event_loop \<Rightarrow> loop_out list \<times> event_loop" where
  "on_readable e i c el =
     (let (c1, frames) = Connection_onReadable (ev_now e) (ev_read e) c;
          el1 = put_conn i c1 el;
          (out, el2) = (if conn_state c1 = C_CLOSING then ([], EventLoop_closeConnection i el1)
                        else if frames \<noteq> [] \<and> el_frame_cb el then ([Frames i frames], el1)
                        else ([], el1))
      in (out, el2\<lparr>el_wheel := TimerWheel_refresh i (heartbeat_ms el2) (el_wheel el2)\<rparr>))"

definition on_writable :: "epoll_ev \<Rightarrow> conn_id \<Rightarrow> connection \<Rightarrow> event_loop \<Rightarrow> event_loop" where
  "on_writable e i c el =
     (let c1 = Connection_onWritable (ev_write e) c;
          el1 = put_conn i c1 el;
          el2 = (if Connection_shouldCleanup c1 then EventLoop_disableWrite i el1 else el1)
      in if \<not> Connection_hasPendingWrites c1 then EventLoop_disableWrite i el2 else el2)"

definition handle_event :: "int \<Rightarrow> epoll_ev \<Rightarrow> event_loop \<Rightarrow> loop_out list \<times> event_loop" where
  "handle_event wake_fd e el =
     (if ev_fd e = wake_fd then ([], el)
      else case uget (fd_to_id el) (ev_fd e) of
        None \<Rightarrow> ([], el)
      | Some i \<Rightarrow>
          (case uget (el_conns el) i of
             None \<Rightarrow> ([], el)
           | Some c \<Rightarrow>
               let (out, el1) = (if ev_in e then on_readable e i c el else ([], el))
               in (out, if ev_out e then with_conn i (on_writable e i) el1 else el1)))"

fun EventLoop_handleEvents :: "int \<Rightarrow> epoll_ev list \<Rightarrow> event_loop \<Rightarrow> loop_out list \<times> event_loop" where
  "EventLoop_handleEvents wake_fd [] el = ([], el)"
| "EventLoop_handleEvents wake_fd (e # es) el =
     (let (out, el1) = handle_event wake_fd e el; (outs, el2) = EventLoop_handleEvents wake_fd es el1 in (out @ outs, el2))"

section \<open>Timeouts and cleanup\<close>

text \<open>The loop over the connections; closing one changes its entry in place.\<close>

fun check_loop :: "u64 \<Rightarrow> conn_id list \<Rightarrow> event_loop \<Rightarrow> event_loop" where
  "check_loop now_ms [] el = el"
| "check_loop now_ms (i # is) el =
     check_loop now_ms is
       (with_conn i (\<lambda>c el.
          if (conn_state c = C_ACTIVE \<or> conn_state c = C_CONNECTED) \<and> Connection_isTimeout now_ms (timeout_ms el) c
          then EventLoop_closeConnection (conn_ident c) el else el) el)"

definition EventLoop_checkTimeouts :: "u64 \<Rightarrow> event_loop \<Rightarrow> event_loop" where
  "EventLoop_checkTimeouts now_ms el = check_loop now_ms (ukeys (el_conns el)) el"

text \<open>The heartbeat callback, as it acts on the wheel and the table of connections.\<close>

definition heartbeat_expired :: "(unit, (conn_id, connection) umap) callback_run" where
  "heartbeat_expired cb i wx =
     (case wx of (w, cs) \<Rightarrow>
        (case uget cs i of None \<Rightarrow> (w, cs) | Some c \<Rightarrow> (TimerWheel_remove i w, uput i (Connection_close c) cs)))"

fun sweep_closed :: "(conn_id \<times> connection) list \<Rightarrow> event_loop \<Rightarrow> loop_out list \<times> event_loop" where
  "sweep_closed [] el = ([], el)"
| "sweep_closed ((i, c) # cs) el =
     (if Connection_shouldCleanup c
      then let el1 = el\<lparr>interest := uerase (conn_fd c) (interest el), fd_to_id := uerase (conn_fd c) (fd_to_id el),
                        el_conns := uerase i (el_conns el)\<rparr>;
               (outs, el2) = sweep_closed cs el1
           in ((if el_disconnect_cb el then [Disconnected (conn_ident c)] else []) @ outs, el2)
      else sweep_closed cs el)"

definition EventLoop_cleanupClosed :: "event_loop \<Rightarrow> timer_fault + loop_out list \<times> event_loop" where
  "EventLoop_cleanupClosed el =
     res_bind (TimerWheel_tick heartbeat_expired (el_wheel el, el_conns el))
       (\<lambda>(expired, w, cs). Inr (sweep_closed cs (el\<lparr>el_wheel := w, el_conns := cs\<rparr>)))"

definition EventLoop_run_iteration ::
    "int \<Rightarrow> (int \<Rightarrow> bool) \<Rightarrow> u64 \<Rightarrow> epoll_ev list \<Rightarrow> event_loop \<Rightarrow> timer_fault + loop_out list \<times> event_loop" where
  "EventLoop_run_iteration wake_fd reg now_ms evs el =
     (let (out, el1) = EventLoop_handleEvents wake_fd evs (EventLoop_drainPending reg (EventLoop_drainPendingWrites el))
      in res_bind (EventLoop_cleanupClosed (EventLoop_checkTimeouts now_ms el1)) (\<lambda>(out', el2). Inr (out @ out', el2)))"

text \<open>
  The loop of \<open>run\<close> over a list of rounds, each the calls of other threads that arrive while the loop
  waits and the answer of \<open>epoll_wait\<close>. The end of the list is the point up to which the run is observed.
\<close>

datatype thread_call = TC_Add connection | TC_Send conn_id bytes | TC_Stop

fun thread_do :: "thread_call \<Rightarrow> event_loop \<Rightarrow> event_loop" where
  "thread_do (TC_Add c) el = EventLoop_addConnection c el"
| "thread_do (TC_Send i data) el = EventLoop_sendToConnection i data el"
| "thread_do TC_Stop el = EventLoop_stop el"

datatype epoll_answer = Interrupted | Wait_failed | Reported u64 "epoll_ev list"

fun run_rounds ::
    "int \<Rightarrow> (int \<Rightarrow> bool) \<Rightarrow> (thread_call list \<times> epoll_answer) list \<Rightarrow> event_loop \<Rightarrow> timer_fault + loop_out list \<times> event_loop" where
  "run_rounds wake_fd reg [] el = Inr ([], el)"
| "run_rounds wake_fd reg ((calls, answer) # rs) el =
     (if \<not> el_running el then Inr ([], el)
      else let el1 = fold thread_do calls el
           in case answer of
                Interrupted \<Rightarrow> run_rounds wake_fd reg rs el1
              | Wait_failed \<Rightarrow> Inr ([], el1)
              | Reported now_ms evs \<Rightarrow>
                  res_bind (EventLoop_run_iteration wake_fd reg now_ms evs el1) (\<lambda>(out, el2).
                  res_bind (run_rounds wake_fd reg rs el2) (\<lambda>(outs, el3). Inr (out @ outs, el3))))"

definition EventLoop_run ::
    "int \<Rightarrow> (int \<Rightarrow> bool) \<Rightarrow> (thread_call list \<times> epoll_answer) list \<Rightarrow> event_loop \<Rightarrow> timer_fault + loop_out list \<times> event_loop" where
  "EventLoop_run wake_fd reg rs el = run_rounds wake_fd reg rs (el\<lparr>el_running := True\<rparr>)"

section \<open>A heartbeat that expires\<close>

lemma heartbeat_expired_apply:
  "heartbeat_expired cb i (w, cs) =
     (case uget cs i of None \<Rightarrow> (w, cs) | Some c \<Rightarrow> (TimerWheel_remove i w, uput i (Connection_close c) cs))"
  by (simp add: heartbeat_expired_def)

lemma erase_entry_shorter: "i \<in> te_id ` set es \<Longrightarrow> length (erase_entry i es) < length es"
  by (induction es) auto

text \<open>
  The entries still to visit belong to the current slot. The first of them whose connection is still
  in the table has its entry erased from the bucket by its own callback.
\<close>

lemma tick_loop_heartbeat:
  assumes "slots w ! current_slot w = bucket" and "current_slot w < length (slots w)" and "distinct (map te_id es)"
    and "\<And>e. e \<in> set es \<Longrightarrow> te_callback e = Some () \<and> te_id e \<in> te_id ` set bucket \<and> uget (id_to_slot w) (te_id e) = Some (current_slot w)"
  shows "tick_loop heartbeat_expired bucket es expired (w, cs) =
     (if \<exists>e \<in> set es. uget cs (te_id e) \<noteq> None then Inl Iterator_invalidated
      else Inr (expired @ map te_id es, w\<lparr>id_to_slot := fold uerase (map te_id es) (id_to_slot w)\<rparr>, cs))"
  using assms
proof (induction es arbitrary: expired w)
  case Nil
  then show ?case by simp
next
  case (Cons e es)
  note e = Cons.prems(4) [of e, simplified]
  show ?case
  proof (cases "uget cs (te_id e)")
    case None
    let ?w = "w\<lparr>id_to_slot := uerase (te_id e) (id_to_slot w)\<rparr>"
    have "tick_loop heartbeat_expired bucket es (expired @ [te_id e]) (?w, cs) =
       (if \<exists>e \<in> set es. uget cs (te_id e) \<noteq> None then Inl Iterator_invalidated
        else Inr ((expired @ [te_id e]) @ map te_id es, ?w\<lparr>id_to_slot := fold uerase (map te_id es) (id_to_slot ?w)\<rparr>, cs))"
    proof (rule Cons.IH)
      fix x assume x: "x \<in> set es"
      then have "te_id x \<noteq> te_id e" using Cons.prems(3) by (metis distinct.simps(2) image_eqI list.map(2) set_map)
      with Cons.prems(4) [of x] x
      show "te_callback x = Some () \<and> te_id x \<in> te_id ` set bucket \<and> uget (id_to_slot ?w) (te_id x) = Some (current_slot ?w)"
        by simp
    qed (use Cons.prems(1-3) in simp_all)
    with None e Cons.prems(1) show ?thesis by (simp add: heartbeat_expired_apply)
  next
    case (Some c)
    have "erase_entry (te_id e) bucket \<noteq> bucket" using erase_entry_shorter [of "te_id e" bucket] e by auto
    with Some e Cons.prems(1,2) show ?thesis by (simp add: heartbeat_expired_apply TimerWheel_remove_def)
  qed
qed

text \<open>Every timer of the loop has the heartbeat callback.\<close>

definition armed :: "unit timer_wheel \<Rightarrow> bool" where
  "armed w \<longleftrightarrow> (\<forall>s < length (slots w). \<forall>e \<in> set (slots w ! s). te_callback e = Some ())"

lemma armedD: "armed w \<Longrightarrow> s < length (slots w) \<Longrightarrow> e \<in> set (slots w ! s) \<Longrightarrow> te_callback e = Some ()"
  by (simp add: armed_def)

definition due :: "event_loop \<Rightarrow> conn_id set" where
  "due el = set (slot_ids (el_wheel el) ((current_slot (el_wheel el) + 1) mod kSlots))"

lemma tick_heartbeat:
  assumes "TimerWheel_inv w" and "armed w"
  shows "TimerWheel_tick heartbeat_expired (w, cs) =
     (if \<exists>i \<in> set (slot_ids w ((current_slot w + 1) mod kSlots)). uget cs i \<noteq> None then Inl Iterator_invalidated
      else Inr (slot_ids w ((current_slot w + 1) mod kSlots), advance w, cs))"
proof -
  let ?c = "(current_slot w + 1) mod kSlots"
  let ?w = "w\<lparr>current_slot := ?c\<rparr>"
  have c: "?c < kSlots" "length (slots w) = kSlots" using assms(1) by (simp_all add: TimerWheel_inv_def)
  have "tick_loop heartbeat_expired (slots w ! ?c) (slots w ! ?c) [] (?w, cs) =
     (if \<exists>e \<in> set (slots w ! ?c). uget cs (te_id e) \<noteq> None then Inl Iterator_invalidated
      else Inr ([] @ map te_id (slots w ! ?c), ?w\<lparr>id_to_slot := fold uerase (map te_id (slots w ! ?c)) (id_to_slot ?w)\<rparr>, cs))"
  proof (rule tick_loop_heartbeat)
    fix e assume e: "e \<in> set (slots w ! ?c)"
    then have "te_id e \<in> set (slot_ids w ?c)" by simp
    then have "uget (id_to_slot w) (te_id e) = Some ?c" using assms(1) c(1) unfolding TimerWheel_inv_def by blast
    then show "te_callback e = Some () \<and> te_id e \<in> te_id ` set (slots w ! ?c) \<and> uget (id_to_slot ?w) (te_id e) = Some (current_slot ?w)"
      using armedD [OF assms(2) _ e] c e by auto
  qed (use c assms(1) in \<open>auto simp: TimerWheel_inv_def\<close>)
  then show ?thesis
    by (auto simp: TimerWheel_tick_def Let_def advance_def)
qed

section \<open>The wheel stays armed\<close>

lemma erase_entry_subset: "set (erase_entry i es) \<subseteq> set es"
  by (induction es) auto

lemma armed_update:
  assumes "armed w" and "slots w' = (slots w)[s := b]" and "s < length (slots w) \<Longrightarrow> \<forall>e \<in> set b. te_callback e = Some ()"
  shows "armed w'"
  unfolding armed_def
proof (intro allI impI)
  fix t assume t: "t < length (slots w')"
  show "\<forall>e \<in> set (slots w' ! t). te_callback e = Some ()"
    using assms t by (cases "t = s") (auto simp: armed_def)
qed

lemma armed_remove: "armed w \<Longrightarrow> armed (TimerWheel_remove i w)"
proof (cases "uget (id_to_slot w) i")
  case None
  then show "armed w \<Longrightarrow> armed (TimerWheel_remove i w)" by (simp add: TimerWheel_remove_def)
next
  case (Some s)
  assume "armed w"
  then show "armed (TimerWheel_remove i w)"
    by (rule armed_update [where s = s and b = "erase_entry i (slots w ! s)"])
      (use Some \<open>armed w\<close> erase_entry_subset [of i "slots w ! s"] in \<open>auto simp: TimerWheel_remove_def dest: armedD\<close>)
qed

lemma armed_insert:
  assumes "armed w"
  shows "armed (insert_entry i s (Some ()) w)"
  by (rule armed_update [OF assms, where s = s and b = "slots w ! s @ [\<lparr>te_id = i, te_callback = Some ()\<rparr>]"])
    (use assms in \<open>auto simp: insert_entry_def dest: armedD\<close>)

lemma armed_add: "armed w \<Longrightarrow> armed (TimerWheel_add i t (Some ()) w)"
  by (simp add: TimerWheel_add_def Let_def armed_insert armed_remove)

lemma callback_of_found: "i \<in> te_id ` set es \<Longrightarrow> \<forall>e \<in> set es. te_callback e = Some () \<Longrightarrow> callback_of i es = Some ()"
  by (induction es) auto

lemma armed_refresh:
  assumes "TimerWheel_inv w" and "armed w"
  shows "armed (TimerWheel_refresh i t w)"
proof (cases "uget (id_to_slot w) i")
  case None
  with assms(2) show ?thesis by (simp add: TimerWheel_refresh_def)
next
  case (Some s)
  have s: "s < kSlots" "length (slots w) = kSlots" "i \<in> set (slot_ids w s)"
    using assms(1) Some unfolding TimerWheel_inv_def by blast+
  have "callback_of i (slots w ! s) = Some ()"
    by (rule callback_of_found) (use s assms(2) in \<open>auto simp: armed_def\<close>)
  with Some assms(2) show ?thesis by (simp add: refresh_as_insert armed_insert armed_remove)
qed

lemma armed_advance: "armed w \<Longrightarrow> armed (advance w)"
  by (rule armed_update [where b = "[]"]) (simp_all add: advance_def Let_def)

definition wheel_ok :: "unit timer_wheel \<Rightarrow> bool" where
  "wheel_ok w \<longleftrightarrow> TimerWheel_inv w \<and> armed w"

lemma wheel_ok_ops [simp]:
  "wheel_ok w \<Longrightarrow> wheel_ok (TimerWheel_remove i w)" "wheel_ok w \<Longrightarrow> wheel_ok (TimerWheel_add i t (Some ()) w)"
  "wheel_ok w \<Longrightarrow> wheel_ok (TimerWheel_refresh i t w)" "wheel_ok w \<Longrightarrow> wheel_ok (advance w)"
  by (simp_all add: wheel_ok_def armed_remove armed_add armed_refresh armed_advance remove_inv add_inv refresh_inv advance_inv)

section \<open>The tables agree\<close>

definition tables :: "(conn_id, connection) umap \<Rightarrow> connection list \<Rightarrow> (int, conn_id) umap \<Rightarrow> bool" where
  "tables cs ps m \<longleftrightarrow>
     (\<forall>i c. uget cs i = Some c \<longrightarrow> conn_ident c = i) \<and> distinct (ukeys cs @ map conn_ident ps) \<and>
     distinct (map (\<lambda>(i, c). conn_fd c) cs @ map conn_fd ps) \<and>
     (\<forall>fd i. uget m fd = Some i \<longleftrightarrow> (\<exists>c. uget cs i = Some c \<and> conn_fd c = fd))"

lemma uput_old_map: "uget m k = Some v \<Longrightarrow> f v' = f v \<Longrightarrow> map (\<lambda>(k, v). f v) (uput k v' m) = map (\<lambda>(k, v). f v) m"
  by (induction m) (auto split: if_splits)

lemma uput_new: "uget m k = None \<Longrightarrow> uput k v m = m @ [(k, v)]"
  by (induction m) (auto split: if_splits)

lemma tablesD:
  assumes "tables cs ps m"
  shows "uget cs i = Some c \<Longrightarrow> conn_ident c = i" and "distinct (ukeys cs @ map conn_ident ps)"
    and "distinct (map (\<lambda>(i, c). conn_fd c) cs @ map conn_fd ps)"
    and "uget m fd = Some i \<longleftrightarrow> (\<exists>c. uget cs i = Some c \<and> conn_fd c = fd)"
  using assms unfolding tables_def by blast+

lemma tables_put:
  assumes "tables cs ps m" and "uget cs i = Some c" and "conn_ident c' = conn_ident c" and "conn_fd c' = conn_fd c"
  shows "tables (uput i c' cs) ps m"
proof -
  have fds: "map (\<lambda>(i, c). conn_fd c) (uput i c' cs) = map (\<lambda>(i, c). conn_fd c) cs"
    by (rule uput_old_map [OF assms(2,4)])
  have keys: "ukeys (uput i c' cs) = ukeys cs" by (rule uput_keys) (simp add: assms(2))
  have "distinct (ukeys (uput i c' cs) @ map conn_ident ps)"
    "distinct (map (\<lambda>(i, c). conn_fd c) (uput i c' cs) @ map conn_fd ps)"
    unfolding fds keys by (rule tablesD(2,3) [OF assms(1)])+
  moreover have "uget m fd = Some j \<longleftrightarrow> (\<exists>d. uget (uput i c' cs) j = Some d \<and> conn_fd d = fd)" for fd j
    using tablesD(4) [OF assms(1), of fd j] assms(2,4) by (simp only: uget_uput) auto
  moreover have "uget (uput i c' cs) j = Some d \<Longrightarrow> conn_ident d = j" for j d
    using tablesD(1) [OF assms(1), of i c] tablesD(1) [OF assms(1), of j d] assms(2,3)
    by (cases "j = i") (simp_all only: uget_uput if_True if_False option.inject simp_thms)
  ultimately show ?thesis unfolding tables_def by blast
qed

lemma tables_add:
  assumes "tables cs (c # ps) m"
  shows "tables (uput (conn_ident c) c cs) ps (uput (conn_fd c) (conn_ident c) m)"
proof -
  note t = tablesD [OF assms]
  have new: "uget cs (conn_ident c) = None" using t(2) by (auto simp: map_of_eq_None_iff)
  have fd: "conn_fd d \<noteq> conn_fd c" if "uget cs i = Some d" for i d
    using t(3) map_of_SomeD [OF that] by force
  have "distinct (ukeys (uput (conn_ident c) c cs) @ map conn_ident ps)"
    "distinct (map (\<lambda>(i, c). conn_fd c) (uput (conn_ident c) c cs) @ map conn_fd ps)"
    using t(2,3) by (simp_all add: uput_new [OF new])
  moreover have "uget (uput (conn_ident c) c cs) i = Some d \<Longrightarrow> conn_ident d = i" for i d
    using t(1) [of i d] by (simp only: uget_uput) (auto split: if_splits)
  moreover have "uget (uput (conn_fd c) (conn_ident c) m) f = Some i \<longleftrightarrow>
      (\<exists>d. uget (uput (conn_ident c) c cs) i = Some d \<and> conn_fd d = f)" for f i
    using t(4) [of f i] fd [of i] new by (simp only: uget_uput) auto
  ultimately show ?thesis unfolding tables_def by blast
qed

lemma tables_drop: "tables cs (c # ps) m \<Longrightarrow> tables cs ps m"
  by (auto simp: tables_def)

lemma distinct_filter_append: "distinct (map f xs @ ys) \<Longrightarrow> distinct (map f (filter P xs) @ ys)"
  by (auto simp: distinct_map_filter)

lemma tables_erase:
  assumes "tables cs ps m" and "uget cs i = Some c"
  shows "tables (uerase i cs) ps (uerase (conn_fd c) m)"
proof -
  note t = tablesD [OF assms(1)]
  have owner: "uget m (conn_fd c) = Some i" using t(4) [of "conn_fd c" i] assms(2) by blast
  have "uget (uerase (conn_fd c) m) f = Some j \<longleftrightarrow> (\<exists>d. uget (uerase i cs) j = Some d \<and> conn_fd d = f)" for f j
    using t(4) [of f j] owner assms(2)
    by (cases "j = i"; cases "f = conn_fd c") (simp_all only: uget_uerase if_True if_False option.inject option.distinct simp_thms, blast+)
  moreover have "uget (uerase i cs) j = Some d \<Longrightarrow> conn_ident d = j" for j d
    using t(1) [of j d] by (simp only: uget_uerase) (auto split: if_splits)
  ultimately show ?thesis
    using distinct_filter_append [OF t(2)] distinct_filter_append [OF t(3)] unfolding tables_def
    by (intro conjI allI impI) (simp_all only: AList.delete_eq)
qed

section \<open>Every operation keeps the tables\<close>

definition el_inv :: "event_loop \<Rightarrow> bool" where
  "el_inv el \<longleftrightarrow> tables (el_conns el) (pending_conns el) (fd_to_id el) \<and> wheel_ok (el_wheel el)"

lemma new_loop_inv [simp]: "el_inv EventLoop_new"
  by (simp add: el_inv_def tables_def wheel_ok_def EventLoop_new_def armed_def TimerWheel_new_def [where 'cb = unit] del: new_wheel_inv)
     (simp add: TimerWheel_inv_def)

definition same_conn :: "connection \<Rightarrow> connection \<Rightarrow> bool" where
  "same_conn c c' \<longleftrightarrow> conn_ident c' = conn_ident c \<and> conn_fd c' = conn_fd c"

lemma decode_loop_same: "same_conn c (fst (decode_loop c frames))"
proof (induction c frames rule: decode_loop.induct)
  case (1 c frames)
  show ?case
  proof (cases "Buffer_readable (recv_buf c) \<ge> kHeaderSize")
    case False
    then show ?thesis by (subst decode_loop.simps) (simp add: same_conn_def)
  next
    case True
    obtain r b where d: "FrameCodec_decode (recv_buf c) = (r, b)" by fastforce
    show ?thesis
    proof (cases r)
      case (Inl e)
      let ?c = "Connection_recordIllegal (c\<lparr>recv_buf := b\<rparr>)"
      have "\<not> Connection_isBanned ?c \<Longrightarrow> same_conn ?c (fst (decode_loop ?c frames))"
        using "1.IH"(1) [OF True d [symmetric] Inl refl] .
      with True d Inl show ?thesis
        by (subst decode_loop.simps) (auto simp: same_conn_def Connection_recordIllegal_def Let_def)
    next
      case (Inr fo)
      then show ?thesis
      proof (cases fo)
        case None
        with True d Inr show ?thesis by (subst decode_loop.simps) (simp add: same_conn_def)
      next
        case (Some f)
        have "same_conn (c\<lparr>recv_buf := b\<rparr>) (fst (decode_loop (c\<lparr>recv_buf := b\<rparr>) (frames @ [f])))"
          using "1.IH"(2) [OF True d [symmetric] Inr Some] .
        with True d Inr Some show ?thesis by (subst decode_loop.simps) (simp add: same_conn_def)
      qed
    qed
  qed
qed

lemma conn_ops_same:
  "same_conn c (Connection_close c)" "same_conn c (Connection_sendRaw d c)" "same_conn c (Connection_onWritable wr c)"
  by (auto simp: same_conn_def Connection_close_def Connection_sendRaw_def Connection_onWritable_def Let_def case_prod_beta
      split: sum.splits)

lemma onReadable_same: "same_conn c (fst (Connection_onReadable t rd c))"
proof -
  obtain n b where f: "Buffer_readFromFd rd (recv_buf c) = (n, b)" by fastforce
  have "same_conn (Connection_updateActive t (c\<lparr>recv_buf := b\<rparr>)) (fst (decode_loop (Connection_updateActive t (c\<lparr>recv_buf := b\<rparr>)) []))"
    by (rule decode_loop_same)
  with f conn_ops_same(1) [of "c\<lparr>recv_buf := b\<rparr>"] show ?thesis
    by (auto simp: Connection_onReadable_def same_conn_def Let_def Connection_updateActive_def split: sum.splits)
qed

text \<open>What the operations change: entries of the table in place, and the wheel.\<close>

lemma put_inv: "el_inv el \<Longrightarrow> uget (el_conns el) i = Some c \<Longrightarrow> same_conn c c' \<Longrightarrow> el_inv (put_conn i c' el)"
  by (auto simp: el_inv_def same_conn_def intro: tables_put)

lemma epoll_inv [simp]:
  "el_inv (epoll_mod fd ev el) = el_inv el" "el_inv (EventLoop_enableWrite i el) = el_inv el" "el_inv (EventLoop_disableWrite i el) = el_inv el"
  by (simp_all add: el_inv_def)

lemma wheel_inv: "el_inv el \<Longrightarrow> wheel_ok w \<Longrightarrow> el_inv (el\<lparr>el_wheel := w\<rparr>)"
  by (simp add: el_inv_def)

lemma el_inv_wheel: "el_inv el \<Longrightarrow> wheel_ok (el_wheel el)"
  by (simp add: el_inv_def)

lemma with_conn_inv: "el_inv el \<Longrightarrow> (\<And>c. uget (el_conns el) i = Some c \<Longrightarrow> el_inv (f c el)) \<Longrightarrow> el_inv (with_conn i f el)"
  by (simp add: with_conn_def split: option.splits)

lemma close_loop_inv: "el_inv el \<Longrightarrow> el_inv (EventLoop_closeConnection i el)"
  unfolding EventLoop_closeConnection_def
  by (rule with_conn_inv) (auto intro!: wheel_inv put_inv conn_ops_same wheel_ok_ops simp: el_inv_wheel)

lemma take_conn_inv: "el_inv el \<Longrightarrow> el_inv (take_conn reg el)"
  by (auto simp: take_conn_def EventLoop_addConnectionImpl_def el_inv_def split: list.splits
      intro: tables_add tables_drop)

lemma take_write_inv:
  assumes "el_inv el"
  shows "el_inv (take_write el)"
proof -
  have ws: "el_inv (el\<lparr>pending_writes := ws\<rparr>)" for ws using assms by (simp add: el_inv_def)
  have "el_inv (with_conn i (\<lambda>c el. EventLoop_enableWrite i (put_conn i (Connection_sendRaw data c) el)) (el\<lparr>pending_writes := ws\<rparr>))"
    for i data ws
    by (rule with_conn_inv [OF ws]) (simp add: put_inv [OF ws] conn_ops_same)
  with assms show ?thesis by (simp add: take_write_def split: list.splits prod.splits)
qed

lemma drainPending_inv: "el_inv el \<Longrightarrow> el_inv (EventLoop_drainPending reg el)"
proof (induction reg el rule: EventLoop_drainPending.induct)
  case (1 reg el)
  then show ?case by (subst EventLoop_drainPending.simps) (simp add: take_conn_inv)
qed

lemma drainPendingWrites_inv: "el_inv el \<Longrightarrow> el_inv (EventLoop_drainPendingWrites el)"
proof (induction el rule: EventLoop_drainPendingWrites.induct)
  case (1 el)
  then show ?case by (subst EventLoop_drainPendingWrites.simps) (simp add: take_write_inv)
qed

lemma on_readable_inv:
  assumes "el_inv el" and "uget (el_conns el) i = Some c"
  shows "el_inv (snd (on_readable e i c el))"
proof -
  let ?el = "put_conn i (fst (Connection_onReadable (ev_now e) (ev_read e) c)) el"
  have 1: "el_inv ?el" by (rule put_inv [OF assms onReadable_same])
  moreover have "el_inv (EventLoop_closeConnection i ?el)" by (rule close_loop_inv [OF 1])
  ultimately show ?thesis
    by (auto simp: on_readable_def Let_def case_prod_beta intro!: wheel_inv wheel_ok_ops) (simp_all add: el_inv_def)
qed

lemma on_writable_inv: "el_inv el \<Longrightarrow> uget (el_conns el) i = Some c \<Longrightarrow> el_inv (on_writable e i c el)"
  by (auto simp: on_writable_def Let_def intro!: put_inv conn_ops_same)

lemma handle_event_inv:
  assumes "el_inv el"
  shows "el_inv (snd (handle_event wake_fd e el))"
proof (cases "\<exists>i c. ev_fd e \<noteq> wake_fd \<and> uget (fd_to_id el) (ev_fd e) = Some i \<and> uget (el_conns el) i = Some c")
  case True
  then obtain i c where ic: "ev_fd e \<noteq> wake_fd" "uget (fd_to_id el) (ev_fd e) = Some i" "uget (el_conns el) i = Some c" by blast
  define el1 where "el1 = (if ev_in e then snd (on_readable e i c el) else el)"
  have "el_inv el1" using on_readable_inv [OF assms ic(3)] assms by (simp add: el1_def)
  then have "el_inv (with_conn i (on_writable e i) el1)" by (rule with_conn_inv) (rule on_writable_inv [OF \<open>el_inv el1\<close>])
  with \<open>el_inv el1\<close> ic show ?thesis by (auto simp: handle_event_def el1_def case_prod_beta Let_def)
qed (use assms in \<open>auto simp: handle_event_def split: option.splits\<close>)

lemma handleEvents_inv: "el_inv el \<Longrightarrow> el_inv (snd (EventLoop_handleEvents wake_fd evs el))"
  by (induction evs arbitrary: el) (auto simp: case_prod_beta Let_def handle_event_inv)

lemma check_loop_inv: "el_inv el \<Longrightarrow> el_inv (check_loop now is el)"
proof (induction "is" arbitrary: el)
  case (Cons i "is")
  show ?case unfolding check_loop.simps
    by (rule Cons.IH, rule with_conn_inv) (simp_all add: Cons.prems close_loop_inv)
qed simp

lemma sweep_closed_inv:
  "el_inv el \<Longrightarrow> distinct (map fst cs) \<Longrightarrow> (\<And>i c. (i, c) \<in> set cs \<Longrightarrow> uget (el_conns el) i = Some c) \<Longrightarrow>
   el_inv (snd (sweep_closed cs el))"
proof (induction cs el rule: sweep_closed.induct)
  case (1 el)
  then show ?case by simp
next
  case (2 i c cs el)
  show ?case
  proof (cases "Connection_shouldCleanup c")
    case False
    with 2 show ?thesis by simp
  next
    case True
    let ?el = "el\<lparr>interest := uerase (conn_fd c) (interest el), fd_to_id := uerase (conn_fd c) (fd_to_id el),
                        el_conns := uerase i (el_conns el)\<rparr>"
    have "uget (el_conns el) i = Some c" using "2.prems"(3) by simp
    with "2.prems"(1) have inv: "el_inv ?el" by (simp add: el_inv_def tables_erase)
    have "el_inv (snd (sweep_closed cs ?el))"
    proof (rule "2.IH"(1) [OF True refl inv])
      fix j d assume jd: "(j, d) \<in> set cs"
      then have "j \<noteq> i" using "2.prems"(2) by force
      with "2.prems"(3) [of j d] jd show "uget (el_conns ?el) j = Some d" by simp
    qed (use "2.prems"(2) in simp)
    with True show ?thesis by (simp add: case_prod_beta Let_def)
  qed
qed

lemma tick_heartbeat_inv:
  assumes "el_inv el" and "TimerWheel_tick heartbeat_expired (el_wheel el, el_conns el) = Inr (ids, w, cs)"
  shows "w = advance (el_wheel el) \<and> cs = el_conns el"
  using assms by (simp add: el_inv_def wheel_ok_def tick_heartbeat split: if_splits)

lemma cleanupClosed_inv:
  assumes "el_inv el" and "EventLoop_cleanupClosed el = Inr (out, el')"
  shows "el_inv el'"
proof -
  from assms(2) obtain ids w cs where t: "TimerWheel_tick heartbeat_expired (el_wheel el, el_conns el) = Inr (ids, w, cs)"
    and el': "el' = snd (sweep_closed cs (el\<lparr>el_wheel := w, el_conns := cs\<rparr>))"
    by (auto simp: EventLoop_cleanupClosed_def res_bind_Inr_iff)
  have w: "w = advance (el_wheel el)" "cs = el_conns el" using tick_heartbeat_inv [OF assms(1) t] by simp_all
  then have "el_inv (el\<lparr>el_wheel := w, el_conns := cs\<rparr>)" using assms(1) by (simp add: el_inv_def)
  moreover have "distinct (map fst cs)" using assms(1) w(2) by (auto simp: el_inv_def dest: tablesD(2))
  ultimately show ?thesis unfolding el' by (rule sweep_closed_inv) (simp add: map_of_is_SomeI \<open>distinct (map fst cs)\<close>)
qed

lemma run_iteration_inv:
  assumes "el_inv el" and "EventLoop_run_iteration wake_fd reg now_ms evs el = Inr (out, el')"
  shows "el_inv el'"
proof -
  let ?el = "snd (EventLoop_handleEvents wake_fd evs (EventLoop_drainPending reg (EventLoop_drainPendingWrites el)))"
  have "el_inv (EventLoop_checkTimeouts now_ms ?el)"
    unfolding EventLoop_checkTimeouts_def
    by (intro check_loop_inv handleEvents_inv drainPending_inv drainPendingWrites_inv assms(1))
  with assms(2) show ?thesis
    by (auto simp: EventLoop_run_iteration_def case_prod_beta res_bind_Inr_iff Let_def dest: cleanupClosed_inv)
qed

section \<open>Histories\<close>

text \<open>
  What happens to a loop: a connection is handed over, a message is queued, the loop goes round once.
  After undefined behaviour there is no state any more.
\<close>

datatype loop_event = LE_Add connection | LE_Send conn_id bytes | LE_Iterate int "int \<Rightarrow> bool" u64 "epoll_ev list" | LE_Stop

fun loop_step :: "timer_fault + event_loop \<Rightarrow> loop_event \<Rightarrow> timer_fault + event_loop" where
  "loop_step s (LE_Add c) = res_bind s (\<lambda>el. Inr (EventLoop_addConnection c el))"
| "loop_step s (LE_Send i data) = res_bind s (\<lambda>el. Inr (EventLoop_sendToConnection i data el))"
| "loop_step s (LE_Iterate wake_fd reg now_ms evs) =
     res_bind s (\<lambda>el. res_bind (EventLoop_run_iteration wake_fd reg now_ms evs el) (\<lambda>(out, el'). Inr el'))"
| "loop_step s LE_Stop = res_bind s (\<lambda>el. Inr (EventLoop_stop el))"

text \<open>
  The acceptor numbers connections consecutively, and the kernel gives out no descriptor that is still
  open: a connection owns its descriptor until it is erased from the table.
\<close>

fun fresh_conn :: "timer_fault + event_loop \<Rightarrow> loop_event \<Rightarrow> bool" where
  "fresh_conn (Inr el) (LE_Add c) \<longleftrightarrow>
     conn_ident c \<notin> set (ukeys (el_conns el)) \<union> conn_ident ` set (pending_conns el) \<and>
     conn_fd c \<notin> (\<lambda>(i, c). conn_fd c) ` set (el_conns el) \<union> conn_fd ` set (pending_conns el)"
| "fresh_conn s e \<longleftrightarrow> True"

definition loop_inv :: "timer_fault + event_loop \<Rightarrow> bool" where
  "loop_inv s \<longleftrightarrow> (case s of Inl f \<Rightarrow> True | Inr el \<Rightarrow> el_inv el)"

lemma loop_step_inv:
  assumes "loop_inv s" and "fresh_conn s e"
  shows "loop_inv (loop_step s e)"
proof (cases s)
  case (Inr el)
  with assms(1) have "el_inv el" by (simp add: loop_inv_def)
  then show ?thesis
  proof (cases e)
    case (LE_Add c)
    have "tables (el_conns el) (pending_conns el @ [c]) (fd_to_id el)"
      using \<open>el_inv el\<close> assms(2) unfolding Inr LE_Add el_inv_def tables_def by auto
    with \<open>el_inv el\<close> show ?thesis by (simp add: Inr LE_Add loop_inv_def EventLoop_addConnection_def el_inv_def)
  next
    case (LE_Iterate wake_fd reg now_ms evs)
    with \<open>el_inv el\<close> Inr show ?thesis
      by (cases "EventLoop_run_iteration wake_fd reg now_ms evs el") (auto simp: loop_inv_def dest: run_iteration_inv)
  qed (simp_all add: Inr loop_inv_def EventLoop_sendToConnection_def EventLoop_stop_def el_inv_def)
qed (cases e; simp add: loop_inv_def)

interpretation evl: machine loop_step fresh_conn loop_inv
  by unfold_locales (rule loop_step_inv)

lemma history_inv:
  assumes "admitted loop_step fresh_conn (Inr EventLoop_new) es" and "run_events loop_step (Inr EventLoop_new) es = Inr el"
  shows "el_inv el"
  using evl.run_inv [OF _ assms(1)] assms(2) by (simp add: loop_inv_def)

section \<open>The run ends\<close>

text \<open>
  What a round of the loop never changes: its flags and settings. Only \<open>run\<close> raises the flag that \<open>stop\<close> has
  lowered.
\<close>

definition settings :: "event_loop \<Rightarrow> bool \<times> bool \<times> bool \<times> u64 \<times> u64" where
  "settings el = (el_running el, el_frame_cb el, el_disconnect_cb el, heartbeat_ms el, timeout_ms el)"

lemma settings_update [simp]:
  "settings (el\<lparr>pending_conns := ps\<rparr>) = settings el" "settings (el\<lparr>pending_writes := ws\<rparr>) = settings el"
  "settings (el\<lparr>el_conns := cs\<rparr>) = settings el" "settings (el\<lparr>fd_to_id := m\<rparr>) = settings el"
  "settings (el\<lparr>el_wheel := w\<rparr>) = settings el" "settings (el\<lparr>interest := evs\<rparr>) = settings el"
  by (simp_all add: settings_def)

lemma settings_ops [simp]:
  "settings (epoll_mod fd ev el) = settings el" "settings (put_conn i c el) = settings el"
  "settings (EventLoop_addConnectionImpl r c el) = settings el"
  by (simp_all add: epoll_mod_def put_conn_def EventLoop_addConnectionImpl_def)

lemma settings_conn_ops [simp]:
  "settings (EventLoop_enableWrite i el) = settings el" "settings (EventLoop_disableWrite i el) = settings el"
  "settings (EventLoop_closeConnection i el) = settings el" "settings (take_write el) = settings el"
  "settings (take_conn reg el) = settings el"
  by (simp_all add: EventLoop_enableWrite_def EventLoop_disableWrite_def EventLoop_closeConnection_def take_write_def
      take_conn_def with_conn_def split: option.splits list.splits prod.splits)

lemma settings_drainPending [simp]: "settings (EventLoop_drainPending reg el) = settings el"
proof (induction reg el rule: EventLoop_drainPending.induct)
  case (1 reg el)
  then show ?case by (subst EventLoop_drainPending.simps) simp
qed

lemma settings_drainPendingWrites [simp]: "settings (EventLoop_drainPendingWrites el) = settings el"
proof (induction el rule: EventLoop_drainPendingWrites.induct)
  case (1 el)
  then show ?case by (subst EventLoop_drainPendingWrites.simps) simp
qed

lemma settings_handle_event [simp]: "settings (snd (handle_event wake_fd e el)) = settings el"
  by (simp add: handle_event_def on_readable_def on_writable_def with_conn_def Let_def case_prod_beta split: option.splits)

lemma settings_events [simp]: "settings (snd (EventLoop_handleEvents wake_fd evs el)) = settings el"
  by (induction evs arbitrary: el) (auto simp: case_prod_beta Let_def)

lemma settings_check_loop [simp]: "settings (check_loop now_ms is el) = settings el"
  by (induction "is" arbitrary: el) (auto simp: with_conn_def split: option.splits)

lemma settings_sweep [simp]: "settings (snd (sweep_closed cs el)) = settings el"
  by (induction cs el rule: sweep_closed.induct) (auto simp: case_prod_beta Let_def)

lemma settings_cleanup:
  assumes "EventLoop_cleanupClosed el = Inr (out, el')"
  shows "settings el' = settings el"
proof -
  from assms obtain w cs where "sweep_closed cs (el\<lparr>el_wheel := w, el_conns := cs\<rparr>) = (out, el')"
    by (auto simp: EventLoop_cleanupClosed_def res_bind_Inr_iff)
  then have "el' = snd (sweep_closed cs (el\<lparr>el_wheel := w, el_conns := cs\<rparr>))" by (metis snd_conv)
  then show ?thesis by simp
qed

lemma settings_iteration: "EventLoop_run_iteration wake_fd reg now_ms evs el = Inr (out, el') \<Longrightarrow> settings el' = settings el"
  by (auto simp: EventLoop_run_iteration_def EventLoop_checkTimeouts_def case_prod_beta Let_def res_bind_Inr_iff dest!: settings_cleanup)

lemma running_iteration:
  assumes "EventLoop_run_iteration wake_fd reg now_ms evs el = Inr (out, el')"
  shows "el_running el' = el_running el"
  using settings_iteration [OF assms] by (simp add: settings_def)

lemma stopped_rounds: "\<not> el_running el \<Longrightarrow> run_rounds wake_fd reg rs el = Inr ([], el)"
  by (cases rs) auto

lemma stopped_call: "\<not> el_running el \<Longrightarrow> \<not> el_running (fold thread_do calls el)"
proof (induction calls arbitrary: el)
  case (Cons x calls)
  then show ?case by (cases x) (simp_all add: EventLoop_addConnection_def EventLoop_sendToConnection_def EventLoop_stop_def)
qed simp

lemma stop_call: "TC_Stop \<in> set calls \<Longrightarrow> \<not> el_running (fold thread_do calls el)"
  by (induction calls arbitrary: el) (auto simp: stopped_call EventLoop_stop_def)

section \<open>Queued writes\<close>

definition writes_for :: "conn_id \<Rightarrow> (conn_id \<times> bytes) list \<Rightarrow> bytes" where
  "writes_for i ws = concat (map snd (filter (\<lambda>w. fst w = i) ws))"

lemma writes_for_simps [simp]:
  "writes_for i [] = []" "writes_for i ((j, data) # ws) = (if j = i then data @ writes_for i ws else writes_for i ws)"
  by (simp_all add: writes_for_def)

lemma take_write_conn:
  assumes "pending_writes el = (j, data) # ws" and "uget (el_conns el) i = Some c"
  shows "uget (el_conns (take_write el)) i = Some (if j = i then Connection_sendRaw data c else c)"
    and "pending_writes (take_write el) = ws"
  using assms by (auto simp: take_write_def with_conn_def split: option.splits)

text \<open>A connection that can take the bytes: open, consistent, and with room in its send queue.\<close>

definition takes :: "bytes \<Rightarrow> connection \<Rightarrow> bool" where
  "takes data c \<longleftrightarrow> Connection_inv c \<and> Connection_open c \<and> length (Buffer_contents (send_buf c)) + length data \<le> kSendQueueMax"

lemma sendRaw_takes:
  assumes "takes (data @ rest) c"
  shows "takes rest (Connection_sendRaw data c)"
    and "Buffer_contents (send_buf (Connection_sendRaw data c)) = Buffer_contents (send_buf c) @ data"
    and "conn_state (Connection_sendRaw data c) = conn_state c"
proof -
  have b: "Buffer_inv (send_buf c)" "Connection_open c" "Buffer_readable (send_buf c) + length data \<le> kSendQueueMax"
    using assms contents_length [of "send_buf c"] by (auto simp: takes_def Connection_inv_def)
  then have s: "Connection_sendRaw data c = c\<lparr>send_buf := snd (Buffer_write data (send_buf c))\<rparr>"
    by (simp add: Connection_sendRaw_def)
  then show contents: "Buffer_contents (send_buf (Connection_sendRaw data c)) = Buffer_contents (send_buf c) @ data"
    and state: "conn_state (Connection_sendRaw data c) = conn_state c"
    using b(1) by (simp_all add: write_spec)
  show "takes rest (Connection_sendRaw data c)"
    using assms contents state sendRaw_inv [of c data] by (simp add: takes_def Connection_open_def)
qed

lemma drain_writes:
  assumes "uget (el_conns el) i = Some c" and "takes (writes_for i (pending_writes el)) c"
  shows "pending_writes (EventLoop_drainPendingWrites el) = [] \<and>
    (\<exists>c'. uget (el_conns (EventLoop_drainPendingWrites el)) i = Some c' \<and> conn_state c' = conn_state c \<and>
       Buffer_contents (send_buf c') = Buffer_contents (send_buf c) @ writes_for i (pending_writes el))"
  using assms
proof (induction el arbitrary: c rule: EventLoop_drainPendingWrites.induct)
  case (1 el)
  show ?case
  proof (cases "pending_writes el")
    case Nil
    with "1.prems" show ?thesis by (simp add: EventLoop_drainPendingWrites.simps [of el])
  next
    case (Cons w ws)
    obtain j data where w: "w = (j, data)" by (cases w)
    let ?c = "if j = i then Connection_sendRaw data c else c"
    note t = take_write_conn [OF Cons [unfolded w] "1.prems"(1)]
    have c: "takes (writes_for i ws) ?c \<and> conn_state ?c = conn_state c \<and>
        Buffer_contents (send_buf ?c) @ writes_for i ws = Buffer_contents (send_buf c) @ writes_for i (pending_writes el)"
      using "1.prems"(2) sendRaw_takes [of data "writes_for i ws" c] by (cases "j = i") (simp_all add: Cons w)
    have "EventLoop_drainPendingWrites el = EventLoop_drainPendingWrites (take_write el)"
      using Cons by (subst EventLoop_drainPendingWrites.simps) simp
    with "1.IH" [OF _ t(1)] c Cons t(2) show ?thesis by (auto simp del: if_split)
  qed
qed

section \<open>The main theorems\<close>

text \<open>
  Messages queued for a connection that is open and has room for them are appended to its send
  buffer in the order in which they were queued, none lost, none twice, whatever was queued for other
  connections in between; the queue is empty afterwards and the connection stays as open as it was.
\<close>

theorem pending_writes_in_order:
  assumes "uget (el_conns el) i = Some c" and "Connection_inv c" and "Connection_open c"
    and "length (Buffer_contents (send_buf c)) + length (writes_for i (pending_writes el)) \<le> kSendQueueMax"
  shows "pending_writes (EventLoop_drainPendingWrites el) = [] \<and>
    (\<exists>c'. uget (el_conns (EventLoop_drainPendingWrites el)) i = Some c' \<and> conn_state c' = conn_state c \<and>
       Buffer_contents (send_buf c') = Buffer_contents (send_buf c) @ writes_for i (pending_writes el))"
  by (rule drain_writes [OF assms(1)]) (simp add: takes_def assms)

definition sample_loop :: event_loop where
  "sample_loop = EventLoop_drainPending (\<lambda>fd. True)
     (EventLoop_addConnection (Connection_new 0 1 7) (EventLoop_addConnection (Connection_new 0 2 8) (EventLoop_new\<lparr>heartbeat_ms := 1\<rparr>)))"

lemma sample_conns: "el_conns sample_loop = [(2, Connection_new 0 2 8), (1, Connection_new 0 1 7)]"
  by (simp add: sample_loop_def EventLoop_drainPending.simps EventLoop_addConnection_def take_conn_def
      EventLoop_addConnectionImpl_def EventLoop_new_def)

lemma sample_inv: "el_inv sample_loop"
  unfolding sample_loop_def
  by (rule drainPending_inv)
     (use new_loop_inv in \<open>simp add: el_inv_def EventLoop_addConnection_def EventLoop_new_def tables_def\<close>)

definition sample_writes :: event_loop where
  "sample_writes = EventLoop_sendToConnection 1 [5] (EventLoop_sendToConnection 2 [9] (EventLoop_sendToConnection 1 [3, 4] sample_loop))"

theorem pending_writes_in_order_witness:
  "\<exists>c'. uget (el_conns (EventLoop_drainPendingWrites sample_writes)) 1 = Some c' \<and> Buffer_contents (send_buf c') = [3, 4, 5]"
proof -
  have new: "Buffer_contents (Buffer_new 4096) = []" by (simp add: Buffer_contents_def Buffer_new_def Buffer_readable_def)
  have q: "pending_writes sample_writes = [(1, [3, 4]), (2, [9]), (1, [5])]"
    by (simp add: sample_writes_def EventLoop_sendToConnection_def sample_loop_def EventLoop_drainPending.simps
        EventLoop_addConnection_def take_conn_def EventLoop_addConnectionImpl_def EventLoop_new_def)
  have c: "uget (el_conns sample_writes) 1 = Some (Connection_new 0 1 7)"
    by (simp add: sample_writes_def EventLoop_sendToConnection_def sample_conns)
  from pending_writes_in_order [OF c new_conn_inv] show ?thesis
    by (auto simp: Connection_open_def q new kSendQueueMax_def)
qed



text \<open>
  C17. For every history of a loop that does not run into undefined behaviour, in which the acceptor
  hands over connections with new ids and descriptors: the table from descriptors to ids and the table
  of connections agree in both directions, every connection is filed under its own id, and the timer
  wheel is consistent. An event is thus always handled by the connection that owns the descriptor.
\<close>

theorem connection_tables_agree:
  assumes "admitted loop_step fresh_conn (Inr EventLoop_new) es" and "run_events loop_step (Inr EventLoop_new) es = Inr el"
  shows "(uget (fd_to_id el) fd = Some i \<longleftrightarrow> (\<exists>c. uget (el_conns el) i = Some c \<and> conn_ident c = i \<and> conn_fd c = fd)) \<and>
    TimerWheel_inv (el_wheel el)"
proof -
  have "tables (el_conns el) (pending_conns el) (fd_to_id el)" "TimerWheel_inv (el_wheel el)"
    using history_inv [OF assms] by (simp_all add: el_inv_def wheel_ok_def)
  with tablesD(4) [OF this(1), of fd i] tablesD(1) [OF this(1), of i] show ?thesis by blast
qed

text \<open>
  A call of \<open>stop\<close> by another thread ends the run: the round in which it arrives is still completed
  and nothing after it is done, whatever the kernel reports, whoever else calls.
\<close>

theorem stop_ends_run:
  assumes "TC_Stop \<in> set calls"
  shows "EventLoop_run wake_fd reg (rs @ (calls, answer) # later) el = EventLoop_run wake_fd reg (rs @ [(calls, answer)]) el"
proof -
  have "run_rounds wake_fd reg (rs @ (calls, answer) # later) el' = run_rounds wake_fd reg (rs @ [(calls, answer)]) el'" for el'
  proof (induction rs arbitrary: el')
    case Nil
    let ?el = "fold thread_do calls el'"
    have e: "run_rounds wake_fd reg later el2 = Inr ([], el2)"
      if "EventLoop_run_iteration wake_fd reg now_ms evs ?el = Inr (out, el2)" for now_ms evs out el2
      using running_iteration [OF that] stop_call [OF assms] by (simp add: stopped_rounds)
    have "res_bind (EventLoop_run_iteration wake_fd reg now_ms evs ?el)
        (\<lambda>(out, el2). res_bind (run_rounds wake_fd reg later el2) (\<lambda>(outs, el3). Inr (out @ outs, el3))) =
      EventLoop_run_iteration wake_fd reg now_ms evs ?el" for now_ms evs
      using e by (cases "EventLoop_run_iteration wake_fd reg now_ms evs ?el") auto
    then show ?case
      using stop_call [OF assms, of el'] by (simp add: Let_def stopped_rounds split: epoll_answer.split)
  next
    case (Cons r rs)
    then show ?case by (cases r) (auto simp: Let_def split: epoll_answer.split)
  qed
  then show ?thesis by (simp add: EventLoop_run_def)
qed

theorem stop_ends_run_witness:
  "EventLoop_run 5 (\<lambda>fd. True) [([TC_Stop], Interrupted), ([], Wait_failed)] EventLoop_new = Inr ([], EventLoop_new)"
  using stop_ends_run [of "[TC_Stop]" 5 "\<lambda>fd. True" "[]" Interrupted "[([], Wait_failed)]" EventLoop_new]
  by (simp add: EventLoop_run_def EventLoop_stop_def EventLoop_new_def)

definition sample_history :: "loop_event list" where
  "sample_history = [LE_Add (Connection_new 0 1 7), LE_Send 1 [3], LE_Iterate 5 (\<lambda>fd. True) 10 []]"

lemma sample_wheel:
  defines "w \<equiv> TimerWheel_add 1 kHeartbeatIntervalMs (Some ()) TimerWheel_new :: unit timer_wheel"
  shows "TimerWheel_tick heartbeat_expired (w, cs) = Inr ([], advance w, cs)"
proof -
  have "wheel_ok w" using new_loop_inv by (simp add: w_def el_inv_def EventLoop_new_def)
  moreover have "slot_ids w ((current_slot w + 1) mod kSlots) = []"
    by (simp add: w_def TimerWheel_add_def TimerWheel_remove_def insert_entry_def
        TimerWheel_new_def TimerWheel_slotOf_def kTickMs_def kSlots_def kHeartbeatIntervalMs_def)
  ultimately show ?thesis by (simp add: wheel_ok_def tick_heartbeat)
qed

lemma sample_history_end:
  "\<exists>el. run_events loop_step (Inr EventLoop_new) sample_history = Inr el \<and> uget (el_conns el) 1 = Some (Connection_new 0 1 7)"
  by (simp add: sample_history_def EventLoop_new_def EventLoop_addConnection_def EventLoop_sendToConnection_def
      EventLoop_run_iteration_def EventLoop_drainPending.simps EventLoop_drainPendingWrites.simps take_conn_def take_write_def
      with_conn_def EventLoop_addConnectionImpl_def EventLoop_checkTimeouts_def Connection_isTimeout_def kConnectionTimeoutMs_def
      EventLoop_cleanupClosed_def sample_wheel Connection_shouldCleanup_def)

theorem connection_tables_agree_witness:
  "\<exists>el. run_events loop_step (Inr EventLoop_new) sample_history = Inr el \<and> uget (fd_to_id el) 7 = Some 1 \<and> TimerWheel_inv (el_wheel el)"
proof -
  obtain el where el: "run_events loop_step (Inr EventLoop_new) sample_history = Inr el" "uget (el_conns el) 1 = Some (Connection_new 0 1 7)"
    using sample_history_end by blast
  have "admitted loop_step fresh_conn (Inr EventLoop_new) sample_history"
    by (simp add: sample_history_def EventLoop_new_def)
  from connection_tables_agree [OF this el(1), of 7 1] el show ?thesis by simp
qed

end
