(* ===== verification/Loop_Interleaving.thy ===== *)
theory Loop_Interleaving
  imports Event_Loop
begin

text \<open>
  The thread of an I/O loop, lock by lock. \<open>EventLoop::run\<close> drains its two queues element by element and
  gives the lock back in between, so that other threads add connections, queue messages and call
  \<open>stop\<close> at any point of a round; \<open>wake\<close> raises the counter of an eventfd after the lock is released.
  The theorem of this file is that all these interleavings are covered by the runs of \<open>Event_Loop\<close>, where a round is
  one step and the calls of other threads arrive while the loop waits.
\<close>

section \<open>The thread\<close>

datatype loop_pc =
    At_check
  | At_wait
  | At_writes u64 "epoll_ev list"
  | At_conns u64 "epoll_ev list"
  | At_rest u64 "epoll_ev list"
  | At_end
  | At_fault timer_fault

text \<open>\<open>wake_count\<close> is the counter of the eventfd, \<open>owed\<close> the number of calls whose \<open>wake\<close> is still to come.\<close>

record loop_thread =
  lt_loop :: event_loop
  lt_pc :: loop_pc
  lt_outs :: "loop_out list"
  wake_count :: nat
  owed :: nat

definition thread_start :: "event_loop \<Rightarrow> loop_thread" where
  "thread_start el = \<lparr>lt_loop = el\<lparr>el_running := True\<rparr>, lt_pc = At_check, lt_outs = [], wake_count = 0, owed = 0\<rparr>"

definition EventLoop_wake :: "loop_thread \<Rightarrow> loop_thread" where
  "EventLoop_wake s = s\<lparr>wake_count := wake_count s + 1\<rparr>"

definition woken :: "int \<Rightarrow> epoll_ev list \<Rightarrow> bool" where
  "woken wake_fd evs \<longleftrightarrow> (\<exists>e \<in> set evs. ev_fd e = wake_fd)"

text \<open>What a round does after the queues are drained; reading the eventfd sets its counter to zero.\<close>

definition rest_of_round :: "int \<Rightarrow> u64 \<Rightarrow> epoll_ev list \<Rightarrow> event_loop \<Rightarrow> timer_fault + loop_out list \<times> event_loop" where
  "rest_of_round wake_fd now_ms evs el =
     (let (out, el1) = EventLoop_handleEvents wake_fd evs el
      in res_bind (EventLoop_cleanupClosed (EventLoop_checkTimeouts now_ms el1)) (\<lambda>(out', el2). Inr (out @ out', el2)))"

text \<open>A step is a call of another thread, or a step without a label of that thread's \<open>wake\<close> or of the loop itself.\<close>

inductive fine_step :: "int \<Rightarrow> (int \<Rightarrow> bool) \<Rightarrow> loop_thread \<Rightarrow> thread_call option \<Rightarrow> loop_thread \<Rightarrow> bool" for wake_fd reg where
  call: "fine_step wake_fd reg s (Some tc) (s\<lparr>lt_loop := thread_do tc (lt_loop s), owed := owed s + 1\<rparr>)"
| wake: "owed s > 0 \<Longrightarrow> fine_step wake_fd reg s None ((EventLoop_wake s)\<lparr>owed := owed s - 1\<rparr>)"
| enter: "lt_pc s = At_check \<Longrightarrow> el_running (lt_loop s) \<Longrightarrow> fine_step wake_fd reg s None (s\<lparr>lt_pc := At_wait\<rparr>)"
| leave: "lt_pc s = At_check \<Longrightarrow> \<not> el_running (lt_loop s) \<Longrightarrow> fine_step wake_fd reg s None (s\<lparr>lt_pc := At_end\<rparr>)"
| interrupted: "lt_pc s = At_wait \<Longrightarrow> fine_step wake_fd reg s None (s\<lparr>lt_pc := At_check\<rparr>)"
| failed: "lt_pc s = At_wait \<Longrightarrow> fine_step wake_fd reg s None (s\<lparr>lt_pc := At_end\<rparr>)"
| returned: "lt_pc s = At_wait \<Longrightarrow> (woken wake_fd evs \<Longrightarrow> wake_count s > 0) \<Longrightarrow>
    fine_step wake_fd reg s None (s\<lparr>lt_pc := At_writes now_ms evs\<rparr>)"
| take_w: "lt_pc s = At_writes now_ms evs \<Longrightarrow> pending_writes (lt_loop s) \<noteq> [] \<Longrightarrow>
    fine_step wake_fd reg s None (s\<lparr>lt_loop := take_write (lt_loop s)\<rparr>)"
| written: "lt_pc s = At_writes now_ms evs \<Longrightarrow> pending_writes (lt_loop s) = [] \<Longrightarrow>
    fine_step wake_fd reg s None (s\<lparr>lt_pc := At_conns now_ms evs\<rparr>)"
| conn: "lt_pc s = At_conns now_ms evs \<Longrightarrow> pending_conns (lt_loop s) \<noteq> [] \<Longrightarrow>
    fine_step wake_fd reg s None (s\<lparr>lt_loop := take_conn reg (lt_loop s)\<rparr>)"
| connected: "lt_pc s = At_conns now_ms evs \<Longrightarrow> pending_conns (lt_loop s) = [] \<Longrightarrow>
    fine_step wake_fd reg s None (s\<lparr>lt_pc := At_rest now_ms evs\<rparr>)"
| rest: "lt_pc s = At_rest now_ms evs \<Longrightarrow> rest_of_round wake_fd now_ms evs (lt_loop s) = Inr (out, el) \<Longrightarrow>
    fine_step wake_fd reg s None
      (s\<lparr>lt_loop := el, lt_pc := At_check, lt_outs := lt_outs s @ out, wake_count := (if woken wake_fd evs then 0 else wake_count s)\<rparr>)"
| fault: "lt_pc s = At_rest now_ms evs \<Longrightarrow> rest_of_round wake_fd now_ms evs (lt_loop s) = Inl e \<Longrightarrow>
    fine_step wake_fd reg s None (s\<lparr>lt_pc := At_fault e\<rparr>)"

inductive fine_run :: "int \<Rightarrow> (int \<Rightarrow> bool) \<Rightarrow> loop_thread \<Rightarrow> thread_call list \<Rightarrow> loop_thread \<Rightarrow> bool" for wake_fd reg s0 where
  start: "fine_run wake_fd reg s0 [] s0"
| step: "fine_run wake_fd reg s0 cs s \<Longrightarrow> fine_step wake_fd reg s l s' \<Longrightarrow>
    fine_run wake_fd reg s0 (cs @ (case l of None \<Rightarrow> [] | Some tc \<Rightarrow> [tc])) s'"

section \<open>The fields that other threads touch\<close>

text \<open>A loop with other queues and another flag. What the loop thread does to its connections commutes with it.\<close>

definition wq :: "connection list \<Rightarrow> (conn_id \<times> bytes) list \<Rightarrow> bool \<Rightarrow> event_loop \<Rightarrow> event_loop" where
  "wq C W r el = el\<lparr>pending_conns := C, pending_writes := W, el_running := r\<rparr>"

lemma wq_same: "wq (pending_conns el) (pending_writes el) (el_running el) el = el"
  by (simp add: wq_def)

lemma wq_wq [simp]: "wq C W r (wq C' W' r' el) = wq C W r el"
  by (simp add: wq_def)

lemma wq_shift [simp]:
  "(wq C W r el)\<lparr>pending_writes := W'\<rparr> = wq C W' r el" "(wq C W r el)\<lparr>pending_conns := C'\<rparr> = wq C' W r el"
  by (simp_all add: wq_def)

lemma wq_select [simp]:
  "pending_conns (wq C W r el) = C" "pending_writes (wq C W r el) = W" "el_running (wq C W r el) = r"
  "el_conns (wq C W r el) = el_conns el" "fd_to_id (wq C W r el) = fd_to_id el" "el_wheel (wq C W r el) = el_wheel el"
  "interest (wq C W r el) = interest el" "el_frame_cb (wq C W r el) = el_frame_cb el" "el_disconnect_cb (wq C W r el) = el_disconnect_cb el"
  "heartbeat_ms (wq C W r el) = heartbeat_ms el" "timeout_ms (wq C W r el) = timeout_ms el"
  by (simp_all add: wq_def)

named_theorems queue_free \<open>operations that do not look at the queues\<close>

lemma wq_update [queue_free]:
  "(wq C W r el)\<lparr>el_wheel := w\<rparr> = wq C W r (el\<lparr>el_wheel := w\<rparr>)" "(wq C W r el)\<lparr>el_conns := cs\<rparr> = wq C W r (el\<lparr>el_conns := cs\<rparr>)"
  "(wq C W r el)\<lparr>interest := n\<rparr> = wq C W r (el\<lparr>interest := n\<rparr>)" "(wq C W r el)\<lparr>fd_to_id := m\<rparr> = wq C W r (el\<lparr>fd_to_id := m\<rparr>)"
  "put_conn i c (wq C W r el) = wq C W r (put_conn i c el)" "epoll_mod fd ev (wq C W r el) = wq C W r (epoll_mod fd ev el)"
  by (simp_all add: wq_def put_conn_def epoll_mod_def)

lemma wq_with_conn: "(\<And>c. f c (wq C W r el) = wq C W r (f c el)) \<Longrightarrow> with_conn i f (wq C W r el) = wq C W r (with_conn i f el)"
  by (simp add: with_conn_def split: option.splits)

lemma wq_interest [queue_free]:
  "EventLoop_enableWrite i (wq C W r el) = wq C W r (EventLoop_enableWrite i el)"
  "EventLoop_disableWrite i (wq C W r el) = wq C W r (EventLoop_disableWrite i el)"
  by (simp_all add: EventLoop_enableWrite_def EventLoop_disableWrite_def wq_with_conn queue_free)

lemma wq_close [queue_free]: "EventLoop_closeConnection i (wq C W r el) = wq C W r (EventLoop_closeConnection i el)"
  by (simp add: EventLoop_closeConnection_def wq_with_conn queue_free)

lemma wq_add_impl [queue_free]: "EventLoop_addConnectionImpl ok c (wq C W r el) = wq C W r (EventLoop_addConnectionImpl ok c el)"
  by (simp add: EventLoop_addConnectionImpl_def queue_free)

lemma wq_on_readable [queue_free]: "on_readable e i c (wq C W r el) = (fst (on_readable e i c el), wq C W r (snd (on_readable e i c el)))"
  by (simp add: on_readable_def Let_def case_prod_beta queue_free)

lemma wq_on_writable [queue_free]: "on_writable e i c (wq C W r el) = wq C W r (on_writable e i c el)"
  by (simp add: on_writable_def Let_def queue_free)

lemma wq_handle_event [queue_free]:
  "handle_event wake_fd e (wq C W r el) = (fst (handle_event wake_fd e el), wq C W r (snd (handle_event wake_fd e el)))"
  by (simp add: handle_event_def Let_def case_prod_beta queue_free wq_with_conn split: option.split)

lemma wq_handleEvents [queue_free]:
  "EventLoop_handleEvents wake_fd evs (wq C W r el) =
     (fst (EventLoop_handleEvents wake_fd evs el), wq C W r (snd (EventLoop_handleEvents wake_fd evs el)))"
  by (induction evs arbitrary: el) (simp_all add: Let_def case_prod_beta queue_free)

lemma wq_check_loop [queue_free]: "check_loop now_ms is (wq C W r el) = wq C W r (check_loop now_ms is el)"
  by (induction "is" arbitrary: el) (simp_all add: wq_with_conn queue_free)

lemma wq_sweep [queue_free]: "sweep_closed cs (wq C W r el) = (fst (sweep_closed cs el), wq C W r (snd (sweep_closed cs el)))"
  by (induction cs el rule: sweep_closed.induct) (simp_all add: Let_def case_prod_beta queue_free)

lemma wq_cleanup [queue_free]:
  "EventLoop_cleanupClosed (wq C W r el) = res_bind (EventLoop_cleanupClosed el) (\<lambda>(out, el'). Inr (out, wq C W r el'))"
  by (cases "TimerWheel_tick heartbeat_expired (el_wheel el, el_conns el)")
     (simp_all add: EventLoop_cleanupClosed_def case_prod_beta queue_free)

lemma wq_rest [queue_free]:
  "rest_of_round wake_fd now_ms evs (wq C W r el) = res_bind (rest_of_round wake_fd now_ms evs el) (\<lambda>(out, el'). Inr (out, wq C W r el'))"
  by (cases "EventLoop_cleanupClosed (EventLoop_checkTimeouts now_ms (snd (EventLoop_handleEvents wake_fd evs el)))")
     (simp_all add: rest_of_round_def EventLoop_checkTimeouts_def Let_def case_prod_beta queue_free)

section \<open>Queues\<close>

fun apply_write :: "conn_id \<times> bytes \<Rightarrow> event_loop \<Rightarrow> event_loop" where
  "apply_write (i, data) el = with_conn i (\<lambda>c el. EventLoop_enableWrite i (put_conn i (Connection_sendRaw data c) el)) el"

definition apply_conn :: "(int \<Rightarrow> bool) \<Rightarrow> connection \<Rightarrow> event_loop \<Rightarrow> event_loop" where
  "apply_conn reg c el = EventLoop_addConnectionImpl (reg (conn_fd c)) c el"

lemma wq_apply [queue_free]:
  "apply_write x (wq C W r el) = wq C W r (apply_write x el)" "apply_conn reg c (wq C W r el) = wq C W r (apply_conn reg c el)"
  by (cases x) (simp_all add: apply_conn_def wq_with_conn queue_free)

lemma take_front:
  "take_write (wq C (x # W) r el) = wq C W r (apply_write x el)" "take_conn reg (wq (c # C) W r el) = wq C W r (apply_conn reg c el)"
  by (cases x, simp add: take_write_def wq_with_conn queue_free) (simp add: take_conn_def apply_conn_def queue_free)

lemma drain_wq:
  "EventLoop_drainPendingWrites (wq C W r el) = wq C [] r (fold apply_write W el)"
  "EventLoop_drainPending reg (wq C W r el) = wq [] W r (fold (apply_conn reg) C el)"
proof -
  show "EventLoop_drainPendingWrites (wq C W r el) = wq C [] r (fold apply_write W el)"
  proof (induction W arbitrary: el)
    case Nil
    then show ?case by (subst EventLoop_drainPendingWrites.simps) simp
  next
    case (Cons x W)
    then show ?case by (subst EventLoop_drainPendingWrites.simps) (simp add: take_front)
  qed
  show "EventLoop_drainPending reg (wq C W r el) = wq [] W r (fold (apply_conn reg) C el)"
  proof (induction C arbitrary: el)
    case Nil
    then show ?case by (subst EventLoop_drainPending.simps) simp
  next
    case (Cons c C)
    then show ?case by (subst EventLoop_drainPending.simps) (simp add: take_front)
  qed
qed

text \<open>The calls of other threads, by the queue they go to.\<close>

fun adds :: "thread_call list \<Rightarrow> connection list" where
  "adds [] = []"
| "adds (TC_Add c # cs) = c # adds cs"
| "adds (tc # cs) = adds cs"

fun sends :: "thread_call list \<Rightarrow> (conn_id \<times> bytes) list" where
  "sends [] = []"
| "sends (TC_Send i data # cs) = (i, data) # sends cs"
| "sends (tc # cs) = sends cs"

lemma adds_append [simp]: "adds (cs @ ds) = adds cs @ adds ds" "sends (cs @ ds) = sends cs @ sends ds"
  by (induction cs rule: adds.induct; simp) (induction cs rule: sends.induct; simp)

lemma do_wq: "thread_do tc (wq C W r el) = wq (C @ adds [tc]) (W @ sends [tc]) (r \<and> tc \<noteq> TC_Stop) el"
  by (cases tc) (simp_all add: wq_def EventLoop_addConnection_def EventLoop_sendToConnection_def EventLoop_stop_def)

lemma fold_do_wq: "fold thread_do cs (wq C W r el) = wq (C @ adds cs) (W @ sends cs) (r \<and> TC_Stop \<notin> set cs) el"
proof (induction cs arbitrary: C W r)
  case (Cons tc cs)
  then show ?case by (cases tc) (auto simp: do_wq)
qed simp

text \<open>The calls that fill the queues by given lists.\<close>

definition calls_of :: "connection list \<Rightarrow> (conn_id \<times> bytes) list \<Rightarrow> bool \<Rightarrow> thread_call list" where
  "calls_of A S b = map TC_Add A @ map (\<lambda>(i, data). TC_Send i data) S @ (if b then [TC_Stop] else [])"

lemma calls_of_kinds [simp]: "adds (calls_of A S b) = A" "sends (calls_of A S b) = S" "TC_Stop \<in> set (calls_of A S b) \<longleftrightarrow> b"
proof -
  have "adds (map TC_Add A) = A" "sends (map TC_Add A) = []" by (induction A) auto
  moreover have "adds (map (\<lambda>(i, data). TC_Send i data) S) = []" "sends (map (\<lambda>(i, data). TC_Send i data) S) = S"
    by (induction S) auto
  ultimately show "adds (calls_of A S b) = A" "sends (calls_of A S b) = S" by (simp_all add: calls_of_def)
  show "TC_Stop \<in> set (calls_of A S b) \<longleftrightarrow> b" by (auto simp: calls_of_def)
qed

lemma iteration_wq:
  "EventLoop_run_iteration wake_fd reg now_ms evs (wq C W r el) =
     res_bind (rest_of_round wake_fd now_ms evs (fold (apply_conn reg) C (fold apply_write W el))) (\<lambda>(out, el'). Inr (out, wq [] [] r el'))"
  by (simp only: EventLoop_run_iteration_def drain_wq flip: rest_of_round_def wq_rest)

section \<open>Rounds\<close>

text \<open>
  The loop as the coarse run sees it at the beginning of the round, and how far the thread has come
  since: the connections \<open>A\<close> and messages \<open>S\<close> that other threads have queued, and whether they called \<open>stop\<close>.
\<close>

definition pushed :: "event_loop \<Rightarrow> connection list \<Rightarrow> (conn_id \<times> bytes) list \<Rightarrow> bool \<Rightarrow> event_loop" where
  "pushed el A S b = wq (pending_conns el @ A) (pending_writes el @ S) (el_running el \<and> \<not> b) el"

definition drained :: "(int \<Rightarrow> bool) \<Rightarrow> connection list \<Rightarrow> (conn_id \<times> bytes) list \<Rightarrow> event_loop \<Rightarrow> event_loop" where
  "drained reg C W el = fold (apply_conn reg) C (fold apply_write W el)"

fun phase :: "(int \<Rightarrow> bool) \<Rightarrow> event_loop \<Rightarrow> connection list \<Rightarrow> (conn_id \<times> bytes) list \<Rightarrow> bool \<Rightarrow> loop_pc \<Rightarrow> event_loop \<Rightarrow> bool" where
  "phase reg el A S b At_check el' \<longleftrightarrow> el' = pushed el A S b"
| "phase reg el A S b At_wait el' \<longleftrightarrow> el_running el \<and> el' = pushed el A S b"
| "phase reg el A S b (At_writes now_ms evs) el' \<longleftrightarrow> el_running el \<and>
     (\<exists>d w. pending_writes el @ S = d @ w \<and> el' = wq (pending_conns el @ A) w (\<not> b) (fold apply_write d el))"
| "phase reg el A S b (At_conns now_ms evs) el' \<longleftrightarrow> el_running el \<and>
     (\<exists>S1 S2 d c. S = S1 @ S2 \<and> pending_conns el @ A = d @ c \<and>
        el' = wq c S2 (\<not> b) (drained reg d (pending_writes el @ S1) el))"
| "phase reg el A S b (At_rest now_ms evs) el' \<longleftrightarrow> el_running el \<and>
     (\<exists>S1 S2 A1 A2. S = S1 @ S2 \<and> A = A1 @ A2 \<and>
        el' = wq A2 S2 (\<not> b) (drained reg (pending_conns el @ A1) (pending_writes el @ S1) el))"
| "phase reg el A S b At_end el' \<longleftrightarrow> False"
| "phase reg el A S b (At_fault e) el' \<longleftrightarrow> False"

lemma pushed_calls: "pushed el A S b = fold thread_do (calls_of A S b) el"
  using fold_do_wq [of "calls_of A S b" "pending_conns el" "pending_writes el" "el_running el" el] by (simp add: wq_same pushed_def)

lemma phase_call:
  assumes "phase reg el A S b pc el'"
  shows "phase reg el (A @ adds [tc]) (S @ sends [tc]) (b \<or> tc = TC_Stop) pc (thread_do tc el')"
proof (cases pc)
  case (At_writes now_ms evs)
  with assms obtain d w where dw: "pending_writes el @ S = d @ w" "el_running el"
    "el' = wq (pending_conns el @ A) w (\<not> b) (fold apply_write d el)" by auto
  have "pending_writes el @ S @ sends [tc] = d @ w @ sends [tc]"
    "thread_do tc el' = wq (pending_conns el @ A @ adds [tc]) (w @ sends [tc]) (\<not> (b \<or> tc = TC_Stop)) (fold apply_write d el)"
    using dw(1) by (metis append.assoc) (simp add: dw(3) do_wq)
  with dw(2) show ?thesis unfolding At_writes phase.simps by blast
next
  case (At_conns now_ms evs)
  with assms obtain S1 S2 d c where dc: "S = S1 @ S2" "pending_conns el @ A = d @ c" "el_running el"
    "el' = wq c S2 (\<not> b) (drained reg d (pending_writes el @ S1) el)" by auto
  have "pending_conns el @ A @ adds [tc] = d @ c @ adds [tc]" using dc(2) by (metis append.assoc)
  moreover have "S @ sends [tc] = S1 @ S2 @ sends [tc]"
    "thread_do tc el' = wq (c @ adds [tc]) (S2 @ sends [tc]) (\<not> (b \<or> tc = TC_Stop)) (drained reg d (pending_writes el @ S1) el)"
    by (simp_all add: dc(1,4) do_wq)
  ultimately show ?thesis using dc(3) unfolding At_conns phase.simps by blast
next
  case (At_rest now_ms evs)
  with assms obtain S1 S2 A1 A2 where sa: "S = S1 @ S2" "A = A1 @ A2" "el_running el"
    "el' = wq A2 S2 (\<not> b) (drained reg (pending_conns el @ A1) (pending_writes el @ S1) el)" by auto
  have "S @ sends [tc] = S1 @ S2 @ sends [tc]" "A @ adds [tc] = A1 @ A2 @ adds [tc]"
    "thread_do tc el' = wq (A2 @ adds [tc]) (S2 @ sends [tc]) (\<not> (b \<or> tc = TC_Stop))
       (drained reg (pending_conns el @ A1) (pending_writes el @ S1) el)"
    by (simp_all add: sa do_wq)
  with sa(3) show ?thesis unfolding At_rest phase.simps by blast
qed (use assms in \<open>simp_all add: pushed_def do_wq\<close>)

text \<open>The own steps of a round, up to its end.\<close>

lemma phase_write:
  assumes "phase reg el A S b (At_writes now_ms evs) el'" and "pending_writes el' \<noteq> []"
  shows "phase reg el A S b (At_writes now_ms evs) (take_write el')"
proof -
  obtain d w' where w': "pending_writes el @ S = d @ w'" "el_running el"
    "el' = wq (pending_conns el @ A) w' (\<not> b) (fold apply_write d el)"
    using assms(1) unfolding phase.simps by blast
  with assms(2) obtain x w where "w' = x # w" by (cases w') auto
  with w' have dw: "pending_writes el @ S = d @ x # w" "el_running el"
    "el' = wq (pending_conns el @ A) (x # w) (\<not> b) (fold apply_write d el)" by blast+
  have "take_write el' = wq (pending_conns el @ A) w (\<not> b) (fold apply_write (d @ [x]) el)" "pending_writes el @ S = (d @ [x]) @ w"
    by (simp_all add: dw take_front)
  with dw(2) show ?thesis unfolding phase.simps by blast
qed

lemma phase_written:
  assumes "phase reg el A S b (At_writes now_ms evs) el'" and "pending_writes el' = []"
  shows "phase reg el A S b (At_conns now_ms evs) el'"
proof -
  have "S = S @ []" "pending_conns el @ A = [] @ pending_conns el @ A" "el_running el"
    "el' = wq (pending_conns el @ A) [] (\<not> b) (drained reg [] (pending_writes el @ S) el)"
    using assms by (auto simp: drained_def)
  then show ?thesis unfolding phase.simps by blast
qed

lemma phase_conn:
  assumes "phase reg el A S b (At_conns now_ms evs) el'" and "pending_conns el' \<noteq> []"
  shows "phase reg el A S b (At_conns now_ms evs) (take_conn reg el')"
proof -
  obtain S1 S2 d c' where c': "S = S1 @ S2" "pending_conns el @ A = d @ c'" "el_running el"
    "el' = wq c' S2 (\<not> b) (drained reg d (pending_writes el @ S1) el)"
    using assms(1) unfolding phase.simps by blast
  with assms(2) obtain x c where "c' = x # c" by (cases c') auto
  with c' have dc: "S = S1 @ S2" "pending_conns el @ A = d @ x # c" "el_running el"
    "el' = wq (x # c) S2 (\<not> b) (drained reg d (pending_writes el @ S1) el)" by blast+
  have "take_conn reg el' = wq c S2 (\<not> b) (drained reg (d @ [x]) (pending_writes el @ S1) el)" "pending_conns el @ A = (d @ [x]) @ c"
    by (simp_all add: dc take_front drained_def)
  with dc(1,3) show ?thesis unfolding phase.simps by blast
qed

lemma phase_connected:
  assumes "phase reg el A S b (At_conns now_ms evs) el'" and "pending_conns el' = []"
  shows "phase reg el A S b (At_rest now_ms evs) el'"
proof -
  obtain S1 S2 where s: "S = S1 @ S2" "A = A @ []" "el_running el"
    "el' = wq [] S2 (\<not> b) (drained reg (pending_conns el @ A) (pending_writes el @ S1) el)"
    using assms by auto
  then show ?thesis unfolding phase.simps by blast
qed

text \<open>
  At the end of a round: the coarse round, on the calls that came in time, has the same result, and
  the calls that came too late are in the queues.
\<close>

lemma phase_rest:
  assumes "phase reg el A S b (At_rest now_ms evs) el'"
  obtains A1 A2 S1 S2 where "A = A1 @ A2" and "S = S1 @ S2" and "el_running el"
    and "\<And>out el''. rest_of_round wake_fd now_ms evs el' = Inr (out, el'') \<Longrightarrow>
      \<exists>el1. EventLoop_run_iteration wake_fd reg now_ms evs (fold thread_do (calls_of A1 S1 b) el) = Inr (out, el1) \<and> el'' = pushed el1 A2 S2 False"
    and "\<And>e. rest_of_round wake_fd now_ms evs el' = Inl e \<Longrightarrow>
      EventLoop_run_iteration wake_fd reg now_ms evs (fold thread_do (calls_of A1 S1 b) el) = Inl e"
proof -
  obtain S1 S2 A1 A2 where sa: "S = S1 @ S2" "A = A1 @ A2" "el_running el"
    and el': "el' = wq A2 S2 (\<not> b) (drained reg (pending_conns el @ A1) (pending_writes el @ S1) el)"
    using assms by auto
  let ?r = "rest_of_round wake_fd now_ms evs (drained reg (pending_conns el @ A1) (pending_writes el @ S1) el)"
  have it: "EventLoop_run_iteration wake_fd reg now_ms evs (fold thread_do (calls_of A1 S1 b) el) =
      res_bind ?r (\<lambda>(out, el1). Inr (out, wq [] [] (\<not> b) el1))"
    unfolding pushed_calls [symmetric] pushed_def iteration_wq by (simp add: sa(3) drained_def)
  have rs: "rest_of_round wake_fd now_ms evs el' = res_bind ?r (\<lambda>(out, el1). Inr (out, wq A2 S2 (\<not> b) el1))"
    unfolding el' by (rule wq_rest)
  show ?thesis
  proof (rule that [OF sa(2,1,3)])
    show "\<exists>el1. EventLoop_run_iteration wake_fd reg now_ms evs (fold thread_do (calls_of A1 S1 b) el) = Inr (out, el1) \<and> el'' = pushed el1 A2 S2 False"
      if "rest_of_round wake_fd now_ms evs el' = Inr (out, el'')" for out el''
      using that unfolding rs it by (auto simp: res_bind_Inr_iff pushed_def)
    show "EventLoop_run_iteration wake_fd reg now_ms evs (fold thread_do (calls_of A1 S1 b) el) = Inl e"
      if "rest_of_round wake_fd now_ms evs el' = Inl e" for e
      using that unfolding rs it by (auto simp: res_bind_Inl_iff)
  qed
qed

section \<open>Runs\<close>

text \<open>The same calls up to the order between calls that go to different queues.\<close>

definition same_calls :: "thread_call list \<Rightarrow> thread_call list \<Rightarrow> bool" where
  "same_calls cs ds \<longleftrightarrow> adds cs = adds ds \<and> sends cs = sends ds \<and> (TC_Stop \<in> set cs \<longleftrightarrow> TC_Stop \<in> set ds)"

text \<open>A coarse run that has come to \<open>el\<close> and goes on from there.\<close>

definition extends ::
    "int \<Rightarrow> (int \<Rightarrow> bool) \<Rightarrow> event_loop \<Rightarrow> (thread_call list \<times> epoll_answer) list \<Rightarrow> loop_out list \<Rightarrow> event_loop \<Rightarrow> bool" where
  "extends wake_fd reg el0 rs outs el \<longleftrightarrow>
     (\<forall>later. run_rounds wake_fd reg (rs @ later) el0 = res_bind (run_rounds wake_fd reg later el) (\<lambda>(out', el'). Inr (outs @ out', el')))"

lemma extends_start: "extends wake_fd reg el [] [] el"
proof -
  have "r = res_bind r (\<lambda>(out', el'). Inr ([] @ out', el'))" for r :: "timer_fault + loop_out list \<times> event_loop"
    by (cases r) auto
  then show ?thesis unfolding extends_def append_Nil by blast
qed

lemma extends_now: "extends wake_fd reg el0 rs outs el \<Longrightarrow> run_rounds wake_fd reg rs el0 = Inr (outs, el)"
  unfolding extends_def by (drule spec [of _ "[]"]) simp

lemma extends_round:
  assumes "extends wake_fd reg el0 rs outs el" and "el_running el"
  shows "extends wake_fd reg el0 (rs @ [(calls, Interrupted)]) outs (fold thread_do calls el)"
    and "run_rounds wake_fd reg (rs @ [(calls, Wait_failed)]) el0 = Inr (outs, fold thread_do calls el)"
    and "EventLoop_run_iteration wake_fd reg now_ms evs (fold thread_do calls el) = Inr (out, el1) \<Longrightarrow>
      extends wake_fd reg el0 (rs @ [(calls, Reported now_ms evs)]) (outs @ out) el1"
    and "EventLoop_run_iteration wake_fd reg now_ms evs (fold thread_do calls el) = Inl e \<Longrightarrow>
      run_rounds wake_fd reg (rs @ [(calls, Reported now_ms evs)]) el0 = Inl e"
proof -
  have one: "run_rounds wake_fd reg (rs @ (calls, answer) # later) el0 =
      res_bind (run_rounds wake_fd reg ((calls, answer) # later) el) (\<lambda>(out', el'). Inr (outs @ out', el'))" for answer later
    using assms(1) unfolding extends_def by blast
  show "extends wake_fd reg el0 (rs @ [(calls, Interrupted)]) outs (fold thread_do calls el)"
    unfolding extends_def using one [of Interrupted] assms(2) by simp
  show "run_rounds wake_fd reg (rs @ [(calls, Wait_failed)]) el0 = Inr (outs, fold thread_do calls el)"
    using one [of Wait_failed "[]"] assms(2) by simp
  show "extends wake_fd reg el0 (rs @ [(calls, Reported now_ms evs)]) (outs @ out) el1"
    if it: "EventLoop_run_iteration wake_fd reg now_ms evs (fold thread_do calls el) = Inr (out, el1)"
  proof -
    have "run_rounds wake_fd reg (rs @ (calls, Reported now_ms evs) # later) el0 =
        res_bind (run_rounds wake_fd reg later el1) (\<lambda>(out', el'). Inr ((outs @ out) @ out', el'))" for later
      unfolding one using assms(2) by (cases "run_rounds wake_fd reg later el1") (auto simp: it)
    then show ?thesis unfolding extends_def by simp
  qed
  show "run_rounds wake_fd reg (rs @ [(calls, Reported now_ms evs)]) el0 = Inl e"
    if "EventLoop_run_iteration wake_fd reg now_ms evs (fold thread_do calls el) = Inl e"
    unfolding one using that assms(2) by simp
qed

text \<open>What every state of the thread, after the calls \<open>cs\<close>, has to do with some coarse run.\<close>

definition underway :: "int \<Rightarrow> (int \<Rightarrow> bool) \<Rightarrow> event_loop \<Rightarrow> thread_call list \<Rightarrow> loop_thread \<Rightarrow> bool" where
  "underway wake_fd reg el0 cs s \<longleftrightarrow>
     (\<exists>rs el A S b. extends wake_fd reg el0 rs (lt_outs s) el \<and> phase reg el A S b (lt_pc s) (lt_loop s) \<and>
        same_calls (concat (map fst rs) @ calls_of A S b) cs)"

definition observed :: "int \<Rightarrow> (int \<Rightarrow> bool) \<Rightarrow> event_loop \<Rightarrow> thread_call list \<Rightarrow> loop_thread \<Rightarrow> bool" where
  "observed wake_fd reg el0 cs s \<longleftrightarrow>
     (\<exists>rs calls el. run_rounds wake_fd reg rs el0 = Inr (lt_outs s, el) \<and> lt_loop s = fold thread_do calls el \<and>
        same_calls (concat (map fst rs) @ calls) cs)"

definition covered :: "int \<Rightarrow> (int \<Rightarrow> bool) \<Rightarrow> event_loop \<Rightarrow> thread_call list \<Rightarrow> loop_thread \<Rightarrow> bool" where
  "covered wake_fd reg el0 cs s \<longleftrightarrow>
     (case lt_pc s of
        At_end \<Rightarrow> observed wake_fd reg el0 cs s
      | At_fault e \<Rightarrow> \<exists>rs. run_rounds wake_fd reg rs el0 = Inl e
      | _ \<Rightarrow> underway wake_fd reg el0 cs s)"

lemma underwayI:
  "extends wake_fd reg el0 rs (lt_outs s) el \<Longrightarrow> phase reg el A S b (lt_pc s) (lt_loop s) \<Longrightarrow>
   same_calls (concat (map fst rs) @ calls_of A S b) cs \<Longrightarrow> underway wake_fd reg el0 cs s"
  unfolding underway_def by blast

lemma observedI:
  "run_rounds wake_fd reg rs el0 = Inr (lt_outs s, el) \<Longrightarrow> lt_loop s = fold thread_do calls el \<Longrightarrow>
   same_calls (concat (map fst rs) @ calls) cs \<Longrightarrow> observed wake_fd reg el0 cs s"
  unfolding observed_def by blast

lemma underway_covered: "underway wake_fd reg el0 cs s \<Longrightarrow> covered wake_fd reg el0 cs s"
  unfolding covered_def underway_def by (cases "lt_pc s") auto

lemma covered_waiting:
  assumes "covered wake_fd reg el0 cs s" and "lt_pc s = At_wait"
  obtains rs el A S b where "extends wake_fd reg el0 rs (lt_outs s) el" and "el_running el" and "lt_loop s = pushed el A S b"
    and "same_calls (concat (map fst rs) @ calls_of A S b) cs"
  using assms by (auto simp: covered_def underway_def)

lemma underway_observed: "underway wake_fd reg el0 cs s \<Longrightarrow> lt_pc s = At_check \<or> lt_pc s = At_wait \<Longrightarrow> observed wake_fd reg el0 cs s"
  unfolding underway_def observed_def by (metis extends_now phase.simps(1,2) pushed_calls)

lemma same_calls_snoc:
  "same_calls (xs @ calls_of A S b) cs \<Longrightarrow> same_calls (xs @ calls_of (A @ adds [tc]) (S @ sends [tc]) (b \<or> tc = TC_Stop)) (cs @ [tc])"
  "same_calls (xs @ calls) cs \<Longrightarrow> same_calls (xs @ calls @ [tc]) (cs @ [tc])"
  by (auto simp: same_calls_def)

lemma covered_call:
  assumes "covered wake_fd reg el0 cs s"
  shows "covered wake_fd reg el0 (cs @ [tc]) (s\<lparr>lt_loop := thread_do tc (lt_loop s), owed := owed s + 1\<rparr>)"
proof -
  have u: "underway wake_fd reg el0 (cs @ [tc]) (s\<lparr>lt_loop := thread_do tc (lt_loop s), owed := owed s + 1\<rparr>)"
    if ug: "underway wake_fd reg el0 cs s"
  proof -
    obtain rs el A S b where "extends wake_fd reg el0 rs (lt_outs s) el" "phase reg el A S b (lt_pc s) (lt_loop s)"
      "same_calls (concat (map fst rs) @ calls_of A S b) cs"
      using ug unfolding underway_def by blast
    with phase_call [of reg el A S b "lt_pc s" "lt_loop s" tc] same_calls_snoc(1) [of "concat (map fst rs)" A S b cs tc] show ?thesis
      unfolding underway_def by fastforce
  qed
  have ob: "observed wake_fd reg el0 (cs @ [tc]) (s\<lparr>lt_loop := thread_do tc (lt_loop s), owed := owed s + 1\<rparr>)"
    if obs: "observed wake_fd reg el0 cs s"
  proof -
    obtain rs calls el where r: "run_rounds wake_fd reg rs el0 = Inr (lt_outs s, el)" "lt_loop s = fold thread_do calls el"
      "same_calls (concat (map fst rs) @ calls) cs"
      using obs unfolding observed_def by blast
    have "thread_do tc (lt_loop s) = fold thread_do (calls @ [tc]) el" by (simp add: r(2))
    with r(1) same_calls_snoc(2) [OF r(3), of tc] show ?thesis by (intro observedI [of wake_fd reg rs el0 _ el]) simp_all
  qed
  from assms u ob show ?thesis by (auto simp: covered_def split: loop_pc.splits)
qed

lemma covered_step:
  assumes "covered wake_fd reg el0 cs s" and "fine_step wake_fd reg s l s'"
  shows "covered wake_fd reg el0 (cs @ (case l of None \<Rightarrow> [] | Some tc \<Rightarrow> [tc])) s'"
  using assms(2)
proof cases
  case (call tc)
  with covered_call [OF assms(1)] show ?thesis by simp
next
  case wake
  with assms(1) show ?thesis
    by (auto simp: covered_def underway_def observed_def EventLoop_wake_def split: loop_pc.splits)
next
  case enter
  with assms(1) show ?thesis by (fastforce simp: covered_def underway_def pushed_def)
next
  case leave
  with assms(1) underway_observed [of wake_fd reg el0 cs s] show ?thesis by (simp add: covered_def observed_def)
next
  case interrupted
  obtain rs el A S b where r: "extends wake_fd reg el0 rs (lt_outs s) el" "el_running el" "lt_loop s = pushed el A S b"
    "same_calls (concat (map fst rs) @ calls_of A S b) cs"
    using covered_waiting [OF assms(1) interrupted(3)] .
  have "phase reg (lt_loop s) [] [] False At_check (lt_loop s)" by (simp add: pushed_def wq_same)
  with extends_round(1) [OF r(1,2), of "calls_of A S b"] r(3,4) have "underway wake_fd reg el0 cs s'"
    by (intro underwayI [where rs = "rs @ [(calls_of A S b, Interrupted)]" and el = "lt_loop s" and A = "[]" and S = "[]" and b = False])
       (simp_all add: interrupted pushed_calls same_calls_def del: phase.simps)
  then show ?thesis by (simp add: interrupted(1) underway_covered)
next
  case failed
  obtain rs el A S b where r: "extends wake_fd reg el0 rs (lt_outs s) el" "el_running el" "lt_loop s = pushed el A S b"
    "same_calls (concat (map fst rs) @ calls_of A S b) cs"
    using covered_waiting [OF assms(1) failed(3)] .
  with extends_round(2) [OF r(1,2), of "calls_of A S b"] have "observed wake_fd reg el0 cs s'"
    by (intro observedI [where rs = "rs @ [(calls_of A S b, Wait_failed)]" and calls = "[]"]) (simp_all add: failed pushed_calls)
  then show ?thesis by (simp add: failed covered_def)
next
  case (returned evs now_ms)
  obtain rs el A S b where r: "extends wake_fd reg el0 rs (lt_outs s) el" "el_running el" "lt_loop s = pushed el A S b"
    "same_calls (concat (map fst rs) @ calls_of A S b) cs"
    using covered_waiting [OF assms(1) returned(3)] .
  have "pending_writes el @ S = [] @ pending_writes el @ S"
    "lt_loop s = wq (pending_conns el @ A) (pending_writes el @ S) (\<not> b) (fold apply_write [] el)"
    using r(2,3) by (simp_all add: pushed_def)
  with r(2) have "phase reg el A S b (At_writes now_ms evs) (lt_loop s)" unfolding phase.simps by blast
  with r returned show ?thesis by (intro underway_covered underwayI [where rs = rs and el = el]) (simp_all del: phase.simps)
next
  case (take_w now_ms evs)
  with assms(1) phase_write show ?thesis by (fastforce simp: covered_def underway_def simp del: phase.simps)
next
  case (written now_ms evs)
  with assms(1) phase_written show ?thesis by (fastforce simp: covered_def underway_def simp del: phase.simps)
next
  case (conn now_ms evs)
  with assms(1) phase_conn show ?thesis by (fastforce simp: covered_def underway_def simp del: phase.simps)
next
  case (connected now_ms evs)
  with assms(1) phase_connected show ?thesis by (fastforce simp: covered_def underway_def simp del: phase.simps)
next
  case (rest now_ms evs out el')
  with assms(1) obtain rs el A S b where r: "extends wake_fd reg el0 rs (lt_outs s) el" "phase reg el A S b (At_rest now_ms evs) (lt_loop s)"
    "same_calls (concat (map fst rs) @ calls_of A S b) cs"
    unfolding covered_def underway_def by fastforce
  obtain A1 A2 S1 S2 el1 where sp: "A = A1 @ A2" "S = S1 @ S2" "el_running el"
    and it: "EventLoop_run_iteration wake_fd reg now_ms evs (fold thread_do (calls_of A1 S1 b) el) = Inr (out, el1)"
    and el': "el' = pushed el1 A2 S2 False"
    using rest(4) phase_rest [OF r(2), of wake_fd] by metis
  have "phase reg el1 A2 S2 False At_check el'" by (simp add: el')
  moreover have "same_calls (concat (map fst (rs @ [(calls_of A1 S1 b, Reported now_ms evs)])) @ calls_of A2 S2 False) cs"
    using r(3) by (auto simp: same_calls_def sp)
  ultimately show ?thesis
    using extends_round(3) [OF r(1) sp(3) it] rest(1,2) unfolding covered_def underway_def by fastforce
next
  case (fault now_ms evs e)
  with assms(1) obtain rs el A S b where r: "extends wake_fd reg el0 rs (lt_outs s) el" "phase reg el A S b (At_rest now_ms evs) (lt_loop s)"
    unfolding covered_def underway_def by fastforce
  obtain A1 S1 where it: "el_running el"
    "EventLoop_run_iteration wake_fd reg now_ms evs (fold thread_do (calls_of A1 S1 b) el) = Inl e"
    using fault(4) phase_rest [OF r(2), of wake_fd] by metis
  have "\<exists>rs. run_rounds wake_fd reg rs el0 = Inl e" using extends_round(4) [OF r(1) it] by blast
  with fault(2) show ?thesis by (simp add: covered_def)
qed

lemma covered_run:
  assumes "fine_run wake_fd reg s0 cs s" and "covered wake_fd reg el0 [] s0"
  shows "covered wake_fd reg el0 cs s"
  using assms by (induction rule: fine_run.induct) (auto intro: covered_step)

lemma covered_start: "covered wake_fd reg (el\<lparr>el_running := True\<rparr>) [] (thread_start el)"
proof -
  let ?el = "el\<lparr>el_running := True\<rparr>"
  have "phase reg ?el [] [] False At_check ?el" by (simp add: pushed_def wq_def)
  with extends_start [of wake_fd reg ?el] show ?thesis
    by (intro underway_covered underwayI [where rs = "[]" and el = ?el and A = "[]" and S = "[]" and b = False])
       (simp_all add: thread_start_def same_calls_def del: phase.simps)
qed

section \<open>The main theorem\<close>

text \<open>
  C5. A round of an I/O loop is atomic. Whatever other threads do while the loop drains its queues and
  handles its events, the loop ends a round, or its run, as a run would in which every round is a single
  step and the calls of other threads come only while the loop waits, followed by calls that are still
  in the queues: with the same reports to the server, the same connections and timers. No call is lost
  or duplicated, connections and messages each keep their order, and a round that is undefined behaviour
  in the one is so in the other.
\<close>

theorem rounds_are_atomic:
  assumes "fine_run wake_fd reg (thread_start el) cs s"
  shows "(lt_pc s \<in> {At_check, At_end} \<longrightarrow>
      (\<exists>rs calls el'. EventLoop_run wake_fd reg rs el = Inr (lt_outs s, el') \<and> lt_loop s = fold thread_do calls el' \<and>
         same_calls (concat (map fst rs) @ calls) cs)) \<and>
    (\<forall>e. lt_pc s = At_fault e \<longrightarrow> (\<exists>rs. EventLoop_run wake_fd reg rs el = Inl e))"
proof -
  have "covered wake_fd reg (el\<lparr>el_running := True\<rparr>) cs s" by (rule covered_run [OF assms covered_start])
  then show ?thesis
    using underway_observed [of wake_fd reg "el\<lparr>el_running := True\<rparr>" cs s]
    by (auto simp: covered_def observed_def EventLoop_run_def split: loop_pc.splits)
qed

section \<open>A lost wake-up\<close>

lemma run_tau: "fine_run wake_fd reg s0 cs s \<Longrightarrow> fine_step wake_fd reg s None s' \<Longrightarrow> fine_run wake_fd reg s0 cs s'"
  using fine_run.step [of wake_fd reg s0 cs s None s'] by simp

lemma run_call:
  "fine_run wake_fd reg s0 cs s \<Longrightarrow>
   fine_run wake_fd reg s0 (cs @ [tc]) (s\<lparr>lt_loop := thread_do tc (lt_loop s), owed := owed s + 1\<rparr>)"
  using fine_run.step [OF _ fine_step.call] by fastforce

text \<open>A message and its wake-up, and a second message and its wake-up after the queue was drained.\<close>

definition wake_event :: epoll_ev where
  "wake_event = \<lparr>ev_fd = 5, ev_in = True, ev_out = False, ev_now = 0, ev_read = (\<lambda>_. Inl EAGAIN), ev_write = (\<lambda>_. Inl EAGAIN)\<rparr>"

definition idle_loop :: "(conn_id \<times> bytes) list \<Rightarrow> event_loop" where
  "idle_loop W = wq [] W True EventLoop_new"

definition idle_thread :: "loop_pc \<Rightarrow> (conn_id \<times> bytes) list \<Rightarrow> nat \<Rightarrow> nat \<Rightarrow> loop_thread" where
  "idle_thread pc W n m = \<lparr>lt_loop = idle_loop W, lt_pc = pc, lt_outs = [], wake_count = n, owed = m\<rparr>"

lemma idle_steps:
  "el_running (idle_loop W)" "pending_writes (idle_loop W) = W" "pending_conns (idle_loop W) = []"
  "take_write (idle_loop ((i, data) # W)) = idle_loop W" "EventLoop_sendToConnection i data (idle_loop W) = idle_loop (W @ [(i, data)])"
  by (simp_all add: idle_loop_def take_front) (simp_all add: with_conn_def EventLoop_new_def EventLoop_sendToConnection_def wq_def)

lemma idle_rest:
  "\<exists>el. rest_of_round 5 0 [wake_event] (idle_loop W) = Inr ([], wq [] W True el)"
  by (simp add: idle_loop_def rest_of_round_def wake_event_def handle_event_def EventLoop_checkTimeouts_def queue_free
      EventLoop_cleanupClosed_def EventLoop_new_def TimerWheel_tick_def TimerWheel_new_def kSlots_def) (rule exI, rule refl)

lemma lost_run:
  "\<exists>el. fine_run 5 reg (thread_start EventLoop_new) [TC_Send 1 [3], TC_Send 1 [4]]
     \<lparr>lt_loop = wq [] [(1, [4])] True el, lt_pc = At_check, lt_outs = [], wake_count = 0, owed = 0\<rparr>"
proof -
  let ?run = "fine_run 5 reg (thread_start EventLoop_new)"
  note idle_simps = idle_thread_def idle_steps EventLoop_wake_def numeral_2_eq_2
  have "thread_start EventLoop_new = idle_thread At_check [] 0 0"
    by (simp add: thread_start_def idle_thread_def idle_loop_def wq_def EventLoop_new_def)
  then have "?run [] (idle_thread At_check [] 0 0)" using fine_run.start by metis
  then have "?run [] (idle_thread At_wait [] 0 0)"
    by (rule run_tau) (use fine_step.enter [of "idle_thread At_check [] 0 0"] in \<open>simp add: idle_simps\<close>)
  from run_call [OF this, of "TC_Send 1 [3]"] have "?run [TC_Send 1 [3]] (idle_thread At_wait [(1, [3])] 0 1)"
    by (simp add: idle_simps)
  then have "?run [TC_Send 1 [3]] (idle_thread At_wait [(1, [3])] 1 0)"
    by (rule run_tau) (use fine_step.wake [of "idle_thread At_wait [(1, [3])] 0 1"] in \<open>simp add: idle_simps\<close>)
  then have "?run [TC_Send 1 [3]] (idle_thread (At_writes 0 [wake_event]) [(1, [3])] 1 0)"
    by (rule run_tau) (use fine_step.returned [of "idle_thread At_wait [(1, [3])] 1 0"] in \<open>simp add: idle_simps\<close>)
  then have "?run [TC_Send 1 [3]] (idle_thread (At_writes 0 [wake_event]) [] 1 0)"
    by (rule run_tau) (use fine_step.take_w [of "idle_thread (At_writes 0 [wake_event]) [(1, [3])] 1 0"] in \<open>simp add: idle_simps\<close>)
  then have "?run [TC_Send 1 [3]] (idle_thread (At_conns 0 [wake_event]) [] 1 0)"
    by (rule run_tau) (use fine_step.written [of "idle_thread (At_writes 0 [wake_event]) [] 1 0"] in \<open>simp add: idle_simps\<close>)
  from run_call [OF this, of "TC_Send 1 [4]"] have "?run [TC_Send 1 [3], TC_Send 1 [4]] (idle_thread (At_conns 0 [wake_event]) [(1, [4])] 1 1)"
    by (simp add: idle_simps)
  then have "?run [TC_Send 1 [3], TC_Send 1 [4]] (idle_thread (At_conns 0 [wake_event]) [(1, [4])] 2 0)"
    by (rule run_tau) (use fine_step.wake [of "idle_thread (At_conns 0 [wake_event]) [(1, [4])] 1 1"] in \<open>simp add: idle_simps\<close>)
  then have last: "?run [TC_Send 1 [3], TC_Send 1 [4]] (idle_thread (At_rest 0 [wake_event]) [(1, [4])] 2 0)"
    by (rule run_tau) (use fine_step.connected [of "idle_thread (At_conns 0 [wake_event]) [(1, [4])] 2 0"] in \<open>simp add: idle_simps\<close>)
  obtain el where "rest_of_round 5 0 [wake_event] (idle_loop [(1, [4])]) = Inr ([], wq [] [(1, [4])] True el)"
    using idle_rest by blast
  moreover have "woken 5 [wake_event]" by (simp add: woken_def wake_event_def)
  ultimately have "fine_step 5 reg (idle_thread (At_rest 0 [wake_event]) [(1, [4])] 2 0) None
     \<lparr>lt_loop = wq [] [(1, [4])] True el, lt_pc = At_check, lt_outs = [], wake_count = 0, owed = 0\<rparr>"
    using fine_step.rest [of "idle_thread (At_rest 0 [wake_event]) [(1, [4])] 2 0" 0 "[wake_event]" 5 "[]"] by (simp add: idle_thread_def)
  from run_tau [OF last this] show ?thesis by blast
qed

theorem rounds_are_atomic_witness:
  "\<exists>rs calls el. EventLoop_run 5 (\<lambda>fd. True) rs EventLoop_new = Inr ([], el) \<and>
     pending_writes (fold thread_do calls el) = [(1, [4])] \<and> sends (concat (map fst rs) @ calls) = [(1, [3]), (1, [4])]"
proof -
  obtain el where run: "fine_run 5 (\<lambda>fd. True) (thread_start EventLoop_new) [TC_Send 1 [3], TC_Send 1 [4]]
     \<lparr>lt_loop = wq [] [(1, [4])] True el, lt_pc = At_check, lt_outs = [], wake_count = 0, owed = 0\<rparr>"
    using lost_run by blast
  from rounds_are_atomic [OF run] obtain rs calls el' where
    "EventLoop_run 5 (\<lambda>fd. True) rs EventLoop_new = Inr ([], el')" "wq [] [(1, [4])] True el = fold thread_do calls el'"
    "same_calls (concat (map fst rs) @ calls) [TC_Send 1 [3], TC_Send 1 [4]]"
    by auto
  moreover from this(2) have "pending_writes (fold thread_do calls el') = [(1, [4])]" by (metis wq_select(2))
  ultimately show ?thesis by (auto simp: same_calls_def)
qed

text \<open>
  A wake-up can be lost: the loop drains the queue of messages before it reads the eventfd, so a message
  queued in between is waiting when the loop goes to sleep with nothing left to wake it. Every
  return of \<open>epoll_wait\<close> from there is one without the event of the eventfd, as after the timeout.
\<close>

theorem wakeup_lost:
  "\<exists>cs s. fine_run 5 (\<lambda>fd. True) (thread_start EventLoop_new) cs s \<and> lt_pc s = At_wait \<and> pending_writes (lt_loop s) \<noteq> [] \<and>
     owed s = 0 \<and> (\<forall>s' now_ms evs. fine_step 5 (\<lambda>fd. True) s None s' \<and> lt_pc s' = At_writes now_ms evs \<longrightarrow> \<not> woken 5 evs)"
proof -
  obtain el where run: "fine_run 5 (\<lambda>fd. True) (thread_start EventLoop_new) [TC_Send 1 [3], TC_Send 1 [4]]
     \<lparr>lt_loop = wq [] [(1, [4])] True el, lt_pc = At_check, lt_outs = [], wake_count = 0, owed = 0\<rparr>"
    using lost_run by blast
  let ?s = "\<lparr>lt_loop = wq [] [(1, [4])] True el, lt_pc = At_wait, lt_outs = [], wake_count = 0, owed = 0\<rparr>"
  have "fine_run 5 (\<lambda>fd. True) (thread_start EventLoop_new) [TC_Send 1 [3], TC_Send 1 [4]] ?s"
    by (rule run_tau [OF run]) (use fine_step.enter [of "?s\<lparr>lt_pc := At_check\<rparr>"] in simp)
  moreover have "\<not> woken 5 evs" if "fine_step 5 (\<lambda>fd. True) ?s None s'" "lt_pc s' = At_writes now_ms evs" for s' now_ms evs
    using that by (auto elim!: fine_step.cases)
  ultimately show ?thesis by fastforce
qed

end
