(* ===== verification/Socket.thy ===== *)
theory Socket
  imports Prelude
begin

text \<open>
  \<open>src/src/network/socket.{h,cpp}\<close>: the owner of one descriptor. The kernel's side is a table of the open
  sockets with what the calls of this file set on them; which descriptor a call gives, and whether it
  succeeds, are the kernel's answers and arguments. Sockets can be moved and not copied, and the
  theorem of this file is about every program that creates, accepts, moves, closes and destroys them:
  a descriptor is open exactly as long as one socket owns it.
\<close>

section \<open>State\<close>

record socket =
  sock_fd :: int

record ksock =
  opt_reuse_addr :: bool
  opt_no_delay :: bool
  sin_port :: "u16 option"
  backlog :: "int option"

type_synonym sock_kernel = "(int, ksock) umap"

definition ksock_new :: ksock where
  "ksock_new = \<lparr>opt_reuse_addr = False, opt_no_delay = False, sin_port = None, backlog = None\<rparr>"

datatype sock_fault = Socket_failed | Bind_failed | Listen_failed | Accept_error

definition ksock_modify :: "int \<Rightarrow> (ksock \<Rightarrow> ksock) \<Rightarrow> sock_kernel \<Rightarrow> sock_kernel" where
  "ksock_modify fd f k = (case uget k fd of None \<Rightarrow> k | Some s \<Rightarrow> uput fd (f s) k)"

section \<open>Operations\<close>

definition Socket_default :: socket where
  "Socket_default = \<lparr>sock_fd = - 1\<rparr>"

definition Socket_valid :: "socket \<Rightarrow> bool" where
  "Socket_valid s \<longleftrightarrow> sock_fd s \<ge> 0"

definition Socket_close :: "socket \<Rightarrow> sock_kernel \<Rightarrow> socket \<times> sock_kernel" where
  "Socket_close s k = (if sock_fd s \<ge> 0 then (s\<lparr>sock_fd := - 1\<rparr>, uerase (sock_fd s) k) else (s, k))"

definition Socket_destroy :: "socket \<Rightarrow> sock_kernel \<Rightarrow> sock_kernel" where
  "Socket_destroy s k = snd (Socket_close s k)"

text \<open>The move constructor: the new socket and what is left of the old one.\<close>

definition Socket_move :: "socket \<Rightarrow> socket \<times> socket" where
  "Socket_move other = (\<lparr>sock_fd = sock_fd other\<rparr>, other\<lparr>sock_fd := - 1\<rparr>)"

text \<open>Move assignment from a different socket; an assignment to itself does nothing.\<close>

definition Socket_move_assign :: "socket \<Rightarrow> socket \<Rightarrow> sock_kernel \<Rightarrow> socket \<times> socket \<times> sock_kernel" where
  "Socket_move_assign this other k =
     (let (this1, k1) = Socket_close this k
      in (this1\<lparr>sock_fd := sock_fd other\<rparr>, other\<lparr>sock_fd := - 1\<rparr>, k1))"

definition Socket_createTcp :: "int option \<Rightarrow> sock_kernel \<Rightarrow> sock_fault + socket \<times> sock_kernel" where
  "Socket_createTcp answer k =
     (case answer of
        None \<Rightarrow> Inl Socket_failed
      | Some fd \<Rightarrow> Inr (\<lparr>sock_fd = fd\<rparr>, uput fd ksock_new k))"

text \<open>A failure to set an option is logged and nothing else.\<close>

definition Socket_setReuseAddr :: "bool \<Rightarrow> socket \<Rightarrow> sock_kernel \<Rightarrow> sock_kernel" where
  "Socket_setReuseAddr ok s k = (if ok then ksock_modify (sock_fd s) (\<lambda>x. x\<lparr>opt_reuse_addr := True\<rparr>) k else k)"

definition Socket_setNoDelay :: "bool \<Rightarrow> socket \<Rightarrow> sock_kernel \<Rightarrow> sock_kernel" where
  "Socket_setNoDelay ok s k = (if ok then ksock_modify (sock_fd s) (\<lambda>x. x\<lparr>opt_no_delay := True\<rparr>) k else k)"

definition Socket_bind :: "bool \<Rightarrow> u16 \<Rightarrow> socket \<Rightarrow> sock_kernel \<Rightarrow> sock_fault + sock_kernel" where
  "Socket_bind ok port s k =
     (if ok then Inr (ksock_modify (sock_fd s) (\<lambda>x. x\<lparr>sin_port := Some port\<rparr>) k) else Inl Bind_failed)"

definition Socket_listen :: "bool \<Rightarrow> int \<Rightarrow> socket \<Rightarrow> sock_kernel \<Rightarrow> sock_fault + sock_kernel" where
  "Socket_listen ok n s k =
     (if ok then Inr (ksock_modify (sock_fd s) (\<lambda>x. x\<lparr>backlog := Some n\<rparr>) k) else Inl Listen_failed)"

datatype accept_outcome = Accepted int | No_pending | Accept_failed

text \<open>\<open>EAGAIN\<close> gives a socket that is not valid; any other error is thrown.\<close>

definition Socket_accept :: "accept_outcome \<Rightarrow> sock_kernel \<Rightarrow> sock_fault + socket \<times> sock_kernel" where
  "Socket_accept answer k =
     (case answer of
        Accepted fd \<Rightarrow> Inr (\<lparr>sock_fd = fd\<rparr>, uput fd ksock_new k)
      | No_pending \<Rightarrow> Inr (Socket_default, k)
      | Accept_failed \<Rightarrow> Inl Accept_error)"

section \<open>Programs over sockets\<close>

text \<open>The variables that hold sockets, by name, and the kernel.\<close>

type_synonym sock_state = "(nat, socket) umap \<times> sock_kernel"

datatype sock_op =
    SK_Default nat
  | SK_Create nat "int option"
  | SK_Accept nat accept_outcome
  | SK_Move nat nat
  | SK_Assign nat nat
  | SK_Option nat bool
  | SK_Bind nat bool u16
  | SK_Close nat
  | SK_Destroy nat

text \<open>What an exception leaves of the state: the variable was not initialised.\<close>

fun sock_new :: "nat \<Rightarrow> sock_state \<Rightarrow> sock_fault + socket \<times> sock_kernel \<Rightarrow> sock_state" where
  "sock_new x st (Inl e) = st"
| "sock_new x st (Inr (s, k)) = (uput x s (fst st), k)"

definition with_sock :: "nat \<Rightarrow> (socket \<Rightarrow> sock_state) \<Rightarrow> sock_state \<Rightarrow> sock_state" where
  "with_sock x f st = (case uget (fst st) x of None \<Rightarrow> st | Some s \<Rightarrow> f s)"

fun sock_step :: "sock_state \<Rightarrow> sock_op \<Rightarrow> sock_state" where
  "sock_step (ss, k) (SK_Default x) = (uput x Socket_default ss, k)"
| "sock_step (ss, k) (SK_Create x answer) = sock_new x (ss, k) (Socket_createTcp answer k)"
| "sock_step (ss, k) (SK_Accept x answer) = sock_new x (ss, k) (Socket_accept answer k)"
| "sock_step (ss, k) (SK_Move x y) =
     with_sock y (\<lambda>other. let (s, other') = Socket_move other in (uput x s (uput y other' ss), k)) (ss, k)"
| "sock_step (ss, k) (SK_Assign x y) =
     (if x = y then (ss, k)
      else with_sock x (\<lambda>this. with_sock y (\<lambda>other.
             let (this', other', k') = Socket_move_assign this other k in (uput x this' (uput y other' ss), k')) (ss, k)) (ss, k))"
| "sock_step (ss, k) (SK_Option x ok) = with_sock x (\<lambda>s. (ss, Socket_setReuseAddr ok s (Socket_setNoDelay ok s k))) (ss, k)"
| "sock_step (ss, k) (SK_Bind x ok port) =
     with_sock x (\<lambda>s. case Socket_bind ok port s k of Inl e \<Rightarrow> (ss, k) | Inr k' \<Rightarrow> (ss, k')) (ss, k)"
| "sock_step (ss, k) (SK_Close x) = with_sock x (\<lambda>s. let (s', k') = Socket_close s k in (uput x s' ss, k')) (ss, k)"
| "sock_step (ss, k) (SK_Destroy x) = with_sock x (\<lambda>s. (uerase x ss, Socket_destroy s k)) (ss, k)"

text \<open>
  Variables are initialised once, and the kernel gives out descriptors that are not negative and not open.
\<close>

definition new_fd :: "int \<Rightarrow> sock_kernel \<Rightarrow> bool" where
  "new_fd fd k \<longleftrightarrow> fd \<ge> 0 \<and> uget k fd = None"

fun sock_ok :: "sock_state \<Rightarrow> sock_op \<Rightarrow> bool" where
  "sock_ok (ss, k) (SK_Default x) \<longleftrightarrow> uget ss x = None"
| "sock_ok (ss, k) (SK_Create x answer) \<longleftrightarrow> uget ss x = None \<and> (\<forall>fd \<in> set_option answer. new_fd fd k)"
| "sock_ok (ss, k) (SK_Accept x answer) \<longleftrightarrow>
     uget ss x = None \<and> (case answer of Accepted fd \<Rightarrow> new_fd fd k | _ \<Rightarrow> True)"
| "sock_ok (ss, k) (SK_Move x y) \<longleftrightarrow> uget ss x = None"
| "sock_ok st _ \<longleftrightarrow> True"

section \<open>Ownership\<close>

definition owns :: "(nat, socket) umap \<Rightarrow> nat \<Rightarrow> int \<Rightarrow> bool" where
  "owns ss x fd \<longleftrightarrow> fd \<ge> 0 \<and> (\<exists>s. uget ss x = Some s \<and> sock_fd s = fd)"

definition sock_inv :: "sock_state \<Rightarrow> bool" where
  "sock_inv st \<longleftrightarrow>
     (\<forall>fd. uget (snd st) fd \<noteq> None \<longleftrightarrow> (\<exists>x. owns (fst st) x fd)) \<and>
     (\<forall>x y fd. owns (fst st) x fd \<longrightarrow> owns (fst st) y fd \<longrightarrow> x = y)"

lemma owns_uput: "owns (uput x s ss) y fd \<longleftrightarrow> (if y = x then fd \<ge> 0 \<and> sock_fd s = fd else owns ss y fd)"
  by (auto simp: owns_def)

lemma owns_uerase: "owns (uerase x ss) y fd \<longleftrightarrow> y \<noteq> x \<and> owns ss y fd"
  by (auto simp: owns_def)

lemma owns_self: "uget ss x = Some s \<Longrightarrow> owns ss x fd \<longleftrightarrow> fd \<ge> 0 \<and> sock_fd s = fd"
  by (auto simp: owns_def)

lemma owns_none: "uget ss x = None \<Longrightarrow> \<not> owns ss x fd"
  by (auto simp: owns_def)

lemma ksock_modify_open [simp]: "uget (ksock_modify fd f k) fd' = None \<longleftrightarrow> uget k fd' = None"
  by (auto simp: ksock_modify_def split: option.splits)

lemma ksock_modify_some [simp]: "(\<exists>y. uget (ksock_modify fd f k) fd' = Some y) \<longleftrightarrow> (\<exists>y. uget k fd' = Some y)"
  using ksock_modify_open [of fd f k fd'] by (simp flip: not_None_eq)

lemmas socket_defs = Socket_default_def Socket_close_def Socket_destroy_def Socket_move_def Socket_move_assign_def
  Socket_createTcp_def Socket_accept_def Socket_setReuseAddr_def Socket_setNoDelay_def Socket_bind_def

lemma sock_invI:
  assumes "\<And>fd. uget k fd \<noteq> None \<longleftrightarrow> (\<exists>x. owns ss x fd)" and "\<And>x y fd. owns ss x fd \<Longrightarrow> owns ss y fd \<Longrightarrow> x = y"
  shows "sock_inv (ss, k)"
  using assms unfolding sock_inv_def fst_conv snd_conv by blast

lemma sock_invD:
  assumes "sock_inv (ss, k)"
  shows "uget k fd \<noteq> None \<longleftrightarrow> (\<exists>x. owns ss x fd)" and "owns ss x fd \<Longrightarrow> owns ss y fd \<Longrightarrow> x = y"
  using assms unfolding sock_inv_def fst_conv snd_conv by blast+

lemma sock_inv_new:
  assumes "sock_inv (ss, k)" and "uget ss x = None" and "new_fd fd k"
  shows "sock_inv (uput x \<lparr>sock_fd = fd\<rparr> ss, uput fd ksock_new k)"
proof (rule sock_invI)
  note inv = sock_invD [OF assms(1)]
  have free: "\<not> owns ss y fd" for y using inv(1) [of fd] assms(3) by (auto simp: new_fd_def)
  show "uget (uput fd ksock_new k) f \<noteq> None \<longleftrightarrow> (\<exists>y. owns (uput x \<lparr>sock_fd = fd\<rparr> ss) y f)" for f
  proof (cases "f = fd")
    case True
    then show ?thesis using assms(3) by (auto simp: owns_uput new_fd_def)
  next
    case False
    then have "owns (uput x \<lparr>sock_fd = fd\<rparr> ss) y f \<longleftrightarrow> owns ss y f" for y
      using owns_none [OF assms(2), of f] by (auto simp: owns_uput)
    with False inv(1) [of f] show ?thesis by (simp only: uget_uput) simp
  qed
  show "y = z" if "owns (uput x \<lparr>sock_fd = fd\<rparr> ss) y f" "owns (uput x \<lparr>sock_fd = fd\<rparr> ss) z f" for y z f
    using that inv(2) [of y f z] free by (auto simp: owns_uput split: if_splits)
qed

lemma sock_inv_cong:
  assumes "sock_inv (ss, k)" and "\<And>x fd. owns ss' x fd \<longleftrightarrow> owns ss x fd" and "\<And>fd. uget k' fd = None \<longleftrightarrow> uget k fd = None"
  shows "sock_inv (ss', k')"
  using assms by (simp add: sock_inv_def)

lemma sock_inv_close:
  assumes "sock_inv (ss, k)" and "uget ss x = Some s" and "sock_fd s \<ge> 0"
    and "\<And>y fd. owns ss' y fd \<longleftrightarrow> y \<noteq> x \<and> owns ss y fd"
  shows "sock_inv (ss', uerase (sock_fd s) k)"
proof (rule sock_invI)
  note inv = sock_invD [OF assms(1)] and own = owns_self [OF assms(2)]
  show "uget (uerase (sock_fd s) k) f \<noteq> None \<longleftrightarrow> (\<exists>y. owns ss' y f)" for f
  proof (cases "f = sock_fd s")
    case True
    then have "\<not> owns ss' y f" for y using inv(2) [of x f y] own [of f] assms(3,4) by blast
    with True show ?thesis by simp
  next
    case False
    then have "owns ss' y f \<longleftrightarrow> owns ss y f" for y using own [of f] assms(4) by blast
    with False inv(1) [of f] show ?thesis by (simp only: uget_uerase) simp
  qed
  show "y = z" if "owns ss' y f" "owns ss' z f" for y z f
    using that inv(2) assms(4) by blast
qed

lemma sock_inv_closed:
  assumes "sock_inv (ss, k)" and "uget ss x = Some s" and "\<And>y fd. owns ss' y fd \<longleftrightarrow> y \<noteq> x \<and> owns ss y fd"
  shows "sock_inv (ss', snd (Socket_close s k))"
proof (cases "sock_fd s \<ge> 0")
  case True
  with sock_inv_close [OF assms(1,2) True assms(3)] show ?thesis by (simp add: Socket_close_def)
next
  case False
  then have "owns ss' y f \<longleftrightarrow> owns ss y f" for y f using owns_self [OF assms(2), of f] assms(3) by auto
  with False sock_inv_cong [OF assms(1), of ss' k] show ?thesis by (simp add: Socket_close_def)
qed

lemma sock_inv_move:
  assumes "sock_inv (ss, k)" and "uget ss y = Some other" and "x \<noteq> y" and "\<And>fd. \<not> owns ss x fd"
  shows "sock_inv (uput x \<lparr>sock_fd = sock_fd other\<rparr> (uput y (other\<lparr>sock_fd := - 1\<rparr>) ss), k)"
proof (rule sock_invI)
  note inv = sock_invD [OF assms(1)] and own = owns_self [OF assms(2)]
  let ?ss = "uput x \<lparr>sock_fd = sock_fd other\<rparr> (uput y (other\<lparr>sock_fd := - 1\<rparr>) ss)"
  have o: "owns ?ss z f \<longleftrightarrow> (if z = x then owns ss y f else z \<noteq> y \<and> owns ss z f)" for z f
    using own [of f] assms(3) by (auto simp: owns_uput)
  show "uget k f \<noteq> None \<longleftrightarrow> (\<exists>z. owns ?ss z f)" for f
    using inv(1) [of f] assms(3,4) unfolding o by metis
  show "z = z'" if "owns ?ss z f" "owns ?ss z' f" for z z' f
    using that inv(2) [of z f z'] inv(2) [of y f z] inv(2) [of y f z'] unfolding o by (auto split: if_splits)
qed

lemma sock_inv_assign:
  assumes "sock_inv (ss, k)" and "uget ss x = Some this" and "uget ss y = Some other" and "x \<noteq> y"
    and "Socket_move_assign this other k = (this', other', k')"
  shows "sock_inv (uput x this' (uput y other' ss), k')"
proof -
  have r: "this' = \<lparr>sock_fd = sock_fd other\<rparr>" "other' = other\<lparr>sock_fd := - 1\<rparr>" "k' = snd (Socket_close this k)"
    using assms(5) by (auto simp: Socket_move_assign_def case_prod_beta Let_def Socket_close_def split: if_splits)
  let ?ss = "uerase x ss"
  have "sock_inv (?ss, k')"
    unfolding r(3) by (rule sock_inv_closed [OF assms(1,2)]) (rule owns_uerase)
  then have "sock_inv (uput x this' (uput y other' ?ss), k')"
    unfolding r(1,2) by (rule sock_inv_move) (use assms(3,4) in \<open>auto simp: owns_uerase\<close>)
  then show ?thesis by (rule sock_inv_cong) (auto simp: owns_uput owns_uerase)
qed

lemma sock_step_inv:
  assumes "sock_inv st" and "sock_ok st oper"
  shows "sock_inv (sock_step st oper)"
proof -
  obtain ss k where st: "st = (ss, k)" by (cases st)
  note inv = assms(1) [unfolded st] and ok = assms(2) [unfolded st]
  have default: "sock_inv (uput x \<lparr>sock_fd = - 1\<rparr> ss, k)" if "uget ss x = None" for x
    by (rule sock_inv_cong [OF inv]) (use owns_none [OF that] in \<open>auto simp: owns_uput\<close>)
  have keep: "sock_inv (ss, k')" if "\<And>fd. uget k' fd = None \<longleftrightarrow> uget k fd = None" for k'
    by (rule sock_inv_cong [OF inv]) (simp_all add: that)
  show ?thesis
  proof (cases oper)
    case (SK_Move x y)
    with ok have "uget ss x = None" by simp
    with SK_Move inv owns_none [OF this] show ?thesis
      by (cases "uget ss y"; cases "x = y") (auto simp: st with_sock_def Socket_move_def intro!: sock_inv_move)
  next
    case (SK_Assign x y)
    with inv show ?thesis
      by (auto simp: st with_sock_def split: option.splits prod.splits intro: sock_inv_assign)
  next
    case (SK_Close x)
    show ?thesis
    proof (cases "uget ss x")
      case (Some s)
      have "sock_inv (uput x (fst (Socket_close s k)) ss, snd (Socket_close s k))"
        by (rule sock_inv_closed [OF inv Some])
          (use owns_self [OF Some] in \<open>auto simp: owns_uput Socket_close_def\<close>)
      with SK_Close Some show ?thesis by (simp add: st with_sock_def case_prod_beta)
    qed (use inv SK_Close in \<open>simp add: st with_sock_def\<close>)
  next
    case (SK_Destroy x)
    with inv show ?thesis
      by (auto simp: st with_sock_def Socket_destroy_def owns_uerase split: option.splits intro!: sock_inv_closed)
  qed (use inv ok default keep sock_inv_new [OF inv] in
      \<open>auto simp: st with_sock_def socket_defs split: option.splits accept_outcome.splits\<close>)
qed

interpretation sck: machine sock_step sock_ok sock_inv
  by unfold_locales (rule sock_step_inv)


section \<open>Properties\<close>

text \<open>
  C18. Descriptors are neither leaked nor closed twice. In every program that creates, accepts, moves,
  assigns, closes and destroys sockets, failures included, the kernel's open descriptors are at every
  moment exactly those owned by a socket, and no two sockets own the same one. When the last socket is
  gone, nothing is open.
\<close>

theorem sockets_own_descriptors:
  assumes "admitted sock_step sock_ok ([], []) opers"
  defines "ss \<equiv> fst (run_events sock_step ([], []) opers)" and "k \<equiv> snd (run_events sock_step ([], []) opers)"
  shows "(uget k fd \<noteq> None \<longleftrightarrow> (\<exists>x. owns ss x fd)) \<and> (owns ss x fd \<and> owns ss y fd \<longrightarrow> x = y) \<and> (ss = [] \<longrightarrow> k = [])"
proof -
  have "sock_inv ([], [])" by (simp add: sock_inv_def owns_def)
  from sck.run_inv [OF this assms(1)] have inv: "sock_inv (ss, k)" by (simp add: ss_def k_def)
  have "uget k f = None" if "ss = []" for f using sock_invD(1) [OF inv, of f] that by (auto simp: owns_def)
  then have "ss = [] \<longrightarrow> k = []" by (metis list.exhaust map_of_Cons_code(2) option.distinct(1) surj_pair)
  with sock_invD [OF inv] show ?thesis by blast
qed

definition socket_program :: "sock_op list" where
  "socket_program =
     [SK_Default 0, SK_Create 1 (Some 7), SK_Assign 0 1, SK_Accept 2 (Accepted 8), SK_Move 3 2, SK_Assign 3 3,
      SK_Create 4 None, SK_Destroy 2, SK_Destroy 1]"

theorem sockets_own_descriptors_witness:
  "uget (snd (run_events sock_step ([], []) socket_program)) 8 \<noteq> None \<and>
   (\<exists>x. owns (fst (run_events sock_step ([], []) socket_program)) x 8)"
proof -
  have "admitted sock_step sock_ok ([], []) socket_program"
    by (simp add: socket_program_def with_sock_def socket_defs new_fd_def)
  moreover have "uget (snd (run_events sock_step ([], []) socket_program)) 8 \<noteq> None"
    by (simp add: socket_program_def with_sock_def socket_defs)
  ultimately show ?thesis using sockets_own_descriptors [of socket_program 8] by blast
qed

end
