(* ===== verification/Acceptor.thy ===== *)
theory Acceptor
  imports Socket Event_Loop
begin

text \<open>
  \<open>src/src/network/acceptor.{h,cpp}\<close>: the thread that listens, accepts and hands connections to the I/O
  loops in turn. The kernel's answers are arguments; the result of a run is the list of connections
  handed over, each with the index of its loop. An exception that leaves \<open>run\<close> ends the process.
\<close>

section \<open>State\<close>

record acceptor =
  acc_port :: u16
  acc_loops :: nat
  listen_sock :: socket
  acc_running :: bool
  acc_thread :: bool
  next_conn_id :: conn_id

datatype acc_fault = Threw sock_fault | No_io_loop | Loop_out_of_range | Thread_joinable

definition Acceptor_new :: "u16 \<Rightarrow> nat \<Rightarrow> acc_fault + acceptor" where
  "Acceptor_new port n =
     (if n = 0 then Inl No_io_loop
      else Inr \<lparr>acc_port = port, acc_loops = n, listen_sock = Socket_default, acc_running = False, acc_thread = False, next_conn_id = 1\<rparr>)"

text \<open>Assigning to a thread that is still joinable terminates the process.\<close>

definition Acceptor_start :: "acceptor \<Rightarrow> acc_fault + acceptor" where
  "Acceptor_start a = (if acc_thread a then Inl Thread_joinable else Inr (a\<lparr>acc_running := True, acc_thread := True\<rparr>))"

definition Acceptor_stop :: "acceptor \<Rightarrow> acceptor" where
  "Acceptor_stop a = a\<lparr>acc_running := False, acc_thread := False\<rparr>"

definition Acceptor_destroy :: "acceptor \<Rightarrow> sock_kernel \<Rightarrow> sock_kernel" where
  "Acceptor_destroy a k = Socket_destroy (listen_sock (Acceptor_stop a)) k"

section \<open>Listening\<close>

record acceptor_sys =
  sys_socket :: "int option"
  sys_reuse :: bool
  sys_bind :: bool
  sys_listen :: bool
  sys_port :: "u16 option"
  sys_epoll :: bool
  sys_ctl :: bool

definition kListenBacklog :: int where "kListenBacklog = 128"

fun thrown :: "sock_fault + 'a \<Rightarrow> acc_fault + 'a" where
  "thrown (Inl e) = Inl (Threw e)"
| "thrown (Inr x) = Inr x"

text \<open>
  The prologue of \<open>run\<close>: bound, listening, with the port that the kernel chose; \<open>False\<close> if there is no epoll
  instance to wait with, and then \<open>run\<close> returns.
\<close>

definition Acceptor_open :: "acceptor_sys \<Rightarrow> acceptor \<Rightarrow> sock_kernel \<Rightarrow> acc_fault + bool \<times> acceptor \<times> sock_kernel" where
  "Acceptor_open sys a k =
     res_bind (thrown (Socket_createTcp (sys_socket sys) k)) (\<lambda>(s, k1).
       let (ls, s', k2) = Socket_move_assign (listen_sock a) s k1;
           k3 = Socket_setReuseAddr (sys_reuse sys) ls k2
       in res_bind (thrown (Socket_bind (sys_bind sys) (acc_port a) ls k3)) (\<lambda>k4.
          res_bind (thrown (Socket_listen (sys_listen sys) kListenBacklog ls k4)) (\<lambda>k5.
            let a1 = a\<lparr>listen_sock := ls, acc_port := (case sys_port sys of None \<Rightarrow> acc_port a | Some p \<Rightarrow> p)\<rparr>
            in Inr (sys_epoll sys \<and> sys_ctl sys, a1, k5))))"

section \<open>Accepting\<close>

text \<open>The inner loop; an answer comes with the outcome of \<open>setNoDelay\<close> and the reading of the clock.\<close>

fun accept_loop ::
    "(accept_outcome \<times> bool \<times> u64) list \<Rightarrow> acceptor \<Rightarrow> nat \<Rightarrow> sock_kernel \<Rightarrow>
     acc_fault + (nat \<times> connection) list \<times> acceptor \<times> nat \<times> sock_kernel" where
  "accept_loop [] a l k = Inr ([], a, l, k)"
| "accept_loop ((answer, nodelay, now_ms) # rest) a l k =
     res_bind (thrown (Socket_accept answer k)) (\<lambda>(s, k1).
       if \<not> Socket_valid s then Inr ([], a, l, k1)
       else
         let k2 = Socket_setNoDelay nodelay s k1;
             c = Connection_new now_ms (next_conn_id a) (sock_fd s);
             a1 = a\<lparr>next_conn_id := next_conn_id a + 1\<rparr>
         in if l \<ge> acc_loops a then Inl Loop_out_of_range
            else res_bind (accept_loop rest a1 ((l + 1) mod acc_loops a) k2) (\<lambda>(hs, a2, l2, k3). Inr ((l, c) # hs, a2, l2, k3)))"

text \<open>One batch of events: those of another descriptor are skipped.\<close>

fun accept_events ::
    "(int \<times> (accept_outcome \<times> bool \<times> u64) list) list \<Rightarrow> acceptor \<Rightarrow> nat \<Rightarrow> sock_kernel \<Rightarrow>
     acc_fault + (nat \<times> connection) list \<times> acceptor \<times> nat \<times> sock_kernel" where
  "accept_events [] a l k = Inr ([], a, l, k)"
| "accept_events ((fd, answers) # evs) a l k =
     (if fd \<noteq> sock_fd (listen_sock a) then accept_events evs a l k
      else res_bind (accept_loop answers a l k) (\<lambda>(hs, a1, l1, k1).
           res_bind (accept_events evs a1 l1 k1) (\<lambda>(hs', a2, l2, k2). Inr (hs @ hs', a2, l2, k2))))"

datatype acceptor_wait =
    AW_Interrupted
  | AW_Failed
  | AW_Events "(int \<times> (accept_outcome \<times> bool \<times> u64) list) list"

text \<open>The loop over rounds: whether \<open>stop\<close> was called while the thread waited, and what the wait gave.\<close>

fun acceptor_rounds ::
    "(bool \<times> acceptor_wait) list \<Rightarrow> acceptor \<Rightarrow> nat \<Rightarrow> sock_kernel \<Rightarrow>
     acc_fault + (nat \<times> connection) list \<times> acceptor \<times> nat \<times> sock_kernel" where
  "acceptor_rounds [] a l k = Inr ([], a, l, k)"
| "acceptor_rounds ((stop, wait) # rs) a l k =
     (if \<not> acc_running a then Inr ([], a, l, k)
      else let a1 = (if stop then a\<lparr>acc_running := False\<rparr> else a)
           in case wait of
                AW_Interrupted \<Rightarrow> acceptor_rounds rs a1 l k
              | AW_Failed \<Rightarrow> Inr ([], a1, l, k)
              | AW_Events evs \<Rightarrow>
                  res_bind (accept_events evs a1 l k) (\<lambda>(hs, a2, l2, k2).
                  res_bind (acceptor_rounds rs a2 l2 k2) (\<lambda>(hs', a3, l3, k3). Inr (hs @ hs', a3, l3, k3))))"

definition Acceptor_run ::
    "acceptor_sys \<Rightarrow> (bool \<times> acceptor_wait) list \<Rightarrow> acceptor \<Rightarrow> sock_kernel \<Rightarrow>
     acc_fault + (nat \<times> connection) list \<times> acceptor \<times> sock_kernel" where
  "Acceptor_run sys rs a k =
     res_bind (Acceptor_open sys a k) (\<lambda>(ready, a1, k1).
       if \<not> ready then Inr ([], a1, k1)
       else res_bind (acceptor_rounds rs a1 0 k1) (\<lambda>(hs, a2, l, k2). Inr (hs, a2, k2)))"

section \<open>Turns\<close>

text \<open>
  The k-th connection from here on goes to the loop that is k places further round, with the id that
  is k further on.
\<close>

definition in_turn :: "acceptor \<Rightarrow> nat \<Rightarrow> (nat \<times> connection) list \<Rightarrow> bool" where
  "in_turn a l hs \<longleftrightarrow>
     (\<forall>k < length hs. fst (hs ! k) = (l + k) mod acc_loops a \<and> conn_ident (snd (hs ! k)) = next_conn_id a + of_nat k)"

definition turned :: "acceptor \<Rightarrow> nat \<Rightarrow> nat \<Rightarrow> acceptor \<Rightarrow> nat \<Rightarrow> bool" where
  "turned a l n a' l' \<longleftrightarrow> acc_loops a' = acc_loops a \<and> next_conn_id a' = next_conn_id a + of_nat n \<and> l' = (l + n) mod acc_loops a"

lemma in_turn_append:
  assumes "in_turn a l hs" and "turned a l (length hs) a' l'" and "in_turn a' l' hs'"
  shows "in_turn a l (hs @ hs')"
  unfolding in_turn_def
proof (intro allI impI)
  fix k assume k: "k < length (hs @ hs')"
  show "fst ((hs @ hs') ! k) = (l + k) mod acc_loops a \<and> conn_ident (snd ((hs @ hs') ! k)) = next_conn_id a + of_nat k"
  proof (cases "k < length hs")
    case True
    with assms(1) show ?thesis by (simp add: in_turn_def nth_append)
  next
    case False
    then obtain j where j: "k = length hs + j" using le_Suc_ex not_less by blast
    with k assms(2,3) show ?thesis
      by (simp add: in_turn_def turned_def nth_append mod_add_left_eq add.assoc)
  qed
qed

lemma turned_append: "turned a l n a' l' \<Longrightarrow> turned a' l' m a'' l'' \<Longrightarrow> turned a l (n + m) a'' l''"
  by (simp add: turned_def mod_add_left_eq add.assoc)

lemma turned_range: "turned a l n a' l' \<Longrightarrow> 0 < acc_loops a \<Longrightarrow> 0 < acc_loops a' \<and> l' < acc_loops a'"
  by (simp add: turned_def)

text \<open>What every stage of the accept loop promises.\<close>

definition goes_round :: "acceptor \<Rightarrow> nat \<Rightarrow> acc_fault + (nat \<times> connection) list \<times> acceptor \<times> nat \<times> sock_kernel \<Rightarrow> bool" where
  "goes_round a l r \<longleftrightarrow>
     (case r of
        Inl e \<Rightarrow> e = Threw Accept_error
      | Inr (hs, a', l', k') \<Rightarrow> in_turn a l hs \<and> turned a l (length hs) a' l')"

lemma goes_round_Nil: "l < acc_loops a \<Longrightarrow> goes_round a l (Inr ([], a, l, k))"
  by (simp add: goes_round_def in_turn_def turned_def)

lemma goes_round_bind:
  assumes "goes_round a l r" and "0 < acc_loops a"
    and "\<And>hs a' l' k'. r = Inr (hs, a', l', k') \<Longrightarrow> 0 < acc_loops a' \<Longrightarrow> l' < acc_loops a' \<Longrightarrow> goes_round a' l' (f a' l' k')"
  shows "goes_round a l (res_bind r (\<lambda>(hs, a', l', k'). res_bind (f a' l' k') (\<lambda>(hs', a'', l'', k''). Inr (hs @ hs', a'', l'', k''))))"
proof (cases r)
  case (Inl e)
  with assms(1) show ?thesis by (simp add: goes_round_def)
next
  case (Inr x)
  obtain hs a' l' k' where x: "x = (hs, a', l', k')" by (cases x)
  have 1: "in_turn a l hs" "turned a l (length hs) a' l'" using assms(1) by (simp_all add: goes_round_def Inr x)
  have 2: "goes_round a' l' (f a' l' k')"
    using assms(3) [of hs a' l' k'] turned_range [OF 1(2) assms(2)] by (simp add: Inr x)
  then show ?thesis
    using 1 by (auto simp: Inr x goes_round_def res_bind_Inr_iff split: sum.splits intro: in_turn_append turned_append)
qed

lemma goes_round_cong:
  "acc_loops a = acc_loops b \<Longrightarrow> next_conn_id a = next_conn_id b \<Longrightarrow> goes_round a l r = goes_round b l r"
  by (simp add: goes_round_def in_turn_def turned_def split: sum.splits prod.splits)

lemma accept_loop_round: "0 < acc_loops a \<Longrightarrow> l < acc_loops a \<Longrightarrow> goes_round a l (accept_loop answers a l k)"
proof (induction answers arbitrary: a l k)
  case Nil
  then show ?case by (simp add: goes_round_Nil)
next
  case (Cons x rest)
  obtain answer nodelay now_ms where x: "x = (answer, nodelay, now_ms)" by (cases x)
  show ?case
  proof (cases "\<exists>s k1. Socket_accept answer k = Inr (s, k1) \<and> Socket_valid s")
    case False
    with Cons.prems show ?thesis
      by (cases answer) (auto simp: x Socket_accept_def Socket_default_def Socket_valid_def goes_round_Nil, simp add: goes_round_def)
  next
    case True
    then obtain s k1 where s: "Socket_accept answer k = Inr (s, k1)" "Socket_valid s" by blast
    let ?c = "Connection_new now_ms (next_conn_id a) (sock_fd s)"
    let ?a = "a\<lparr>next_conn_id := next_conn_id a + 1\<rparr>"
    let ?l = "(l + 1) mod acc_loops a"
    have first: "goes_round a l (Inr ([(l, ?c)], ?a, ?l, Socket_setNoDelay nodelay s k1))"
      using Cons.prems by (simp add: goes_round_def in_turn_def turned_def)
    have "goes_round a l (res_bind (Inr ([(l, ?c)], ?a, ?l, Socket_setNoDelay nodelay s k1))
        (\<lambda>(hs, a', l', k'). res_bind (accept_loop rest a' l' k') (\<lambda>(hs', a'', l'', k''). Inr (hs @ hs', a'', l'', k''))))"
      by (rule goes_round_bind [OF first Cons.prems(1)]) (rule Cons.IH)
    with s Cons.prems show ?thesis by (simp add: x)
  qed
qed

lemma accept_events_round: "0 < acc_loops a \<Longrightarrow> l < acc_loops a \<Longrightarrow> goes_round a l (accept_events evs a l k)"
proof (induction evs arbitrary: a l k)
  case Nil
  then show ?case by (simp add: goes_round_Nil)
next
  case (Cons x evs)
  obtain fd answers where x: "x = (fd, answers)" by (cases x)
  show ?case
  proof (cases "fd = sock_fd (listen_sock a)")
    case False
    with Cons show ?thesis by (simp add: x)
  next
    case True
    have "goes_round a l (res_bind (accept_loop answers a l k)
        (\<lambda>(hs, a', l', k'). res_bind (accept_events evs a' l' k') (\<lambda>(hs', a'', l'', k''). Inr (hs @ hs', a'', l'', k''))))"
      by (rule goes_round_bind [OF accept_loop_round [OF Cons.prems] Cons.prems(1)]) (rule Cons.IH)
    with True show ?thesis by (simp add: x)
  qed
qed

lemma acceptor_rounds_round: "0 < acc_loops a \<Longrightarrow> l < acc_loops a \<Longrightarrow> goes_round a l (acceptor_rounds rs a l k)"
proof (induction rs arbitrary: a l k)
  case Nil
  then show ?case by (simp add: goes_round_Nil)
next
  case (Cons r rs)
  obtain stop wait where r: "r = (stop, wait)" by (cases r)
  define a1 where "a1 = (if stop then a\<lparr>acc_running := False\<rparr> else a)"
  have a1: "acc_loops a = acc_loops a1" "next_conn_id a = next_conn_id a1" by (simp_all add: a1_def)
  with Cons.prems have p: "0 < acc_loops a1" "l < acc_loops a1" by simp_all
  have "goes_round a1 l (case wait of
      AW_Interrupted \<Rightarrow> acceptor_rounds rs a1 l k
    | AW_Failed \<Rightarrow> Inr ([], a1, l, k)
    | AW_Events evs \<Rightarrow> res_bind (accept_events evs a1 l k) (\<lambda>(hs, a2, l2, k2).
        res_bind (acceptor_rounds rs a2 l2 k2) (\<lambda>(hs', a3, l3, k3). Inr (hs @ hs', a3, l3, k3))))"
    using Cons.IH p goes_round_bind [OF accept_events_round [OF p] p(1) Cons.IH]
    by (auto simp: goes_round_Nil split: acceptor_wait.split)
  then have "goes_round a l (if \<not> acc_running a then Inr ([], a, l, k) else (case wait of
      AW_Interrupted \<Rightarrow> acceptor_rounds rs a1 l k
    | AW_Failed \<Rightarrow> Inr ([], a1, l, k)
    | AW_Events evs \<Rightarrow> res_bind (accept_events evs a1 l k) (\<lambda>(hs, a2, l2, k2).
        res_bind (acceptor_rounds rs a2 l2 k2) (\<lambda>(hs', a3, l3, k3). Inr (hs @ hs', a3, l3, k3)))))"
    using goes_round_cong [OF a1] goes_round_Nil [OF Cons.prems(2)] by (simp split del: acceptor_wait.split)
  then show ?case unfolding r acceptor_rounds.simps Let_def a1_def .
qed

lemma open_keeps: "Acceptor_open sys a k = Inr (ready, a', k') \<Longrightarrow> acc_loops a' = acc_loops a \<and> next_conn_id a' = next_conn_id a"
  by (auto simp: Acceptor_open_def res_bind_Inr_iff Let_def case_prod_beta)

section \<open>Fair shares\<close>

lemma count_turns:
  assumes "0 < n" and "i < n"
  shows "count_list (map (\<lambda>k. k mod n) [0..<m]) i = (m + (n - 1 - i)) div n"
proof (induction m)
  case 0
  then show ?case using assms by simp
next
  case (Suc m)
  have s: "Suc m + (n - 1 - i) = Suc (m + (n - 1 - i))" by simp
  have "Suc (m + (n - 1 - i)) mod n = 0 \<longleftrightarrow> m mod n = i"
  proof -
    have lt: "m mod n < n" using assms(1) by simp
    have "Suc (m + (n - 1 - i)) = m + (n - i)" using assms(2) by simp
    also have "\<dots> mod n = (m mod n + (n - i)) mod n" by (simp add: mod_add_left_eq)
    also have "\<dots> = (if m mod n < i then m mod n + (n - i) else m mod n - i)"
    proof (cases "m mod n < i")
      case True
      with assms(2) show ?thesis by simp
    next
      case False
      then have "m mod n + (n - i) = (m mod n - i) + n" using assms(2) by simp
      moreover have "m mod n - i < n" using lt by simp
      ultimately show ?thesis using False by (simp only: mod_add_self2 mod_less if_False)
    qed
    finally show ?thesis using lt assms(2) by (auto split: if_splits)
  qed
  then have "Suc (m + (n - 1 - i)) div n = (if m mod n = i then Suc ((m + (n - 1 - i)) div n) else (m + (n - 1 - i)) div n)"
    unfolding div_Suc by (simp only:)
  with Suc show ?case unfolding s by (simp only: upt_Suc map_append count_list_append list.map count_list.simps) simp
qed

lemma fair_turns:
  assumes "i < n" and "j < n"
  shows "count_list (map (\<lambda>k. k mod n) [0..<m]) i \<le> Suc (count_list (map (\<lambda>k. k mod n) [0..<m]) j)"
proof -
  have "(m + (n - 1 - i)) div n \<le> (m + (n - 1 - j) + n) div n" using assms by (intro div_le_mono) simp
  also have "\<dots> = (m + (n - 1 - j)) div n + 1" using assms(1) by (intro div_add_self2) simp
  finally show ?thesis using count_turns [of n i m] count_turns [of n j m] assms by simp
qed

section \<open>Properties\<close>

text \<open>
  C19. The acceptor is fair and its ids are consecutive. For a server with at least one I/O loop and
  whatever the kernel answers, a run either fails while opening the socket or on an error of \<open>accept4\<close>,
  or hands its connections out in turn: the k-th accepted connection has id \<open>k + 1\<close> and goes to loop
  \<open>k mod n\<close>, never to a loop that does not exist, and no loop gets two connections more than another.
\<close>

theorem accept_fair:
  assumes "Acceptor_new port n = Inr a0" and "Acceptor_start a0 = Inr a"
  shows "case Acceptor_run sys rs a k of
      Inl e \<Rightarrow> e \<in> Threw ` {Socket_failed, Bind_failed, Listen_failed, Accept_error}
    | Inr (hs, a', k') \<Rightarrow>
        map fst hs = map (\<lambda>j. j mod n) [0..<length hs] \<and>
        map (conn_ident \<circ> snd) hs = map (\<lambda>j. of_nat j + 1) [0..<length hs] \<and>
        (i < n \<and> j < n \<longrightarrow> count_list (map fst hs) i \<le> count_list (map fst hs) j + 1)"
proof (cases "Acceptor_open sys a k")
  case (Inl e)
  then have "e \<in> Threw ` {Socket_failed, Bind_failed, Listen_failed}"
    by (auto simp: Acceptor_open_def res_bind_Inl_iff Let_def Socket_createTcp_def Socket_bind_def Socket_listen_def
        case_prod_beta split: option.splits if_splits)
  with Inl show ?thesis by (auto simp: Acceptor_run_def)
next
  case (Inr x)
  obtain ready a1 k1 where x: "x = (ready, a1, k1)" by (cases x)
  have a1: "acc_loops a1 = n" "next_conn_id a1 = 1" "0 < n"
    using open_keeps [OF Inr [unfolded x]] assms by (auto simp: Acceptor_new_def Acceptor_start_def split: if_splits)
  have "goes_round a1 0 (acceptor_rounds rs a1 0 k1)" by (rule acceptor_rounds_round) (use a1 in simp_all)
  moreover have "map fst hs = map (\<lambda>j. j mod n) [0..<length hs]" "map (conn_ident \<circ> snd) hs = map (\<lambda>j. of_nat j + 1) [0..<length hs]"
    if "in_turn a1 0 hs" for hs
    using that a1 by (auto simp: in_turn_def intro!: nth_equalityI)
  moreover have "Acceptor_run sys rs a k = (if \<not> ready then Inr ([], a1, k1)
      else res_bind (acceptor_rounds rs a1 0 k1) (\<lambda>(hs, a2, l, k2). Inr (hs, a2, k2)))"
    by (simp add: Acceptor_run_def Inr x)
  ultimately show ?thesis
    by (cases "acceptor_rounds rs a1 0 k1") (simp_all add: goes_round_def fair_turns case_prod_beta)
qed

definition quiet_kernel :: acceptor_sys where
  "quiet_kernel = \<lparr>sys_socket = Some 3, sys_reuse = True, sys_bind = True, sys_listen = True, sys_port = Some 9000, sys_epoll = True, sys_ctl = True\<rparr>"

definition three_clients :: "(bool \<times> acceptor_wait) list" where
  "three_clients = [(False, AW_Interrupted),
     (False, AW_Events [(3, [(Accepted 7, True, 0), (Accepted 8, True, 0), (No_pending, True, 0)]), (9, [])]),
     (True, AW_Events [(3, [(Accepted 9, False, 5), (No_pending, True, 5)])])]"

theorem accept_fair_witness:
  "\<exists>a0 a hs a' k'. Acceptor_new 9000 2 = Inr a0 \<and> Acceptor_start a0 = Inr a \<and>
     Acceptor_run quiet_kernel three_clients a [] = Inr (hs, a', k') \<and> map fst hs = [0, 1, 0] \<and>
     map (conn_ident \<circ> snd) hs = [1, 2, 3] \<and> count_list (map fst hs) 0 \<le> count_list (map fst hs) 1 + 1"
proof -
  obtain a0 a where a: "Acceptor_new 9000 2 = Inr a0" "Acceptor_start a0 = Inr a"
    by (simp add: Acceptor_new_def Acceptor_start_def)
  obtain hs a' k' where r: "Acceptor_run quiet_kernel three_clients a [] = Inr (hs, a', k')" "length hs = 3"
    using a by (auto simp: Acceptor_new_def Acceptor_start_def Acceptor_run_def Acceptor_open_def quiet_kernel_def three_clients_def
        Socket_default_def Socket_createTcp_def Socket_move_assign_def Socket_close_def Socket_bind_def Socket_listen_def
        Socket_accept_def Socket_valid_def)
  have three: "[0..<length hs] = [0, 1, 2]" by (simp only: r(2)) (simp add: upt_rec)
  have "map fst hs = [0, 1, 0]" "map (conn_ident \<circ> snd) hs = [1, 2, 3]" "count_list (map fst hs) 0 \<le> count_list (map fst hs) 1 + 1"
    using accept_fair [OF a, where sys = quiet_kernel and rs = three_clients and k = "[]" and i = 0 and j = 1] by (simp_all add: r(1) three)
  then show ?thesis by (intro exI conjI) (rule a(1), rule a(2), rule r(1), assumption+)
qed

end
