(* ===== verification/Loop_Facts.thy ===== *)
theory Loop_Facts
  imports Event_Loop
begin

text \<open>
  What one iteration of an I/O loop does as seen from the rest of the server: which connections and
  descriptors it still has afterwards, what it reports about them, and that every connection it has
  stays consistent, with a bounded send buffer.
\<close>

section \<open>What an iteration of a loop does to its connections\<close>

text \<open>The connections of a loop, with their descriptors: only the drain and the sweep change them.\<close>

definition shape :: "event_loop \<Rightarrow> conn_id list \<times> int list \<times> connection list" where
  "shape el = (ukeys (el_conns el), map (\<lambda>(i, c). conn_fd c) (el_conns el), pending_conns el)"

lemma shape_update [simp]:
  "shape (el\<lparr>pending_writes := ws\<rparr>) = shape el" "shape (el\<lparr>el_wheel := w\<rparr>) = shape el"
  "shape (epoll_mod fd ev el) = shape el" "shape (EventLoop_enableWrite i el) = shape el" "shape (EventLoop_disableWrite i el) = shape el"
  by (simp_all add: shape_def)

lemma shape_put: "uget (el_conns el) i = Some c \<Longrightarrow> same_conn c c' \<Longrightarrow> shape (put_conn i c' el) = shape el"
  by (simp add: shape_def same_conn_def uput_keys uput_old_map [where f = conn_fd])

lemma shape_with_conn: "(\<And>c. uget (el_conns el) i = Some c \<Longrightarrow> shape (f c el) = shape el) \<Longrightarrow> shape (with_conn i f el) = shape el"
  by (simp add: with_conn_def split: option.splits)

lemma shape_close [simp]: "shape (EventLoop_closeConnection i el) = shape el"
  unfolding EventLoop_closeConnection_def by (rule shape_with_conn) (simp add: shape_put conn_ops_same)

lemma shape_take_write [simp]: "shape (take_write el) = shape el"
proof -
  have "shape (with_conn i (\<lambda>c el. EventLoop_enableWrite i (put_conn i (Connection_sendRaw data c) el)) (el\<lparr>pending_writes := ws\<rparr>)) =
      shape (el\<lparr>pending_writes := ws\<rparr>)" for i data ws
    by (rule shape_with_conn) (simp add: shape_put conn_ops_same)
  then show ?thesis by (simp add: take_write_def split: list.splits prod.splits)
qed

lemma shape_drainWrites [simp]: "shape (EventLoop_drainPendingWrites el) = shape el"
proof (induction el rule: EventLoop_drainPendingWrites.induct)
  case (1 el)
  then show ?case by (subst EventLoop_drainPendingWrites.simps) simp
qed

lemma shape_on_readable: "uget (el_conns el) i = Some c \<Longrightarrow> shape (snd (on_readable e i c el)) = shape el"
  by (simp add: on_readable_def Let_def case_prod_beta shape_put onReadable_same)

lemma shape_on_writable: "uget (el_conns el) i = Some c \<Longrightarrow> shape (on_writable e i c el) = shape el"
  by (simp add: on_writable_def Let_def shape_put conn_ops_same)

lemma handle_event_shape:
  "shape (snd (handle_event wake_fd e el)) = shape el \<and>
   (\<forall>out \<in> set (fst (handle_event wake_fd e el)). \<exists>c fs. out = Frames c fs \<and> c \<in> set (ukeys (el_conns el)))"
proof (cases "\<exists>i c. ev_fd e \<noteq> wake_fd \<and> uget (fd_to_id el) (ev_fd e) = Some i \<and> uget (el_conns el) i = Some c")
  case True
  then obtain i c where ic: "ev_fd e \<noteq> wake_fd" "uget (fd_to_id el) (ev_fd e) = Some i" "uget (el_conns el) i = Some c" by blast
  define el1 where "el1 = (if ev_in e then snd (on_readable e i c el) else el)"
  have "shape el1 = shape el" using shape_on_readable [OF ic(3)] by (simp add: el1_def)
  moreover have "shape (with_conn i (on_writable e i) el1) = shape el1" by (rule shape_with_conn) (rule shape_on_writable)
  moreover have "\<forall>out \<in> set (fst (on_readable e i c el)). \<exists>c fs. out = Frames c fs \<and> c \<in> set (ukeys (el_conns el))"
    using uget_in_keysD [OF ic(3)] by (simp add: on_readable_def Let_def case_prod_beta del: set_map)
  ultimately show ?thesis
    using ic by (cases "ev_in e") (simp_all add: handle_event_def el1_def case_prod_beta Let_def del: set_map)
qed (auto simp: handle_event_def split: option.splits)

lemma handleEvents_shape:
  "shape (snd (EventLoop_handleEvents wake_fd evs el)) = shape el \<and>
   (\<forall>out \<in> set (fst (EventLoop_handleEvents wake_fd evs el)). \<exists>c fs. out = Frames c fs \<and> c \<in> set (ukeys (el_conns el)))"
proof (induction evs arbitrary: el)
  case (Cons e evs)
  let ?el = "snd (handle_event wake_fd e el)"
  have "ukeys (el_conns ?el) = ukeys (el_conns el)" using handle_event_shape [of wake_fd e el] by (simp add: shape_def)
  with Cons [of ?el] handle_event_shape [of wake_fd e el] show ?case
    by (simp add: case_prod_beta Let_def ball_Un del: set_map)
qed simp

lemma shape_check_loop [simp]: "shape (check_loop now_ms is el) = shape el"
proof (induction "is" arbitrary: el)
  case (Cons i "is")
  have "shape (with_conn i (\<lambda>c el. if (conn_state c = C_ACTIVE \<or> conn_state c = C_CONNECTED) \<and> Connection_isTimeout now_ms (timeout_ms el) c
          then EventLoop_closeConnection (conn_ident c) el else el) el) = shape el"
    by (rule shape_with_conn) simp
  with Cons show ?case by simp
qed simp

section \<open>Draining and sweeping\<close>

definition loop_fds :: "event_loop \<Rightarrow> int list" where
  "loop_fds el = map (\<lambda>(i, c). conn_fd c) (el_conns el) @ map conn_fd (pending_conns el)"

definition ids_of :: "event_loop \<Rightarrow> conn_id set" where
  "ids_of el = set (ukeys (el_conns el)) \<union> conn_ident ` set (pending_conns el)"

lemma shape_ids: "shape el' = shape el \<Longrightarrow> ids_of el' = ids_of el \<and> loop_fds el' = loop_fds el \<and> ukeys (el_conns el') = ukeys (el_conns el)"
  by (simp add: shape_def ids_of_def loop_fds_def)

lemma uput_values: "set (map (\<lambda>(k, v). f v) (uput k v m)) \<subseteq> insert (f v) (set (map (\<lambda>(k, v). f v) m))"
  by (induction m) auto

lemma uput_keys_set: "set (ukeys (uput k v m)) = insert k (set (ukeys m))"
  by (induction m) auto

lemma take_conn_grows:
  assumes "pending_conns el \<noteq> []"
  shows "ids_of (take_conn reg el) \<subseteq> ids_of el \<and> set (loop_fds (take_conn reg el)) \<subseteq> set (loop_fds el) \<and>
    set (ukeys (el_conns el)) \<subseteq> set (ukeys (el_conns (take_conn reg el)))"
proof -
  obtain c ps where "pending_conns el = c # ps" using assms by (cases "pending_conns el") auto
  with uput_values [of conn_fd "conn_ident c" c "el_conns el"] show ?thesis
    by (auto simp: take_conn_def EventLoop_addConnectionImpl_def ids_of_def loop_fds_def uput_keys_set simp del: set_map)
qed

lemma drainPending_grows:
  "ids_of (EventLoop_drainPending reg el) \<subseteq> ids_of el \<and> set (loop_fds (EventLoop_drainPending reg el)) \<subseteq> set (loop_fds el) \<and>
   set (ukeys (el_conns el)) \<subseteq> set (ukeys (el_conns (EventLoop_drainPending reg el)))"
proof (induction reg el rule: EventLoop_drainPending.induct)
  case (1 reg el)
  show ?case
  proof (cases "pending_conns el = []")
    case True
    then show ?thesis by (subst (1 2 3) EventLoop_drainPending.simps) simp
  next
    case False
    then have eq: "EventLoop_drainPending reg el = EventLoop_drainPending reg (take_conn reg el)"
      by (subst EventLoop_drainPending.simps) simp
    show ?thesis unfolding eq using 1 [OF False] take_conn_grows [OF False, of reg] by blast
  qed
qed

lemma sweep_result:
  "sweep_closed cs el = (outs, el') \<Longrightarrow>
   pending_conns el' = pending_conns el \<and>
   el_conns el' = filter (\<lambda>(i, c). i \<notin> fst ` set (filter (\<lambda>(i, c). Connection_shouldCleanup c) cs)) (el_conns el) \<and>
   (el_disconnect_cb el \<longrightarrow> outs = map (\<lambda>(i, c). Disconnected (conn_ident c)) (filter (\<lambda>(i, c). Connection_shouldCleanup c) cs))"
proof (induction cs el arbitrary: outs el' rule: sweep_closed.induct)
  case (2 i c cs el)
  show ?case
  proof (cases "Connection_shouldCleanup c")
    case True
    let ?el = "el\<lparr>interest := uerase (conn_fd c) (interest el), fd_to_id := uerase (conn_fd c) (fd_to_id el), el_conns := uerase i (el_conns el)\<rparr>"
    obtain outs1 where "sweep_closed cs ?el = (outs1, el')" "el_disconnect_cb el \<longrightarrow> outs = Disconnected (conn_ident c) # outs1"
      using "2.prems" True by (auto simp: Let_def split: prod.splits)
    with "2.IH"(1) [OF True refl this(1)] True show ?thesis
      by (simp add: AList.delete_eq filter_filter case_prod_beta conj_commute) (rule filter_cong [OF refl], auto)
  next
    case False
    with 2 show ?thesis by simp
  qed
qed (simp add: case_prod_beta filter_True)

text \<open>
  An iteration reports frames of connections it has, then the disconnections of those it sweeps; the
  connections left are the others.
\<close>

definition reports :: "event_loop \<Rightarrow> loop_out list \<Rightarrow> event_loop \<Rightarrow> bool" where
  "reports el outs el' \<longleftrightarrow>
     (\<exists>K fr ds. outs = fr @ map Disconnected ds \<and> (\<forall>out \<in> set fr. \<exists>c fs. out = Frames c fs \<and> c \<in> K) \<and>
        set (ukeys (el_conns el)) \<subseteq> K \<and> set (ukeys (el_conns el')) = K - set ds)"

lemma iteration_reports:
  assumes "el_inv el" and "el_disconnect_cb el" and "EventLoop_run_iteration wake_fd reg now_ms evs el = Inr (outs, el')"
  shows "reports el outs el' \<and> ids_of el' \<subseteq> ids_of el \<and> set (loop_fds el') \<subseteq> set (loop_fds el)"
proof -
  define el1 where "el1 = EventLoop_drainPending reg (EventLoop_drainPendingWrites el)"
  define el2 where "el2 = snd (EventLoop_handleEvents wake_fd evs el1)"
  define el3 where "el3 = EventLoop_checkTimeouts now_ms el2"
  define fr where "fr = fst (EventLoop_handleEvents wake_fd evs el1)"
  have w: "ids_of (EventLoop_drainPendingWrites el) = ids_of el" "loop_fds (EventLoop_drainPendingWrites el) = loop_fds el"
    "ukeys (el_conns (EventLoop_drainPendingWrites el)) = ukeys (el_conns el)"
    using shape_ids [OF shape_drainWrites, of el] by simp_all
  have grow: "ids_of el1 \<subseteq> ids_of el" "set (loop_fds el1) \<subseteq> set (loop_fds el)" "set (ukeys (el_conns el)) \<subseteq> set (ukeys (el_conns el1))"
    using drainPending_grows [of reg "EventLoop_drainPendingWrites el"] unfolding el1_def w by simp_all
  have "shape el3 = shape el1"
    using handleEvents_shape [of wake_fd evs el1] by (simp add: el3_def el2_def EventLoop_checkTimeouts_def)
  note same = shape_ids [OF this]
  have inv3: "el_inv el3"
    unfolding el3_def el2_def el1_def EventLoop_checkTimeouts_def
    by (intro check_loop_inv handleEvents_inv drainPending_inv drainPendingWrites_inv assms(1))
  obtain ds where ds: "outs = fr @ ds" "EventLoop_cleanupClosed el3 = Inr (ds, el')"
    using assms(3) by (auto simp: EventLoop_run_iteration_def el1_def el2_def el3_def fr_def case_prod_beta Let_def res_bind_Inr_iff)
  obtain due w' cs where t: "TimerWheel_tick heartbeat_expired (el_wheel el3, el_conns el3) = Inr (due, w', cs)"
    and sw: "sweep_closed cs (el3\<lparr>el_wheel := w', el_conns := cs\<rparr>) = (ds, el')"
    using ds(2) by (auto simp: EventLoop_cleanupClosed_def res_bind_Inr_iff)
  have cs: "cs = el_conns el3" using tick_heartbeat_inv [OF inv3 t] by simp
  have "settings el3 = settings el" by (simp add: el3_def el2_def el1_def EventLoop_checkTimeouts_def)
  with assms(2) have "el_disconnect_cb el3" by (simp add: settings_def)
  then have sw': "pending_conns el' = pending_conns el3"
    "el_conns el' = filter (\<lambda>(i, c). i \<notin> fst ` set (filter (\<lambda>(i, c). Connection_shouldCleanup c) cs)) cs"
    "ds = map (\<lambda>(i, c). Disconnected (conn_ident c)) (filter (\<lambda>(i, c). Connection_shouldCleanup c) cs)"
    using sweep_result [OF sw] by simp_all
  have tab: "tables cs (pending_conns el3) (fd_to_id el3)" using inv3 by (simp add: el_inv_def cs)
  have ident: "conn_ident c = i" if "(i, c) \<in> set cs" for i c
    using tablesD(1) [OF tab, of i c] tablesD(2) [OF tab] that by simp
  define D where "D = map fst (filter (\<lambda>(i, c). Connection_shouldCleanup c) cs)"
  have "ds = map Disconnected D" unfolding sw'(3) D_def using ident by (auto simp: case_prod_beta)
  moreover have "set (ukeys (el_conns el')) = set (ukeys (el_conns el3)) - set D"
    unfolding sw'(2) D_def cs by (auto simp: case_prod_beta image_iff)
  then have "set (ukeys (el_conns el')) = set (ukeys (el_conns el1)) - set D" using same by simp
  moreover have "\<forall>out \<in> set fr. \<exists>c fs. out = Frames c fs \<and> c \<in> set (ukeys (el_conns el1))"
    using handleEvents_shape [of wake_fd evs el1] unfolding fr_def by blast
  ultimately have "reports el outs el'" unfolding reports_def using ds(1) grow(3) by blast
  moreover have "ids_of el' \<subseteq> ids_of el3" "set (loop_fds el') \<subseteq> set (loop_fds el3)"
    using sw'(1,2) cs by (auto simp: ids_of_def loop_fds_def)
  ultimately show ?thesis using same grow by auto
qed

section \<open>Consistent connections\<close>

definition conns_ok :: "event_loop \<Rightarrow> bool" where
  "conns_ok el \<longleftrightarrow> (\<forall>c \<in> set (map (\<lambda>(i, c). c) (el_conns el)) \<union> set (pending_conns el). Connection_inv c)"

definition event_ok :: "epoll_ev \<Rightarrow> bool" where
  "event_ok e \<longleftrightarrow> sys_read_ok (ev_read e) \<and> sys_write_ok (ev_write e)"

named_theorems conns_keeps \<open>operations of a loop that keep its connections consistent\<close>

lemma conns_ok_get: "conns_ok el \<Longrightarrow> uget (el_conns el) i = Some c \<Longrightarrow> Connection_inv c"
  by (force simp: conns_ok_def dest: map_of_SomeD)

lemma conns_ok_update [simp]:
  "conns_ok (el\<lparr>pending_writes := ws\<rparr>) = conns_ok el" "conns_ok (el\<lparr>el_wheel := w\<rparr>) = conns_ok el"
  "conns_ok (epoll_mod fd ev el) = conns_ok el"
  by (simp_all add: conns_ok_def)

lemma conns_ok_put [conns_keeps]: "conns_ok el \<Longrightarrow> Connection_inv c \<Longrightarrow> conns_ok (put_conn i c el)"
  using uput_values [of "\<lambda>c. c" i c "el_conns el"] by (fastforce simp: conns_ok_def put_conn_def)

lemma conns_ok_with: "conns_ok el \<Longrightarrow> (\<And>c. Connection_inv c \<Longrightarrow> conns_ok (f c el)) \<Longrightarrow> conns_ok (with_conn i f el)"
  by (auto simp: with_conn_def intro: conns_ok_get split: option.splits)

lemma conns_ok_interest [simp]: "conns_ok el \<Longrightarrow> conns_ok (EventLoop_enableWrite i el)" "conns_ok el \<Longrightarrow> conns_ok (EventLoop_disableWrite i el)"
  by (simp_all add: EventLoop_enableWrite_def EventLoop_disableWrite_def conns_ok_with)

lemma conns_ok_close [conns_keeps]: "conns_ok el \<Longrightarrow> conns_ok (EventLoop_closeConnection i el)"
  unfolding EventLoop_closeConnection_def by (rule conns_ok_with) (simp_all add: conns_ok_put close_inv)

lemma conns_ok_add [conns_keeps]: "conns_ok el \<Longrightarrow> Connection_inv c \<Longrightarrow> conns_ok (EventLoop_addConnection c el)"
  by (auto simp: conns_ok_def EventLoop_addConnection_def)

lemma conns_ok_drainWrites [conns_keeps]: "conns_ok el \<Longrightarrow> conns_ok (EventLoop_drainPendingWrites el)"
proof (induction el rule: EventLoop_drainPendingWrites.induct)
  case (1 el)
  have "conns_ok (take_write el)"
    using 1(2) by (auto simp: take_write_def split: list.splits intro!: conns_ok_with conns_ok_interest conns_ok_put sendRaw_inv)
  with 1 show ?case by (subst EventLoop_drainPendingWrites.simps) simp
qed

lemma conns_ok_drain [conns_keeps]: "conns_ok el \<Longrightarrow> conns_ok (EventLoop_drainPending reg el)"
proof (induction reg el rule: EventLoop_drainPending.induct)
  case (1 reg el)
  have "conns_ok (take_conn reg el)" if c: "pending_conns el = c # ps" for c ps
    using 1(2) uput_values [of "\<lambda>c. c" "conn_ident c" c "el_conns el"] c
    by (fastforce simp: take_conn_def EventLoop_addConnectionImpl_def conns_ok_def)
  with 1 show ?case by (subst EventLoop_drainPending.simps) (cases "pending_conns el"; simp)
qed

lemma conns_ok_event:
  assumes "conns_ok el" and "event_ok e"
  shows "conns_ok (snd (handle_event wake_fd e el))"
proof -
  have r: "conns_ok (snd (on_readable e i c el))" if "Connection_inv c" for i c
    using that assms by (simp add: on_readable_def Let_def case_prod_beta conns_keeps onReadable_inv event_ok_def)
  have w: "conns_ok (on_writable e i c el')" if "Connection_inv c" "conns_ok el'" for i c el'
    using that assms(2) by (simp add: on_writable_def Let_def conns_keeps onWritable_inv event_ok_def)
  show ?thesis
    using assms(1) r w conns_ok_get [OF assms(1)]
    by (auto simp: handle_event_def Let_def case_prod_beta split: option.splits intro!: conns_ok_with)
qed

lemma conns_ok_events: "conns_ok el \<Longrightarrow> \<forall>e \<in> set evs. event_ok e \<Longrightarrow> conns_ok (snd (EventLoop_handleEvents wake_fd evs el))"
  by (induction evs arbitrary: el) (simp_all add: Let_def case_prod_beta conns_ok_event)

lemma conns_ok_check [conns_keeps]: "conns_ok el \<Longrightarrow> conns_ok (check_loop now_ms is el)"
proof (induction "is" arbitrary: el)
  case (Cons i "is")
  show ?case unfolding check_loop.simps
    by (rule Cons.IH, rule conns_ok_with) (simp_all add: Cons.prems conns_keeps)
qed simp

lemma conns_ok_iteration:
  assumes "el_inv el" and "conns_ok el" and "\<forall>e \<in> set evs. event_ok e"
    and "EventLoop_run_iteration wake_fd reg now_ms evs el = Inr (outs, el')"
  shows "conns_ok el'"
proof -
  define el1 where "el1 = snd (EventLoop_handleEvents wake_fd evs (EventLoop_drainPending reg (EventLoop_drainPendingWrites el)))"
  define el3 where "el3 = EventLoop_checkTimeouts now_ms el1"
  have inv: "el_inv el3"
    unfolding el3_def el1_def EventLoop_checkTimeouts_def
    by (intro check_loop_inv handleEvents_inv drainPending_inv drainPendingWrites_inv assms(1))
  have ok: "conns_ok el3"
    unfolding el3_def el1_def EventLoop_checkTimeouts_def using assms(2,3) by (simp add: conns_keeps conns_ok_events)
  obtain due w cs ds where t: "TimerWheel_tick heartbeat_expired (el_wheel el3, el_conns el3) = Inr (due, w, cs)"
    and sw: "sweep_closed cs (el3\<lparr>el_wheel := w, el_conns := cs\<rparr>) = (ds, el')"
    using assms(4)
    by (auto simp: EventLoop_run_iteration_def EventLoop_cleanupClosed_def el1_def el3_def case_prod_beta Let_def res_bind_Inr_iff)
  have "cs = el_conns el3" using tick_heartbeat_inv [OF inv t] by simp
  with ok sweep_result [OF sw] show ?thesis by (auto simp: conns_ok_def)
qed

end
