(* ===== verification/Server.thy ===== *)
theory Server
  imports Game_Server Loop_Facts Acceptor Redis_Client Mysql_Client
begin

text \<open>
  The server as a whole: the life cycle of \<open>src/src/game/game_server.cpp\<close> (\<open>start\<close>, \<open>stop\<close>, \<open>initStorage\<close>, \<open>initNetwork\<close>),
  \<open>src/src/main/main.cpp\<close>, and the threads as one machine. Its steps are what the threads do between two
  points where they can meet: the acceptor takes one connection, an I/O loop goes round once and its
  callbacks run in the game server, the timer thread makes a pass, a logic worker applies an operation
  or ticks. What the game server sends is appended to the queues of the loops, by whichever thread.
\<close>

section \<open>Starting and stopping\<close>

record dials =
  dial_mysql :: "string \<Rightarrow> int \<Rightarrow> string \<Rightarrow> string \<Rightarrow> string \<Rightarrow> nat \<Rightarrow> (nat \<times> bool) option"
  dial_redis :: "string \<Rightarrow> int \<Rightarrow> nat \<Rightarrow> (nat \<times> bool) option"

datatype start_fault = Mysql_unreachable | Redis_unreachable | Storage_failed fault | Network_failed acc_fault

definition client_pool :: "pool_client \<Rightarrow> nat pool" where
  "client_pool cl = (case cl_pool cl of None \<Rightarrow> [] | Some p \<Rightarrow> p)"

text \<open>The default of \<open>pool_size\<close> in both headers.\<close>

definition kPoolSize :: nat where "kPoolSize = 4"

definition GameServer_initStorage :: "dials \<Rightarrow> 'w env \<Rightarrow> game_config \<Rightarrow> 'w \<Rightarrow> start_fault + 'w store" where
  "GameServer_initStorage d env cfg w =
     (case MysqlClient_connect (dial_mysql d (cfg_mysql_host cfg) (cfg_mysql_port cfg) (cfg_mysql_user cfg) (cfg_mysql_pass cfg) (cfg_mysql_db cfg))
             kPoolSize pool_client_new of
        (freed, ok, my) \<Rightarrow>
          if \<not> ok then Inl Mysql_unreachable
          else case MysqlClient_ensureSchema env \<lparr>redis_pool = [], mysql_pool = client_pool my, world = w\<rparr> of
            Inl f \<Rightarrow> Inl (Storage_failed f)
          | Inr (u, st) \<Rightarrow>
              (case RedisClient_connect (dial_redis d (cfg_redis_host cfg) (cfg_redis_port cfg)) kPoolSize pool_client_new of
                 (freed', ok', re) \<Rightarrow> if \<not> ok' then Inl Redis_unreachable else Inr (st\<lparr>redis_pool := client_pool re\<rparr>)))"

definition GameServer_initNetwork :: "game_config \<Rightarrow> start_fault + event_loop list \<times> acceptor" where
  "GameServer_initNetwork cfg =
     (let n = nat (cfg_io_threads cfg);
          loops = replicate n (EventLoop_setDisconnectCallback True (EventLoop_setFrameCallback True EventLoop_new))
      in case Acceptor_new (cfg_listen_port cfg) n of
           Inl e \<Rightarrow> Inl (Network_failed e)
         | Inr a \<Rightarrow> Inr (loops, a))"

record 'w server =
  sv_game :: game_server
  sv_store :: "'w store"
  sv_loops :: "event_loop list"
  sv_acceptor :: acceptor
  sv_next_loop :: nat
  sv_kernel :: sock_kernel
  sv_running :: bool
  sv_timer_thread :: bool

text \<open>The threads of the I/O loops raise their flags when they begin to run.\<close>

definition GameServer_start :: "dials \<Rightarrow> 'w env \<Rightarrow> game_config \<Rightarrow> 'w \<Rightarrow> start_fault + 'w server" where
  "GameServer_start d env cfg w =
     res_bind (GameServer_initStorage d env cfg w) (\<lambda>st.
     res_bind (GameServer_initNetwork cfg) (\<lambda>(loops, a0).
       case Acceptor_start a0 of
         Inl e \<Rightarrow> Inl (Network_failed e)
       | Inr a \<Rightarrow>
           Inr \<lparr>sv_game = GameServer_initBusiness cfg, sv_store = st, sv_loops = map (\<lambda>el. el\<lparr>el_running := True\<rparr>) loops,
                sv_acceptor = a, sv_next_loop = 0, sv_kernel = [], sv_running = True, sv_timer_thread = True\<rparr>))"

definition GameServer_stop :: "'w server \<Rightarrow> 'w server" where
  "GameServer_stop sv =
     sv\<lparr>sv_running := False, sv_timer_thread := False, sv_acceptor := Acceptor_stop (sv_acceptor sv),
        sv_loops := map EventLoop_stop (sv_loops sv)\<rparr>"

text \<open>
  The destructors. A loop closes the sockets of its connections and of those it has not taken over yet;
  the server destroys its parts in the order opposite to that of their declaration, provided that no
  detached thread uses them any more. The result are the connections to Redis and MySQL that are closed, and the kernel.
\<close>

definition EventLoop_destroy :: "event_loop \<Rightarrow> sock_kernel \<Rightarrow> sock_kernel" where
  "EventLoop_destroy el k = fold (\<lambda>c. Socket_destroy \<lparr>sock_fd = conn_fd c\<rparr>) (map snd (el_conns el) @ pending_conns el) k"

definition open_client :: "nat pool \<Rightarrow> pool_client" where
  "open_client p = \<lparr>cl_connected = True, cl_pool = Some p\<rparr>"

definition GameServer_destroy :: "'w server \<Rightarrow> nat list \<times> nat list \<times> sock_kernel" where
  "GameServer_destroy sv =
     (let sv1 = GameServer_stop sv;
          k1 = Acceptor_destroy (sv_acceptor sv1) (sv_kernel sv1);
          k2 = fold EventLoop_destroy (sv_loops sv1) k1
      in (RedisClient_destroy (open_client (redis_pool (sv_store sv1))), MysqlClient_destroy (open_client (mysql_pool (sv_store sv1))), k2))"

section \<open>Messages between the parts\<close>

fun deliver :: "loop_write list \<Rightarrow> event_loop list \<Rightarrow> event_loop list" where
  "deliver [] loops = loops"
| "deliver ((l, c, data) # ws) loops = deliver ws (loops[l := EventLoop_sendToConnection c data (loops ! l)])"

fun hand_over :: "(nat \<times> connection) list \<Rightarrow> event_loop list \<Rightarrow> event_loop list" where
  "hand_over [] loops = loops"
| "hand_over ((l, c) # hs) loops = hand_over hs (loops[l := EventLoop_addConnection c (loops ! l)])"

text \<open>The callbacks of one iteration; \<open>inps\<close> and \<open>nows\<close> are what the handlers read from outside.\<close>

fun serve_outs ::
    "codec \<Rightarrow> 'w env \<Rightarrow> (nat \<Rightarrow> nat \<Rightarrow> gs_input) \<Rightarrow> (nat \<Rightarrow> int) \<Rightarrow> nat \<Rightarrow> nat \<Rightarrow> loop_out list \<Rightarrow> 'w gs_op" where
  "serve_outs cdc env inps nows l k [] gs = io_return ([], gs)"
| "serve_outs cdc env inps nows l k (Frames c fs # outs) gs =
     io_bind (GameServer_onFrames cdc env (inps k) l c fs gs) (\<lambda>(ws, gs1).
     io_bind (serve_outs cdc env inps nows l (k + 1) outs gs1) (\<lambda>(ws', gs2). io_return (ws @ ws', gs2)))"
| "serve_outs cdc env inps nows l k (Disconnected c # outs) gs =
     io_bind (GameServer_onDisconnect env (nows k) c gs) (\<lambda>(ws, gs1).
     io_bind (serve_outs cdc env inps nows l (k + 1) outs gs1) (\<lambda>(ws', gs2). io_return (ws @ ws', gs2)))"

text \<open>A connection that leaves a loop is destroyed, and its socket with it.\<close>

definition release :: "event_loop \<Rightarrow> event_loop \<Rightarrow> sock_kernel \<Rightarrow> sock_kernel" where
  "release el el' k = filter (\<lambda>(fd, s). fd \<in> set (loop_fds el) \<longrightarrow> fd \<in> set (loop_fds el')) k"

section \<open>The threads\<close>

datatype arena_fault = AF_Timer timer_fault | AF_Server fault | AF_Acceptor acc_fault | AF_No_return | AF_Worker ub

datatype arena_event =
    SV_Listen acceptor_sys
  | SV_Accept accept_outcome bool u64
  | SV_Iterate nat int "int \<Rightarrow> bool" u64 "epoll_ev list" "nat \<Rightarrow> nat \<Rightarrow> gs_input" "nat \<Rightarrow> int"
  | SV_Timer int
  | SV_Drain nat time_ns
  | SV_Tick nat "room_id \<Rightarrow> time_ns"

text \<open>The acceptor thread begins; without an epoll instance it ends at once.\<close>

definition start_listening :: "acceptor_sys \<Rightarrow> 'w server \<Rightarrow> arena_fault + 'w server" where
  "start_listening sys sv =
     (case Acceptor_open sys (sv_acceptor sv) (sv_kernel sv) of
        Inl e \<Rightarrow> Inl (AF_Acceptor e)
      | Inr (ready, a, k) \<Rightarrow> Inr (sv\<lparr>sv_acceptor := a, sv_next_loop := 0, sv_kernel := k\<rparr>))"

definition accept_one :: "accept_outcome \<Rightarrow> bool \<Rightarrow> u64 \<Rightarrow> 'w server \<Rightarrow> arena_fault + 'w server" where
  "accept_one answer nodelay now_ms sv =
     (case accept_loop [(answer, nodelay, now_ms)] (sv_acceptor sv) (sv_next_loop sv) (sv_kernel sv) of
        Inl e \<Rightarrow> Inl (AF_Acceptor e)
      | Inr (hs, a, l, k) \<Rightarrow>
          Inr (sv\<lparr>sv_acceptor := a, sv_next_loop := l, sv_kernel := k, sv_loops := hand_over hs (sv_loops sv)\<rparr>))"

definition iterate ::
    "codec \<Rightarrow> 'w env \<Rightarrow> nat \<Rightarrow> int \<Rightarrow> (int \<Rightarrow> bool) \<Rightarrow> u64 \<Rightarrow> epoll_ev list \<Rightarrow> (nat \<Rightarrow> nat \<Rightarrow> gs_input) \<Rightarrow> (nat \<Rightarrow> int) \<Rightarrow>
     'w server \<Rightarrow> arena_fault + 'w server" where
  "iterate cdc env l wake_fd reg now_ms evs inps nows sv =
     (case EventLoop_run_iteration wake_fd reg now_ms evs (sv_loops sv ! l) of
        Inl e \<Rightarrow> Inl (AF_Timer e)
      | Inr (outs, el) \<Rightarrow>
          (case serve_outs cdc env inps nows l 0 outs (sv_game sv) (sv_store sv) of
             Inl f \<Rightarrow> Inl (AF_Server f)
           | Inr ((ws, gs), st) \<Rightarrow>
               Inr (sv\<lparr>sv_kernel := release (sv_loops sv ! l) el (sv_kernel sv), sv_game := gs, sv_store := st,
                       sv_loops := deliver ws ((sv_loops sv)[l := el])\<rparr>)))"

definition timer_pass :: "codec \<Rightarrow> 'w env \<Rightarrow> int \<Rightarrow> 'w server \<Rightarrow> arena_fault + 'w server" where
  "timer_pass cdc env now sv =
     (case GameServer_timerPass cdc env now (sv_game sv) (sv_store sv) of
        None \<Rightarrow> Inl AF_No_return
      | Some (Inl f) \<Rightarrow> Inl (AF_Server f)
      | Some (Inr ((ws, gs), st)) \<Rightarrow> Inr (sv\<lparr>sv_game := gs, sv_store := st, sv_loops := deliver ws (sv_loops sv)\<rparr>))"

definition set_worker :: "nat \<Rightarrow> logic_worker \<Rightarrow> game_server \<Rightarrow> game_server" where
  "set_worker i w gs = gs\<lparr>gs_battle := (gs_battle gs)\<lparr>bm_workers := (bm_workers (gs_battle gs))[i := w]\<rparr>\<rparr>"

definition worker_drain :: "nat \<Rightarrow> time_ns \<Rightarrow> 'w server \<Rightarrow> arena_fault + 'w server" where
  "worker_drain i now sv =
     Inr (sv\<lparr>sv_game := set_worker i (drain_one now (bm_workers (gs_battle (sv_game sv)) ! i)) (sv_game sv)\<rparr>)"

text \<open>A tick sends through the callback of the battle manager, which looks up the connection of each player.\<close>

definition worker_tick :: "codec \<Rightarrow> nat \<Rightarrow> (room_id \<Rightarrow> time_ns) \<Rightarrow> 'w server \<Rightarrow> arena_fault + 'w server" where
  "worker_tick cdc i clk sv =
     (case LogicWorker_tick cdc clk (bm_workers (gs_battle (sv_game sv)) ! i) of
        Inl u \<Rightarrow> Inl (AF_Worker u)
      | Inr (sends, w) \<Rightarrow>
          (case send_players sends (sv_game sv) of
             Inl f \<Rightarrow> Inl (AF_Server f)
           | Inr ws \<Rightarrow> Inr (sv\<lparr>sv_game := set_worker i w (sv_game sv), sv_loops := deliver ws (sv_loops sv)\<rparr>)))"

fun arena_do :: "codec \<Rightarrow> 'w env \<Rightarrow> arena_event \<Rightarrow> 'w server \<Rightarrow> arena_fault + 'w server" where
  "arena_do cdc env (SV_Listen sys) sv = start_listening sys sv"
| "arena_do cdc env (SV_Accept answer nodelay now_ms) sv = accept_one answer nodelay now_ms sv"
| "arena_do cdc env (SV_Iterate l wake_fd reg now_ms evs inps nows) sv = iterate cdc env l wake_fd reg now_ms evs inps nows sv"
| "arena_do cdc env (SV_Timer now) sv = timer_pass cdc env now sv"
| "arena_do cdc env (SV_Drain i now) sv = worker_drain i now sv"
| "arena_do cdc env (SV_Tick i clk) sv = worker_tick cdc i clk sv"

definition arena_step :: "codec \<Rightarrow> 'w env \<Rightarrow> arena_fault + 'w server \<Rightarrow> arena_event \<Rightarrow> arena_fault + 'w server" where
  "arena_step cdc env s e = res_bind s (arena_do cdc env e)"

section \<open>The program\<close>

datatype outcome = Exit int "(nat list \<times> nat list \<times> sock_kernel) option" | Died arena_fault

definition main_config :: game_config where
  "main_config = GameConfig_default\<lparr>cfg_listen_port := 9000, cfg_io_threads := 4, cfg_match_room_size := 10\<rparr>"

text \<open>\<open>main\<close>: the events are what the threads do until the signal handler lowers \<open>g_running\<close>; then the server is stopped and destroyed.\<close>

definition main_program :: "dials \<Rightarrow> codec \<Rightarrow> 'w env \<Rightarrow> 'w \<Rightarrow> arena_event list \<Rightarrow> outcome" where
  "main_program d cdc env w evs =
     (case GameServer_start d env main_config w of
        Inl e \<Rightarrow> Exit 1 None
      | Inr sv \<Rightarrow>
          (case run_events (arena_step cdc env) (Inr sv) evs of
             Inl e \<Rightarrow> Died e
           | Inr sv' \<Rightarrow> Exit 0 (Some (GameServer_destroy (GameServer_stop sv')))))"

section \<open>Routes\<close>

fun route_upd :: "nat \<Rightarrow> loop_out \<Rightarrow> (conn_id, nat) umap \<Rightarrow> (conn_id, nat) umap" where
  "route_upd l (Frames c fs) m = uput c l m"
| "route_upd l (Disconnected c) m = uerase c m"

lemma serve_outs_routes:
  "serve_outs cdc env inps nows l k outs gs st = Inr ((ws, gs'), st') \<Longrightarrow>
   conn_to_loop gs' = fold (route_upd l) outs (conn_to_loop gs)"
proof (induction outs arbitrary: k gs st ws)
  case (Cons out outs)
  then show ?case
    by (cases out) (auto simp: io_bind_result dest!: onFrames_routes onDisconnect_routes)
qed simp

lemma routes_of_frames:
  assumes "\<forall>out \<in> set fr. \<exists>c fs. out = Frames c fs \<and> c \<in> K" and "uget (fold (route_upd l) fr m) c = Some l'"
  shows "uget m c = Some l' \<or> c \<in> K \<and> l' = l"
  using assms
proof (induction fr arbitrary: m)
  case (Cons out fr)
  then obtain c' fs where out: "out = Frames c' fs" "c' \<in> K" by auto
  from Cons.IH [of "uput c' l m"] Cons.prems out show ?case by (auto split: if_splits)
qed simp

lemma routes_of_disconnects:
  "uget (fold (route_upd l) (map Disconnected ds) m) c = (if c \<in> set ds then None else uget m c)"
  by (induction ds arbitrary: m) auto

lemma reported_routes:
  assumes "reports el outs el'" and "uget (fold (route_upd l) outs m) c = Some l'"
  shows "if c \<in> set (ukeys (el_conns el')) then uget m c = Some l' \<or> l' = l
    else uget m c = Some l' \<and> c \<notin> set (ukeys (el_conns el))"
proof -
  obtain K fr ds where r: "outs = fr @ map Disconnected ds" "\<forall>out \<in> set fr. \<exists>c fs. out = Frames c fs \<and> c \<in> K"
    "set (ukeys (el_conns el)) \<subseteq> K" "set (ukeys (el_conns el')) = K - set ds"
    using assms(1) unfolding reports_def by blast
  have "c \<notin> set ds" "uget (fold (route_upd l) fr m) c = Some l'"
    using assms(2) by (auto simp: r(1) routes_of_disconnects split: if_splits)
  from routes_of_frames [OF r(2) this(2)] this(1) r(3,4) show ?thesis by auto
qed

lemma deliver_length [simp]: "length (deliver ws loops) = length loops"
  by (induction ws loops rule: deliver.induct) auto

text \<open>What a loop finds in its queue: the writes that name it, in order.\<close>

definition writes_to :: "nat \<Rightarrow> loop_write list \<Rightarrow> (conn_id \<times> bytes) list" where
  "writes_to l ws = map snd (filter (\<lambda>w. fst w = l) ws)"

lemma deliver_nth:
  "l < length loops \<Longrightarrow> deliver ws loops ! l = (loops ! l)\<lparr>pending_writes := pending_writes (loops ! l) @ writes_to l ws\<rparr>"
proof (induction ws loops rule: deliver.induct)
  case (2 l' c data ws loops)
  then show ?case by (cases "l' = l") (simp_all add: writes_to_def EventLoop_sendToConnection_def)
qed (simp add: writes_to_def)

section \<open>The invariant of the network\<close>

definition loop_ok :: "'w server \<Rightarrow> nat \<Rightarrow> bool" where
  "loop_ok sv l \<longleftrightarrow>
     el_inv (sv_loops sv ! l) \<and> conns_ok (sv_loops sv ! l) \<and> el_disconnect_cb (sv_loops sv ! l) \<and>
     (\<forall>c \<in> ids_of (sv_loops sv ! l). unat c < unat (next_conn_id (sv_acceptor sv))) \<and>
     (\<forall>fd \<in> set (loop_fds (sv_loops sv ! l)). uget (sv_kernel sv) fd \<noteq> None)"

definition arena_inv :: "'w server \<Rightarrow> bool" where
  "arena_inv sv \<longleftrightarrow>
     acc_loops (sv_acceptor sv) = length (sv_loops sv) \<and> sv_next_loop sv < length (sv_loops sv) \<and>
     (\<forall>l < length (sv_loops sv). loop_ok sv l) \<and>
     (\<forall>l < length (sv_loops sv). \<forall>l' < length (sv_loops sv). l \<noteq> l' \<longrightarrow>
        ids_of (sv_loops sv ! l) \<inter> ids_of (sv_loops sv ! l') = {} \<and>
        set (loop_fds (sv_loops sv ! l)) \<inter> set (loop_fds (sv_loops sv ! l')) = {}) \<and>
     (\<forall>c l. uget (conn_to_loop (sv_game sv)) c = Some l \<longrightarrow>
        l < length (sv_loops sv) \<and> c \<in> set (ukeys (el_conns (sv_loops sv ! l))))"

lemma arena_invD:
  assumes "arena_inv sv"
  shows "acc_loops (sv_acceptor sv) = length (sv_loops sv)" and "sv_next_loop sv < length (sv_loops sv)"
    and "l < length (sv_loops sv) \<Longrightarrow> loop_ok sv l"
    and "l < length (sv_loops sv) \<Longrightarrow> l' < length (sv_loops sv) \<Longrightarrow> l \<noteq> l' \<Longrightarrow>
      ids_of (sv_loops sv ! l) \<inter> ids_of (sv_loops sv ! l') = {} \<and>
      set (loop_fds (sv_loops sv ! l)) \<inter> set (loop_fds (sv_loops sv ! l')) = {}"
    and "uget (conn_to_loop (sv_game sv)) c = Some l \<Longrightarrow> l < length (sv_loops sv) \<and> c \<in> set (ukeys (el_conns (sv_loops sv ! l)))"
  using assms unfolding arena_inv_def by blast+

text \<open>Appending to the queues of writes is invisible to the invariant.\<close>

lemma el_inv_writes [simp]: "el_inv (el\<lparr>pending_writes := ws\<rparr>) = el_inv el"
  by (simp add: el_inv_def)

lemma loop_sets_writes [simp]:
  "ids_of (el\<lparr>pending_writes := ws\<rparr>) = ids_of el" "loop_fds (el\<lparr>pending_writes := ws\<rparr>) = loop_fds el"
  by (simp_all add: ids_of_def loop_fds_def)

lemma arena_inv_deliver:
  assumes "arena_inv sv" and "conn_to_loop gs = conn_to_loop (sv_game sv)"
  shows "arena_inv (sv\<lparr>sv_game := gs, sv_store := st, sv_loops := deliver ws (sv_loops sv)\<rparr>)"
  using assms by (simp add: arena_inv_def loop_ok_def deliver_nth)

lemma arena_inv_iterate:
  assumes inv: "arena_inv sv" and l: "l < length (sv_loops sv)"
    and run: "EventLoop_run_iteration wake_fd reg now_ms evs (sv_loops sv ! l) = Inr (outs, el)"
    and evs: "\<forall>e \<in> set evs. event_ok e" and routes: "conn_to_loop gs = fold (route_upd l) outs (conn_to_loop (sv_game sv))"
  shows "arena_inv (sv\<lparr>sv_kernel := release (sv_loops sv ! l) el (sv_kernel sv), sv_game := gs, sv_loops := (sv_loops sv)[l := el]\<rparr>)"
    (is "arena_inv ?sv")
proof -
  note ok = arena_invD(3) [OF inv l, unfolded loop_ok_def]
  have el: "el_inv el" "conns_ok el" "el_disconnect_cb el"
    using run_iteration_inv [OF _ run] conns_ok_iteration [OF _ _ evs run] settings_iteration [OF run] ok by (simp_all add: settings_def)
  have rep: "reports (sv_loops sv ! l) outs el" and sub: "ids_of el \<subseteq> ids_of (sv_loops sv ! l)" "set (loop_fds el) \<subseteq> set (loop_fds (sv_loops sv ! l))"
    using iteration_reports [OF _ _ run] ok by blast+
  have kept: "uget (release (sv_loops sv ! l) el (sv_kernel sv)) fd \<noteq> None"
    if "uget (sv_kernel sv) fd \<noteq> None" "fd \<in> set (loop_fds (sv_loops sv ! l)) \<longrightarrow> fd \<in> set (loop_fds el)" for fd
    using that unfolding uget_in_keys by (force simp: release_def)
  have loops: "loop_ok ?sv l'" if "l' < length (sv_loops sv)" for l'
  proof (cases "l' = l")
    case True
    with el sub ok kept l show ?thesis by (auto simp: loop_ok_def)
  next
    case False
    note ok' = arena_invD(3) [OF inv that, unfolded loop_ok_def]
    have "\<forall>fd \<in> set (loop_fds (sv_loops sv ! l')). uget (release (sv_loops sv ! l) el (sv_kernel sv)) fd \<noteq> None"
      using ok' arena_invD(4) [OF inv that l False] kept by blast
    with False ok' show ?thesis by (simp add: loop_ok_def)
  qed
  have disj: "ids_of (sv_loops ?sv ! i) \<inter> ids_of (sv_loops ?sv ! j) = {} \<and>
      set (loop_fds (sv_loops ?sv ! i)) \<inter> set (loop_fds (sv_loops ?sv ! j)) = {}"
    if "i < length (sv_loops sv)" "j < length (sv_loops sv)" "i \<noteq> j" for i j
    using arena_invD(4) [OF inv that] sub l that by (cases "i = l"; cases "j = l") (auto simp: nth_list_update)
  have route: "l' < length (sv_loops sv) \<and> c \<in> set (ukeys (el_conns (sv_loops ?sv ! l')))"
    if "uget (fold (route_upd l) outs (conn_to_loop (sv_game sv))) c = Some l'" for c l'
  proof -
    have old: "l' < length (sv_loops sv) \<and> c \<in> set (ukeys (el_conns (sv_loops sv ! l')))" if "uget (conn_to_loop (sv_game sv)) c = Some l'"
      using arena_invD(5) [OF inv that] .
    have owner: "l' = l" if "uget (conn_to_loop (sv_game sv)) c = Some l'" "c \<in> set (ukeys (el_conns el))"
    proof (rule ccontr)
      assume "l' \<noteq> l"
      then have "ids_of (sv_loops sv ! l) \<inter> ids_of (sv_loops sv ! l') = {}"
        using arena_invD(4) [OF inv l, of l'] old [OF that(1)] by blast
      moreover have "c \<in> ids_of (sv_loops sv ! l')" "c \<in> ids_of el" using old [OF that(1)] that(2) by (simp_all add: ids_of_def)
      ultimately show False using sub(1) by blast
    qed
    show ?thesis
    proof (cases "c \<in> set (ukeys (el_conns el))")
      case True
      then have "l' = l" using reported_routes [OF rep that] owner by (simp only: if_True) blast
      with True l show ?thesis by simp
    next
      case False
      then have m: "uget (conn_to_loop (sv_game sv)) c = Some l'" and "c \<notin> set (ukeys (el_conns (sv_loops sv ! l)))"
        using reported_routes [OF rep that] by (simp_all only: if_False simp_thms)
      with old [OF m] have "l' \<noteq> l" by blast
      with old [OF m] show ?thesis by simp
    qed
  qed
  show ?thesis
    using arena_invD(1,2) [OF inv] loops disj route unfolding arena_inv_def by (simp add: routes)
qed

text \<open>A connection that is new to every loop.\<close>

lemma el_inv_add:
  assumes "el_inv el" and "conn_ident c \<notin> ids_of el" and "conn_fd c \<notin> set (loop_fds el)"
  shows "el_inv (EventLoop_addConnection c el)"
proof -
  have "loop_inv (loop_step (Inr el) (LE_Add c))"
    by (rule loop_step_inv) (use assms in \<open>auto simp: loop_inv_def ids_of_def loop_fds_def\<close>)
  then show ?thesis by (simp add: loop_inv_def)
qed

lemma add_sets:
  "ids_of (EventLoop_addConnection c el) = insert (conn_ident c) (ids_of el)"
  "set (loop_fds (EventLoop_addConnection c el)) = insert (conn_fd c) (set (loop_fds el))"
  "el_conns (EventLoop_addConnection c el) = el_conns el"
  "el_disconnect_cb (EventLoop_addConnection c el) = el_disconnect_cb el"
  by (auto simp: ids_of_def loop_fds_def EventLoop_addConnection_def)

lemma arena_inv_add:
  assumes inv: "arena_inv sv" and fd: "new_fd fd (sv_kernel sv)"
    and room: "unat (next_conn_id (sv_acceptor sv)) < 2 ^ 64 - 1"
    and c: "conn_ident c = next_conn_id (sv_acceptor sv)" "conn_fd c = fd" "Connection_inv c"
    and k: "\<And>f. uget k f \<noteq> None \<longleftrightarrow> f = fd \<or> uget (sv_kernel sv) f \<noteq> None"
  defines "l \<equiv> sv_next_loop sv"
  shows "arena_inv (sv\<lparr>sv_acceptor := (sv_acceptor sv)\<lparr>next_conn_id := next_conn_id (sv_acceptor sv) + 1\<rparr>,
      sv_next_loop := (l + 1) mod length (sv_loops sv), sv_kernel := k,
      sv_loops := (sv_loops sv)[l := EventLoop_addConnection c (sv_loops sv ! l)]\<rparr>)" (is "arena_inv ?sv")
proof -
  let ?a = "next_conn_id (sv_acceptor sv)"
  have l: "l < length (sv_loops sv)" using arena_invD(2) [OF inv] by (simp add: l_def)
  have Suc: "unat (?a + 1) = unat ?a + 1" using room by (simp add: unat_word_ariths)
  have new: "?a \<notin> ids_of (sv_loops sv ! i)" "fd \<notin> set (loop_fds (sv_loops sv ! i))" if "i < length (sv_loops sv)" for i
    using arena_invD(3) [OF inv that] fd by (auto simp: loop_ok_def new_fd_def)
  have loops: "loop_ok ?sv i" if "i < length (sv_loops sv)" for i
  proof -
    have "unat x < unat ?a + 1" if "x \<in> ids_of (sv_loops sv ! i)" for x
      using arena_invD(3) [OF inv \<open>i < length (sv_loops sv)\<close>] that by (force simp: loop_ok_def)
    then show ?thesis
      using arena_invD(3) [OF inv that] el_inv_add [of "sv_loops sv ! l" c] new [OF l] c k l that
      by (cases "i = l") (simp_all add: loop_ok_def conns_ok_add add_sets Suc del: not_None_eq)
  qed
  have disj: "ids_of (sv_loops ?sv ! i) \<inter> ids_of (sv_loops ?sv ! j) = {} \<and>
      set (loop_fds (sv_loops ?sv ! i)) \<inter> set (loop_fds (sv_loops ?sv ! j)) = {}"
    if "i < length (sv_loops sv)" "j < length (sv_loops sv)" "i \<noteq> j" for i j
    using arena_invD(4) [OF inv that] new [OF that(1)] new [OF that(2)] c l that
    by (cases "i = l"; cases "j = l") (auto simp: nth_list_update add_sets)
  have route: "x < length (sv_loops sv) \<and> y \<in> set (ukeys (el_conns (sv_loops ?sv ! x)))"
    if "uget (conn_to_loop (sv_game sv)) y = Some x" for x y
    using arena_invD(5) [OF inv that] l by (cases "x = l") (simp_all add: add_sets del: set_map)
  have "(l + 1) mod length (sv_loops sv) < length (sv_loops sv)" 
    using mod_less_divisor [of "length (sv_loops sv)" "l + 1"] l by linarith
  then show ?thesis
    using arena_invD(1) [OF inv] loops disj route unfolding arena_inv_def by simp
qed

lemma arena_inv_kernel:
  assumes "arena_inv sv" and "acc_loops a = acc_loops (sv_acceptor sv)" and "next_conn_id a = next_conn_id (sv_acceptor sv)"
    and "n < length (sv_loops sv)" and "\<And>f. uget (sv_kernel sv) f \<noteq> None \<Longrightarrow> uget k f \<noteq> None"
  shows "arena_inv (sv\<lparr>sv_acceptor := a, sv_next_loop := n, sv_kernel := k\<rparr>)"
  using assms by (auto simp: arena_inv_def loop_ok_def)

section \<open>The machine\<close>

definition sv_inv :: "arena_fault + 'w server \<Rightarrow> bool" where
  "sv_inv s \<longleftrightarrow> (case s of Inl e \<Rightarrow> True | Inr sv \<Rightarrow> arena_inv sv)"

text \<open>
  What is asked of the outside: the kernel gives descriptors that are not open, the acceptor thread
  starts once, fewer than \<open>2 ^ 64 - 1\<close> connections are accepted, only loops that exist iterate, and a
  read or write moves no more bytes than asked.
\<close>

fun arena_ok :: "arena_fault + 'w server \<Rightarrow> arena_event \<Rightarrow> bool" where
  "arena_ok (Inr sv) (SV_Listen sys) \<longleftrightarrow> \<not> Socket_valid (listen_sock (sv_acceptor sv)) \<and> (\<forall>fd \<in> set_option (sys_socket sys). new_fd fd (sv_kernel sv))"
| "arena_ok (Inr sv) (SV_Accept answer nodelay now_ms) \<longleftrightarrow>
     (case answer of Accepted fd \<Rightarrow> new_fd fd (sv_kernel sv) | _ \<Rightarrow> True) \<and> unat (next_conn_id (sv_acceptor sv)) < 2 ^ 64 - 1"
| "arena_ok (Inr sv) (SV_Iterate l wake_fd reg now_ms evs inps nows) \<longleftrightarrow> l < length (sv_loops sv) \<and> (\<forall>e \<in> set evs. event_ok e)"
| "arena_ok s e \<longleftrightarrow> True"

lemma open_kernel:
  assumes "Acceptor_open sys a k = Inr (ready, a', k')" and "\<not> Socket_valid (listen_sock a)" and "uget k f \<noteq> None"
  shows "uget k' f \<noteq> None"
  using assms
  by (auto simp: Acceptor_open_def res_bind_Inr_iff Let_def case_prod_beta Socket_createTcp_def Socket_move_assign_def Socket_close_def
      Socket_valid_def Socket_bind_def Socket_listen_def Socket_setReuseAddr_def split: option.splits if_splits)

lemma arena_accept_inv:
  assumes inv: "arena_inv sv" and ok: "arena_ok (Inr sv) (SV_Accept answer nodelay now_ms)"
    and r: "accept_one answer nodelay now_ms sv = Inr sv'"
  shows "arena_inv sv'"
proof (cases answer)
  case (Accepted fd)
  note a = arena_invD(1,2) [OF inv]
  let ?k = "Socket_setNoDelay nodelay \<lparr>sock_fd = fd\<rparr> (uput fd ksock_new (sv_kernel sv))"
  have fd: "new_fd fd (sv_kernel sv)" using ok Accepted by simp
  then have "sv' = sv\<lparr>sv_acceptor := (sv_acceptor sv)\<lparr>next_conn_id := next_conn_id (sv_acceptor sv) + 1\<rparr>,
      sv_next_loop := (sv_next_loop sv + 1) mod length (sv_loops sv), sv_kernel := ?k,
      sv_loops := (sv_loops sv)[sv_next_loop sv := EventLoop_addConnection (Connection_new now_ms (next_conn_id (sv_acceptor sv)) fd)
         (sv_loops sv ! sv_next_loop sv)]\<rparr>"
    using r a by (auto simp: Accepted accept_one_def Socket_accept_def Socket_valid_def new_fd_def)
  then show ?thesis
    using arena_inv_add [OF inv fd, of "Connection_new now_ms (next_conn_id (sv_acceptor sv)) fd" ?k] ok
    by (simp add: Socket_setNoDelay_def del: not_None_eq)
next
  case No_pending
  with r inv show ?thesis by (auto simp: accept_one_def Socket_accept_def Socket_valid_def Socket_default_def)
next
  case Accept_failed
  with r show ?thesis by (auto simp: accept_one_def Socket_accept_def)
qed

lemma arena_listen_inv:
  assumes inv: "arena_inv sv" and ok: "arena_ok (Inr sv) (SV_Listen sys)" and r: "start_listening sys sv = Inr sv'"
  shows "arena_inv sv'"
proof -
  obtain ready a k where o: "Acceptor_open sys (sv_acceptor sv) (sv_kernel sv) = Inr (ready, a, k)"
    and sv': "sv' = sv\<lparr>sv_acceptor := a, sv_next_loop := 0, sv_kernel := k\<rparr>"
    using r by (auto simp: start_listening_def split: sum.splits)
  show ?thesis
    unfolding sv' by (rule arena_inv_kernel [OF inv]) (use open_keeps [OF o] open_kernel [OF o] ok arena_invD(2) [OF inv] in auto)
qed

lemma arena_iterate_inv:
  assumes inv: "arena_inv sv" and l: "l < length (sv_loops sv)" and evs: "\<forall>e \<in> set evs. event_ok e"
    and r: "iterate cdc env l wake_fd reg now_ms evs inps nows sv = Inr sv'"
  shows "arena_inv sv'"
proof -
  obtain outs el ws gs st where run: "EventLoop_run_iteration wake_fd reg now_ms evs (sv_loops sv ! l) = Inr (outs, el)"
    and serve: "serve_outs cdc env inps nows l 0 outs (sv_game sv) (sv_store sv) = Inr ((ws, gs), st)"
    and sv': "sv' = sv\<lparr>sv_kernel := release (sv_loops sv ! l) el (sv_kernel sv), sv_game := gs, sv_store := st,
       sv_loops := deliver ws ((sv_loops sv)[l := el])\<rparr>"
    using r by (auto simp: iterate_def split: sum.splits)
  let ?sv = "sv\<lparr>sv_kernel := release (sv_loops sv ! l) el (sv_kernel sv), sv_game := gs, sv_loops := (sv_loops sv)[l := el]\<rparr>"
  have "arena_inv ?sv" by (rule arena_inv_iterate [OF inv l run evs serve_outs_routes [OF serve]])
  from arena_inv_deliver [OF this, where gs = gs and st = st and ws = ws] show ?thesis by (simp add: sv')
qed

lemma arena_do_inv:
  assumes "arena_inv sv" and "arena_ok (Inr sv) e" and "arena_do cdc env e sv = Inr sv'"
  shows "arena_inv sv'"
proof (cases e)
  case (SV_Timer now)
  with assms arena_inv_deliver [OF assms(1)] show ?thesis
    by (auto simp: timer_pass_def split: option.splits sum.splits dest!: timerPass_routes)
next
  case (SV_Drain i now)
  with assms(3) have sv': "sv' = sv\<lparr>sv_game := set_worker i (drain_one now (bm_workers (gs_battle (sv_game sv)) ! i)) (sv_game sv)\<rparr>"
    by (simp add: worker_drain_def)
  with assms(1) show ?thesis by (simp add: arena_inv_def loop_ok_def set_worker_def)
next
  case (SV_Tick i clk)
  from assms(3) obtain w ws where "sv' = sv\<lparr>sv_game := set_worker i w (sv_game sv), sv_store := sv_store sv, sv_loops := deliver ws (sv_loops sv)\<rparr>"
    by (auto simp: SV_Tick worker_tick_def split: sum.splits prod.splits)
  with arena_inv_deliver [OF assms(1), where gs = "set_worker i w (sv_game sv)" and st = "sv_store sv" and ws = ws] show ?thesis by (simp add: set_worker_def)
next
  case (SV_Listen sys)
  from arena_listen_inv [OF assms(1) assms(2) [unfolded SV_Listen]] assms(3) show ?thesis by (simp add: SV_Listen)
next
  case (SV_Accept answer nodelay now_ms)
  from arena_accept_inv [OF assms(1) assms(2) [unfolded SV_Accept]] assms(3) show ?thesis by (simp add: SV_Accept)
next
  case (SV_Iterate l wake_fd reg now_ms evs inps nows)
  with assms show ?thesis by (auto intro: arena_iterate_inv)
qed

lemma arena_step_inv: "sv_inv s \<Longrightarrow> arena_ok s e \<Longrightarrow> sv_inv (arena_step cdc env s e)"
  by (cases s; cases "arena_step cdc env s e") (auto simp: sv_inv_def arena_step_def dest: arena_do_inv)

interpretation arn: machine "arena_step cdc env" arena_ok sv_inv for cdc env
  by unfold_locales (rule arena_step_inv)

section \<open>A server that has started\<close>

lemma start_result:
  assumes "GameServer_start d env cfg w = Inr sv"
  shows "0 < cfg_io_threads cfg" "length (sv_loops sv) = nat (cfg_io_threads cfg)"
    "sv_game sv = GameServer_initBusiness cfg" "GameServer_initStorage d env cfg w = Inr (sv_store sv)"
    "sv_kernel sv = []" "sv_next_loop sv = 0" "acc_loops (sv_acceptor sv) = length (sv_loops sv)" "next_conn_id (sv_acceptor sv) = 1"
    "\<forall>el \<in> set (sv_loops sv). el = EventLoop_new\<lparr>el_frame_cb := True, el_disconnect_cb := True, el_running := True\<rparr>"
    "listen_sock (sv_acceptor sv) = Socket_default" "acc_running (sv_acceptor sv)" "sv_running sv"
  using assms
  by (auto simp: GameServer_start_def GameServer_initNetwork_def Acceptor_new_def Acceptor_start_def res_bind_Inr_iff Let_def
      EventLoop_setDisconnectCallback_def EventLoop_setFrameCallback_def split: sum.splits if_splits)

lemma started_inv:
  assumes "GameServer_start d env cfg w = Inr sv"
  shows "arena_inv sv"
proof -
  note sv = start_result [OF assms]
  have el: "sv_loops sv ! l = EventLoop_new\<lparr>el_frame_cb := True, el_disconnect_cb := True, el_running := True\<rparr>" if "l < length (sv_loops sv)" for l
    using sv(9) that by (simp add: nth_mem)
  have "loop_ok sv l" if "l < length (sv_loops sv)" for l
    using new_loop_inv by (simp add: loop_ok_def conns_ok_def el [OF that] ids_of_def loop_fds_def EventLoop_new_def el_inv_def)
  moreover have "ids_of (sv_loops sv ! l) = {} \<and> loop_fds (sv_loops sv ! l) = []" if "l < length (sv_loops sv)" for l
    by (simp add: el [OF that] ids_of_def loop_fds_def EventLoop_new_def)
  moreover have "conn_to_loop (sv_game sv) = []" by (simp add: sv(3) GameServer_initBusiness_def)
  moreover have "0 < length (sv_loops sv)" using sv(1,2) by simp
  ultimately show ?thesis using sv(6,7) by (simp add: arena_inv_def)
qed

lemma reached_inv:
  assumes "GameServer_start d env cfg w = Inr sv0" and "admitted (arena_step cdc env) arena_ok (Inr sv0) evs"
    and "run_events (arena_step cdc env) (Inr sv0) evs = Inr sv"
  shows "arena_inv sv"
proof -
  have "sv_inv (run_events (arena_step cdc env) (Inr sv0) evs)"
    by (rule arn.run_inv [OF _ assms(2)]) (simp add: sv_inv_def started_inv [OF assms(1)])
  then show ?thesis by (simp add: assms(3) sv_inv_def)
qed

section \<open>Starting, case by case\<close>

definition pool_dialled :: "(nat \<Rightarrow> 'c option) \<Rightarrow> bool" where
  "pool_dialled create \<longleftrightarrow> (\<forall>i < kPoolSize. create i \<noteq> None)"

lemma client_connect_up:
  assumes "pool_dialled create"
  shows "client_connect create kPoolSize pool_client_new =
    ([], True, \<lparr>cl_connected = True, cl_pool = Some (map (the \<circ> create) [0..<kPoolSize])\<rparr>)"
proof (cases "ConnectionPool_new kPoolSize create")
  case (Inl e)
  obtain k freed where e: "e = (Create_failed k, freed)" by (metis pool_error.exhaust surj_pair)
  from create_loop_failure [of 0 kPoolSize create "[]" k freed] Inl e assms show ?thesis
    by (auto simp: ConnectionPool_new_def pool_dialled_def)
next
  case (Inr p)
  from create_loop_success [of 0 kPoolSize create "[]" p] Inr show ?thesis
    by (simp add: client_connect_def ConnectionPool_new_def pool_client_new_def drop_pool_def)
qed

lemma client_connect_down:
  assumes "\<not> pool_dialled create"
  shows "\<exists>freed. client_connect create kPoolSize pool_client_new = (freed, False, pool_client_new)"
proof (cases "ConnectionPool_new kPoolSize create")
  case (Inr p)
  with create_loop_success [of 0 kPoolSize create "[]" p] have "pool_dialled create"
    by (simp add: ConnectionPool_new_def pool_dialled_def)
  with assms show ?thesis ..
qed (auto simp: client_connect_def)

definition mysql_up :: "dials \<Rightarrow> game_config \<Rightarrow> bool" where
  "mysql_up d cfg = pool_dialled (\<lambda>i. MysqlClient_createConnection
     (dial_mysql d (cfg_mysql_host cfg) (cfg_mysql_port cfg) (cfg_mysql_user cfg) (cfg_mysql_pass cfg) (cfg_mysql_db cfg) i))"

definition redis_up :: "dials \<Rightarrow> game_config \<Rightarrow> bool" where
  "redis_up d cfg = pool_dialled (\<lambda>i. RedisClient_createConnection (dial_redis d (cfg_redis_host cfg) (cfg_redis_port cfg) i))"

lemma initStorage_cases:
  "if \<not> mysql_up d cfg then GameServer_initStorage d env cfg w = Inl Mysql_unreachable
   else if \<not> redis_up d cfg then GameServer_initStorage d env cfg w = Inl Redis_unreachable
   else \<exists>st. GameServer_initStorage d env cfg w = Inr st \<and> length (mysql_pool st) = kPoolSize \<and> length (redis_pool st) = kPoolSize"
proof (cases "mysql_up d cfg")
  case False
  then show ?thesis
    unfolding mysql_up_def by (auto simp: GameServer_initStorage_def MysqlClient_connect_def dest!: client_connect_down)
next
  case True
  define my where "my = map (the \<circ> (\<lambda>i. MysqlClient_createConnection
     (dial_mysql d (cfg_mysql_host cfg) (cfg_mysql_port cfg) (cfg_mysql_user cfg) (cfg_mysql_pass cfg) (cfg_mysql_db cfg) i))) [0..<kPoolSize]"
  have len: "length my = kPoolSize" by (simp add: my_def)
  then have "my \<noteq> []" by (auto simp: kPoolSize_def)
  then obtain st where st: "MysqlClient_ensureSchema env \<lparr>redis_pool = [], mysql_pool = my, world = w\<rparr> = Inr ((), st)"
    "mset (mysql_pool st) = mset my"
    using ensureSchema_returns [of "\<lparr>redis_pool = [], mysql_pool = my, world = w\<rparr>" env] by auto
  then have "length (mysql_pool st) = kPoolSize" using len by (metis size_mset)
  moreover have "GameServer_initStorage d env cfg w =
      (case RedisClient_connect (dial_redis d (cfg_redis_host cfg) (cfg_redis_port cfg)) kPoolSize pool_client_new of
         (freed, ok, re) \<Rightarrow> if \<not> ok then Inl Redis_unreachable else Inr (st\<lparr>redis_pool := client_pool re\<rparr>))"
    using client_connect_up [OF True [unfolded mysql_up_def]] st(1)
    by (simp add: GameServer_initStorage_def MysqlClient_connect_def client_pool_def my_def [symmetric])
  ultimately show ?thesis
    using True client_connect_up client_connect_down
    by (cases "redis_up d cfg") (fastforce simp: redis_up_def RedisClient_connect_def client_pool_def)+
qed

lemma initNetwork_main: "\<exists>loops a. GameServer_initNetwork main_config = Inr (loops, a) \<and> (\<exists>a'. Acceptor_start a = Inr a')"
  by (simp add: GameServer_initNetwork_def main_config_def Acceptor_new_def Acceptor_start_def GameConfig_default_def Let_def)

section \<open>The main theorems\<close>


text \<open>
  C3. Routes are never stale. After any history of a started server (connections accepted, loops
  iterating, timer passes, worker steps, in any order), a route from a connection to a loop leads to a loop that exists
  and still has the connection under that id, its descriptor is open in the kernel, its send buffer is
  within the limit, and no other loop has the connection or the descriptor, not even among the
  connections it has yet to take over.
\<close>

theorem routes_live:
  assumes "GameServer_start d env cfg w = Inr sv0" and "admitted (arena_step cdc env) arena_ok (Inr sv0) evs"
    and "run_events (arena_step cdc env) (Inr sv0) evs = Inr sv" and "uget (conn_to_loop (sv_game sv)) c = Some l"
  shows "l < length (sv_loops sv) \<and>
    (\<exists>cn. uget (el_conns (sv_loops sv ! l)) c = Some cn \<and> conn_ident cn = c \<and> uget (sv_kernel sv) (conn_fd cn) \<noteq> None \<and>
       Buffer_readable (send_buf cn) \<le> kSendQueueMax \<and>
       (\<forall>l' < length (sv_loops sv). l' \<noteq> l \<longrightarrow>
          c \<notin> ids_of (sv_loops sv ! l') \<and> conn_fd cn \<notin> set (loop_fds (sv_loops sv ! l'))))"
proof -
  have inv: "arena_inv sv" by (rule reached_inv [OF assms(1-3)])
  have l: "l < length (sv_loops sv)" "c \<in> set (ukeys (el_conns (sv_loops sv ! l)))" using arena_invD(5) [OF inv assms(4)] by auto
  then obtain cn where cn: "uget (el_conns (sv_loops sv ! l)) c = Some cn" by (metis not_None_eq uget_in_keys)
  note ok = arena_invD(3) [OF inv l(1), unfolded loop_ok_def el_inv_def]
  have ident: "conn_ident cn = c" using tablesD(1) [OF _ cn] ok by blast
  have mem: "c \<in> ids_of (sv_loops sv ! l)" "conn_fd cn \<in> set (loop_fds (sv_loops sv ! l))"
    using l(2) map_of_SomeD [OF cn] by (force simp: ids_of_def loop_fds_def)+
  have "c \<notin> ids_of (sv_loops sv ! l') \<and> conn_fd cn \<notin> set (loop_fds (sv_loops sv ! l'))"
    if "l' < length (sv_loops sv)" "l' \<noteq> l" for l'
    using arena_invD(4) [OF inv that(1) l(1) that(2)] mem by blast
  moreover have "Buffer_readable (send_buf cn) \<le> kSendQueueMax"
    using conns_ok_get [OF _ cn] ok by (simp add: Connection_inv_def)
  ultimately show ?thesis using l(1) cn ident ok mem(2) by blast
qed


section \<open>Examples\<close>

text \<open>Data bases that answer, and a server that has just started.\<close>

definition example_dials :: dials where
  "example_dials = \<lparr>dial_mysql = (\<lambda>host port user pass db i. Some (i, True)), dial_redis = (\<lambda>host port i. Some (i, False))\<rparr>"

definition ready_loop :: event_loop where
  "ready_loop = EventLoop_new\<lparr>el_frame_cb := True, el_disconnect_cb := True, el_running := True\<rparr>"

definition booted :: "'w store \<Rightarrow> 'w server" where
  "booted st =
     \<lparr>sv_game = GameServer_initBusiness main_config, sv_store = st, sv_loops = replicate 4 ready_loop,
      sv_acceptor = \<lparr>acc_port = 9000, acc_loops = 4, listen_sock = Socket_default, acc_running = True, acc_thread = True, next_conn_id = 1\<rparr>, sv_next_loop = 0,
      sv_kernel = [], sv_running = True, sv_timer_thread = True\<rparr>"

lemma example_start: "\<exists>st. GameServer_start example_dials env main_config w = Inr (booted st)"
proof -
  have "mysql_up example_dials main_config" "redis_up example_dials main_config"
    by (simp_all add: mysql_up_def redis_up_def pool_dialled_def example_dials_def MysqlClient_createConnection_def RedisClient_createConnection_def)
  then obtain st where "GameServer_initStorage example_dials env main_config w = Inr st"
    using initStorage_cases [of example_dials main_config env w] by auto
  then show ?thesis
    by (simp add: GameServer_start_def GameServer_initNetwork_def main_config_def GameConfig_default_def Acceptor_new_def Acceptor_start_def
        booted_def ready_loop_def EventLoop_setDisconnectCallback_def EventLoop_setFrameCallback_def Let_def)
qed

text \<open>A client connects and sends a heartbeat.\<close>

definition hello :: epoll_ev where
  "hello = \<lparr>ev_fd = 7, ev_in = True, ev_out = False, ev_now = 10, ev_read = chunk_waiting heartbeat_bytes, ev_write = (\<lambda>_. Inl EAGAIN)\<rparr>"

definition first_contact :: "arena_event list" where
  "first_contact =
     [SV_Listen quiet_kernel, SV_Accept (Accepted 7) True 0,
      SV_Iterate 0 5 (\<lambda>fd. True) 10 [hello] (\<lambda>_ _. example_input) (\<lambda>_. 0)]"

lemma hello_read:
  "\<exists>b. Connection_onReadable 10 (chunk_waiting heartbeat_bytes) (Connection_new 0 i fd) =
     (Connection_updateActive 10 ((Connection_new 0 i fd)\<lparr>recv_buf := b\<rparr>), [heartbeat_frame]) \<and> Buffer_inv b"
proof (rule onReadable_chunk [where c = "Connection_new 0 i fd" and ch = heartbeat_bytes and fs = "[heartbeat_frame]" and r = "[]" and t = 10])
  show "decode_all (Buffer_contents (recv_buf (Connection_new 0 i fd)) @ heartbeat_bytes) = ([heartbeat_frame], [], None)"
    using decode_all_encoded [of "[heartbeat_frame]" "[heartbeat_bytes]"] heartbeat_encodes by simp
qed (auto simp: heartbeat_bytes_def)

lemma hello_wheel:
  "TimerWheel_refresh 1 kHeartbeatIntervalMs (TimerWheel_add 1 kHeartbeatIntervalMs (Some ()) TimerWheel_new) =
     TimerWheel_add 1 kHeartbeatIntervalMs (Some ()) (TimerWheel_new :: unit timer_wheel)"
  by (simp add: TimerWheel_refresh_def TimerWheel_add_def TimerWheel_remove_def insert_entry_def
      TimerWheel_new_def TimerWheel_slotOf_def kTickMs_def kSlots_def kHeartbeatIntervalMs_def Let_def)

lemma hello_iteration:
  "\<exists>b el. EventLoop_run_iteration 5 (\<lambda>fd. True) 10 [hello] (EventLoop_addConnection (Connection_new 0 1 7) ready_loop) =
     Inr ([Frames 1 [heartbeat_frame]], el) \<and> el_conns el = [(1, Connection_updateActive 10 ((Connection_new 0 1 7)\<lparr>recv_buf := b\<rparr>))] \<and>
     pending_conns el = [] \<and> pending_writes el = [] \<and> Buffer_inv b"
proof -
  obtain b where b: "Connection_onReadable 10 (chunk_waiting heartbeat_bytes) (Connection_new 0 1 7) =
     (Connection_updateActive 10 ((Connection_new 0 1 7)\<lparr>recv_buf := b\<rparr>), [heartbeat_frame])" and "Buffer_inv b"
    using hello_read by blast
  from this(2) show ?thesis
    by (intro exI [of _ b]) (simp add: ready_loop_def EventLoop_new_def EventLoop_addConnection_def hello_def b
      EventLoop_run_iteration_def EventLoop_drainPending.simps EventLoop_drainPendingWrites.simps take_conn_def take_write_def
      handle_event_def on_readable_def put_conn_def Let_def hello_wheel Connection_updateActive_def
      with_conn_def EventLoop_addConnectionImpl_def EventLoop_checkTimeouts_def Connection_isTimeout_def kConnectionTimeoutMs_def
      EventLoop_cleanupClosed_def sample_wheel Connection_shouldCleanup_def)
qed

lemma hello_ok: "event_ok hello"
  by (simp add: event_ok_def hello_def chunk_waiting_ok sys_write_ok_def)

lemma first_contact_run:
  "\<exists>sv b. run_events (arena_step cdc env) (Inr (booted st)) first_contact = Inr sv \<and>
     admitted (arena_step cdc env) arena_ok (Inr (booted st)) first_contact \<and>
     conn_to_loop (sv_game sv) = [(1, 0)] \<and> length (sv_loops sv) = 4 \<and> pending_writes (sv_loops sv ! 0) = [] \<and>
     el_conns (sv_loops sv ! 0) = [(1, Connection_updateActive 10 ((Connection_new 0 1 7)\<lparr>recv_buf := b\<rparr>))] \<and> Buffer_inv b"
proof -
  obtain b el where el: "EventLoop_run_iteration 5 (\<lambda>fd. True) 10 [hello] (EventLoop_addConnection (Connection_new 0 1 7) ready_loop) =
     Inr ([Frames 1 [heartbeat_frame]], el)" "el_conns el = [(1, Connection_updateActive 10 ((Connection_new 0 1 7)\<lparr>recv_buf := b\<rparr>))]"
     "pending_writes el = []" "Buffer_inv b"
    using hello_iteration by blast
  have quiet: "serve_outs cdc env (\<lambda>_ _. example_input) (\<lambda>_. 0) 0 0 [Frames 1 [heartbeat_frame]] (GameServer_initBusiness main_config) st =
      Inr (([], (GameServer_initBusiness main_config)\<lparr>conn_to_loop := [(1, 0)]\<rparr>), st)"
    by (simp add: GameServer_onFrames_def MessageRouter_dispatch_def router_lookup heartbeat_frame_def handle_heartbeat_def
        GameServer_initBusiness_def SessionManager_getByConn_def SessionManager_setSendCallback_def SessionManager_new_def)
  show ?thesis
    by (simp add: first_contact_def arena_step_def start_listening_def accept_one_def iterate_def booted_def quiet_kernel_def
        Acceptor_open_def Socket_default_def Socket_createTcp_def Socket_move_assign_def Socket_close_def Socket_bind_def Socket_listen_def
        Socket_accept_def Socket_valid_def Socket_setReuseAddr_def Socket_setNoDelay_def new_fd_def quiet el
        del: serve_outs.simps) (use el(4) hello_ok in blast)
qed

theorem routes_live_witness:
  "\<exists>sv0 sv. GameServer_start example_dials example_env main_config (\<lambda>k. []) = Inr sv0 \<and>
     run_events (arena_step example_codec example_env) (Inr sv0) first_contact = Inr sv \<and>
     uget (conn_to_loop (sv_game sv)) 1 = Some 0 \<and>
     (\<exists>cn. uget (el_conns (sv_loops sv ! 0)) 1 = Some cn \<and> conn_ident cn = 1 \<and> uget (sv_kernel sv) (conn_fd cn) \<noteq> None)"
proof -
  obtain st where st: "GameServer_start example_dials example_env main_config (\<lambda>k. []) = Inr (booted st)" using example_start [of example_env "\<lambda>k. []"] by blast
  obtain sv where run: "run_events (arena_step example_codec example_env) (Inr (booted st)) first_contact = Inr sv"
    "admitted (arena_step example_codec example_env) arena_ok (Inr (booted st)) first_contact" "uget (conn_to_loop (sv_game sv)) 1 = Some 0"
    using first_contact_run [of example_codec example_env st] by auto
  from routes_live [OF st run(2,1,3)] st run show ?thesis by blast
qed

text \<open>The response to the client of the example, which arrives in two pieces.\<close>

definition pong :: bytes where
  "pong = [0, 0, 0, 20, 0, 0, 4, 78, 0, 0, 0, 0, 0, 0, 0, 0, 0, 0, 8, 1]"

lemma pong_encodes: "FrameCodec_encode 1102 0 0 [8, 1] = Inr pong"
  by (simp add: FrameCodec_encode_def frame_consts pong_def FrameCodec_writeHeader_def be32_def be16_def seq_hi_def seq_lo_take_bit)


end
