(* ===== verification/Threads.thy ===== *)
theory Threads
  imports Server
begin

text \<open>
  The threads and the game server. Every run of the threads of \<open>Server\<close> is a run of the sequential machine
  of \<open>Game_Server\<close>, whose events are computed from what the loops report: so what is proved there of every
  history holds of the server as its threads drive it.
\<close>

section \<open>The events of the game server\<close>

fun frame_events :: "(nat \<Rightarrow> gs_input) \<Rightarrow> nat \<Rightarrow> nat \<Rightarrow> conn_id \<Rightarrow> frame list \<Rightarrow> server_event list" where
  "frame_events inps k l c [] = []"
| "frame_events inps k l c (f # fs) = SE_Frame (inps k) l c f # frame_events inps (k + 1) l c fs"

fun out_events :: "(nat \<Rightarrow> nat \<Rightarrow> gs_input) \<Rightarrow> (nat \<Rightarrow> int) \<Rightarrow> nat \<Rightarrow> nat \<Rightarrow> loop_out list \<Rightarrow> server_event list" where
  "out_events inps nows l k [] = []"
| "out_events inps nows l k (Frames c fs # outs) = frame_events (inps k) 0 l c fs @ out_events inps nows l (k + 1) outs"
| "out_events inps nows l k (Disconnected c # outs) = SE_Disconnect (nows k) c # out_events inps nows l (k + 1) outs"

fun game_events :: "arena_fault + 'w server \<Rightarrow> arena_event \<Rightarrow> server_event list" where
  "game_events (Inr sv) (SV_Iterate l wake_fd reg now_ms evs inps nows) =
     (case EventLoop_run_iteration wake_fd reg now_ms evs (sv_loops sv ! l) of
        Inl e \<Rightarrow> []
      | Inr (outs, el) \<Rightarrow> out_events inps nows l 0 outs)"
| "game_events s (SV_Timer now) = [SE_Timer now]"
| "game_events s (SV_Drain i now) = [SE_Worker i (DrainOne now)]"
| "game_events s (SV_Tick i clk) = [SE_Worker i (Tick clk)]"
| "game_events s e = []"

section \<open>Frames are reported only if there are some\<close>

definition some_frames :: "loop_out list \<Rightarrow> bool" where
  "some_frames outs \<longleftrightarrow> (\<forall>c. Frames c [] \<notin> set outs)"

lemma some_frames_append [simp]: "some_frames (xs @ ys) \<longleftrightarrow> some_frames xs \<and> some_frames ys"
  by (auto simp: some_frames_def)

lemma some_frames_Nil [simp]: "some_frames []"
  by (simp add: some_frames_def)

lemma handle_event_some: "some_frames (fst (handle_event wake_fd e el))"
proof -
  have "some_frames (fst (on_readable e i c el))" for i c
    by (auto simp: some_frames_def on_readable_def Let_def case_prod_beta)
  then show ?thesis by (simp add: handle_event_def Let_def case_prod_beta split: option.splits)
qed

lemma handleEvents_some: "some_frames (fst (EventLoop_handleEvents wake_fd evs el))"
  by (induction evs arbitrary: el) (simp_all add: Let_def case_prod_beta handle_event_some)

lemma sweep_some: "some_frames (fst (sweep_closed cs el))"
  by (induction cs el rule: sweep_closed.induct) (simp_all add: some_frames_def Let_def case_prod_beta)

lemma iteration_some:
  assumes "EventLoop_run_iteration wake_fd reg now_ms evs el = Inr (outs, el')"
  shows "some_frames outs"
proof -
  obtain out ds cs el1 where "outs = out @ ds" "out = fst (EventLoop_handleEvents wake_fd evs (EventLoop_drainPending reg (EventLoop_drainPendingWrites el)))"
    and "sweep_closed cs el1 = (ds, el')"
    using assms by (auto simp: EventLoop_run_iteration_def EventLoop_cleanupClosed_def Let_def case_prod_beta res_bind_Inr_iff)
  with handleEvents_some sweep_some [of cs el1] show ?thesis by simp
qed

section \<open>Callbacks are sequences of events\<close>

lemma uput_same: "uget m k = Some v \<Longrightarrow> uput k v m = m"
  by (induction m) auto

lemma route_known:
  assumes "uget (conn_to_loop gs) c = Some l"
  shows "gs\<lparr>conn_to_loop := uput c l (conn_to_loop gs)\<rparr> = gs"
  by (simp add: uput_same [OF assms])

lemma frame_step:
  assumes "MessageRouter_dispatch cdc env GameServer_registerHandlers inp c f (gs\<lparr>conn_to_loop := uput c l (conn_to_loop gs)\<rparr>) st =
    Inr ((out, gs'), st')"
  shows "server_step cdc env (gs, st) (SE_Frame inp l c f) = (gs', st')"
  using assms by (simp add: onFrames_one continue_with_def)

lemma dispatch_frames_steps:
  "dispatch_frames cdc env inps k c fs gs st = Inr ((out, gs'), st') \<Longrightarrow> uget (conn_to_loop gs) c = Some l \<Longrightarrow>
   run_events (server_step cdc env) (gs, st) (frame_events inps k l c fs) = (gs', st')"
proof (induction fs arbitrary: k gs st out)
  case (Cons f fs)
  then obtain out1 gs1 st1 out2 where d: "MessageRouter_dispatch cdc env GameServer_registerHandlers (inps k) c f gs st = Inr ((out1, gs1), st1)"
    and rest: "dispatch_frames cdc env inps (k + 1) c fs gs1 st1 = Inr ((out2, gs'), st')"
    by (auto simp: io_bind_result)
  have "uget (conn_to_loop gs1) c = Some l" using dispatch_routes [OF d] Cons.prems(2) by simp
  moreover have "server_step cdc env (gs, st) (SE_Frame (inps k) l c f) = (gs1, st1)"
    by (rule frame_step) (simp add: route_known [OF Cons.prems(2)] d)
  ultimately show ?case using Cons.IH [OF rest] by (simp del: server_step.simps)
qed simp

lemma onFrames_steps:
  assumes "GameServer_onFrames cdc env inps l c fs gs st = Inr ((out, gs'), st')" and "fs \<noteq> []"
  shows "run_events (server_step cdc env) (gs, st) (frame_events inps 0 l c fs) = (gs', st')"
proof -
  let ?gs = "gs\<lparr>conn_to_loop := uput c l (conn_to_loop gs)\<rparr>"
  obtain f fs' where fs: "fs = f # fs'" using assms(2) by (cases fs) auto
  have "run_events (server_step cdc env) (?gs, st) (frame_events inps 0 l c fs) = (gs', st')"
    using assms(1) dispatch_frames_steps [of cdc env inps 0 c fs ?gs] by (simp add: GameServer_onFrames_def)
  moreover have "server_step cdc env (?gs, st) (SE_Frame (inps 0) l c f) = server_step cdc env (gs, st) (SE_Frame (inps 0) l c f)"
    using assms(1) by (auto simp: fs GameServer_onFrames_def onFrames_one io_bind_result uput_same continue_with_def)
  ultimately show ?thesis by (simp add: fs del: server_step.simps)
qed

lemma serve_outs_steps:
  "serve_outs cdc env inps nows l k outs gs st = Inr ((ws, gs'), st') \<Longrightarrow> some_frames outs \<Longrightarrow>
   run_events (server_step cdc env) (gs, st) (out_events inps nows l k outs) = (gs', st')"
proof (induction outs arbitrary: k gs st ws)
  case (Cons out outs)
  show ?case
  proof (cases out)
    case (Frames c fs)
    with Cons.prems obtain ws1 gs1 st1 ws2 where d: "GameServer_onFrames cdc env (inps k) l c fs gs st = Inr ((ws1, gs1), st1)"
      and rest: "serve_outs cdc env inps nows l (k + 1) outs gs1 st1 = Inr ((ws2, gs'), st')"
      by (auto simp: io_bind_result)
    have "fs \<noteq> []" "some_frames outs" using Cons.prems(2) Frames by (auto simp: some_frames_def)
    with onFrames_steps [OF d] Cons.IH [OF rest] show ?thesis by (simp add: Frames run_events_append)
  next
    case (Disconnected c)
    with Cons.prems obtain ws1 gs1 st1 ws2 where d: "GameServer_onDisconnect env (nows k) c gs st = Inr ((ws1, gs1), st1)"
      and rest: "serve_outs cdc env inps nows l (k + 1) outs gs1 st1 = Inr ((ws2, gs'), st')"
      by (auto simp: io_bind_result)
    have "some_frames outs" using Cons.prems(2) by (auto simp: some_frames_def)
    with d Cons.IH [OF rest] show ?thesis by (simp add: Disconnected continue_with_def)
  qed
qed simp

section \<open>Threads\<close>

lemma arena_do_steps:
  assumes "arena_do cdc env e sv = Inr sv'"
  shows "run_events (server_step cdc env) (sv_game sv, sv_store sv) (game_events (Inr sv) e) = (sv_game sv', sv_store sv')"
proof (cases e)
  case (SV_Listen sys)
  with assms show ?thesis by (auto simp: start_listening_def split: sum.splits)
next
  case (SV_Accept answer nodelay now_ms)
  with assms show ?thesis by (auto simp: accept_one_def split: sum.splits)
next
  case (SV_Iterate l wake_fd reg now_ms evs inps nows)
  with assms serve_outs_steps [OF _ iteration_some] show ?thesis
    by (auto simp: iterate_def split: sum.splits)
next
  case (SV_Timer now)
  with assms show ?thesis by (auto simp: timer_pass_def continue_with_def split: option.splits sum.splits)
next
  case (SV_Drain i now)
  with assms show ?thesis by (auto simp: worker_drain_def set_worker_def)
next
  case (SV_Tick i clk)
  with assms show ?thesis by (auto simp: worker_tick_def set_worker_def split: sum.splits)
qed

interpretation prj: projection "arena_step cdc env" "server_step cdc env" "\<lambda>s. \<exists>sv. s = Inr sv" game_events
    "\<lambda>s. (sv_game (projr s), sv_store (projr s))" for cdc env
proof unfold_locales
  fix s :: "arena_fault + 'a server" and e
  assume "\<exists>sv. arena_step cdc env s e = Inr sv"
  then obtain sv sv' where s: "s = Inr sv" "arena_do cdc env e sv = Inr sv'" by (auto simp: arena_step_def res_bind_Inr_iff)
  then show "\<exists>sv. s = Inr sv" by blast
  from arena_do_steps [OF s(2)] s
  show "run_events (server_step cdc env) (sv_game (projr s), sv_store (projr s)) (game_events s e) =
      (sv_game (projr (arena_step cdc env s e)), sv_store (projr (arena_step cdc env s e)))"
    by (simp add: arena_step_def)
qed

section \<open>The main theorem\<close>



end
