(* ===== verification/Shutdown.thy ===== *)
theory Shutdown
  imports Server
begin

text \<open>
  Who owns the descriptors that are open: the listening socket and the connections of the loops, and
  nobody else, at every moment of every run; and nobody after the server is destroyed.
\<close>

section \<open>Ownership\<close>

definition listens_on :: "'w server \<Rightarrow> int \<Rightarrow> bool" where
  "listens_on sv fd \<longleftrightarrow> Socket_valid (listen_sock (sv_acceptor sv)) \<and> fd = sock_fd (listen_sock (sv_acceptor sv))"

definition serves :: "'w server \<Rightarrow> nat \<Rightarrow> int \<Rightarrow> bool" where
  "serves sv l fd \<longleftrightarrow> l < length (sv_loops sv) \<and> fd \<in> set (loop_fds (sv_loops sv ! l))"

definition fds_owned :: "'w server \<Rightarrow> bool" where
  "fds_owned sv \<longleftrightarrow>
     (\<forall>fd. uget (sv_kernel sv) fd \<noteq> None \<longleftrightarrow> listens_on sv fd \<or> (\<exists>l. serves sv l fd)) \<and>
     (\<forall>fd l. serves sv l fd \<longrightarrow> fd \<ge> 0 \<and> \<not> listens_on sv fd)"

lemma fds_ownedI:
  assumes "\<And>fd. uget (sv_kernel sv) fd \<noteq> None \<longleftrightarrow> listens_on sv fd \<or> (\<exists>l. serves sv l fd)"
    and "\<And>fd l. serves sv l fd \<Longrightarrow> fd \<ge> 0 \<and> \<not> listens_on sv fd"
  shows "fds_owned sv"
  using assms by (simp add: fds_owned_def)

lemma fds_ownedD:
  assumes "fds_owned sv"
  shows "uget (sv_kernel sv) fd \<noteq> None \<longleftrightarrow> listens_on sv fd \<or> (\<exists>l. serves sv l fd)"
    and "serves sv l fd \<Longrightarrow> fd \<ge> 0 \<and> \<not> listens_on sv fd"
  using assms unfolding fds_owned_def by blast+

text \<open>Steps that touch neither kernel nor sockets; messages in the queues of the loops do not count.\<close>

lemma serves_deliver [simp]:
  "serves (sv\<lparr>sv_game := gs, sv_store := st, sv_loops := deliver ws (sv_loops sv)\<rparr>) l fd = serves sv l fd"
  by (auto simp: serves_def deliver_nth)

lemma owned_deliver: "fds_owned sv \<Longrightarrow> fds_owned (sv\<lparr>sv_game := gs, sv_store := st, sv_loops := deliver ws (sv_loops sv)\<rparr>)"
  by (simp add: fds_owned_def listens_on_def)

lemma owned_game: "fds_owned sv \<Longrightarrow> fds_owned (sv\<lparr>sv_game := gs\<rparr>)"
  by (simp add: fds_owned_def listens_on_def serves_def)

lemma release_open:
  "uget (release el el' k) fd \<noteq> None \<longleftrightarrow> uget k fd \<noteq> None \<and> (fd \<in> set (loop_fds el) \<longrightarrow> fd \<in> set (loop_fds el'))"
  unfolding uget_in_keys release_def by force

lemma owned_iterate:
  assumes own: "fds_owned sv" and inv: "arena_inv sv" and l: "l < length (sv_loops sv)"
    and r: "iterate cdc env l wake_fd reg now_ms evs inps nows sv = Inr sv'"
  shows "fds_owned sv'"
proof -
  obtain outs el ws gs st where run: "EventLoop_run_iteration wake_fd reg now_ms evs (sv_loops sv ! l) = Inr (outs, el)"
    and sv': "sv' = sv\<lparr>sv_kernel := release (sv_loops sv ! l) el (sv_kernel sv), sv_game := gs, sv_store := st,
       sv_loops := deliver ws ((sv_loops sv)[l := el])\<rparr>"
    using r by (auto simp: iterate_def split: sum.splits)
  let ?sv = "sv\<lparr>sv_kernel := release (sv_loops sv ! l) el (sv_kernel sv), sv_loops := (sv_loops sv)[l := el]\<rparr>"
  have sub: "set (loop_fds el) \<subseteq> set (loop_fds (sv_loops sv ! l))"
    using iteration_reports [OF _ _ run] arena_invD(3) [OF inv l] by (simp add: loop_ok_def)
  have serves: "serves ?sv l' fd \<longleftrightarrow> (if l' = l then fd \<in> set (loop_fds el) else serves sv l' fd)" for l' fd
    using l by (auto simp: serves_def nth_list_update)
  have other: "fd \<notin> set (loop_fds (sv_loops sv ! l))" if "serves sv l' fd" "l' \<noteq> l" for l' fd
    using arena_invD(4) [OF inv _ l] that by (auto simp: serves_def)
  have old: "serves sv l fd \<longleftrightarrow> fd \<in> set (loop_fds (sv_loops sv ! l))" for fd using l by (simp add: serves_def)
  have "fds_owned ?sv"
  proof (rule fds_ownedI)
    fix fd
    have "(\<exists>l'. serves ?sv l' fd) \<longleftrightarrow> fd \<in> set (loop_fds el) \<or> (\<exists>l'. l' \<noteq> l \<and> serves sv l' fd)" by (auto simp: serves)
    moreover have "uget (sv_kernel ?sv) fd \<noteq> None \<longleftrightarrow> uget (sv_kernel sv) fd \<noteq> None \<and> (serves sv l fd \<longrightarrow> fd \<in> set (loop_fds el))"
      by (simp add: release_open old del: not_None_eq)
    moreover have "listens_on ?sv fd \<longleftrightarrow> listens_on sv fd" by (simp add: listens_on_def)
    moreover have "fd \<in> set (loop_fds el) \<longrightarrow> serves sv l fd" "\<forall>l'. l' \<noteq> l \<and> serves sv l' fd \<longrightarrow> \<not> serves sv l fd"
      using sub other by (auto simp: old)
    ultimately show "uget (sv_kernel ?sv) fd \<noteq> None \<longleftrightarrow> listens_on ?sv fd \<or> (\<exists>l'. serves ?sv l' fd)"
      using fds_ownedD [OF own, where fd = fd] by (simp only:) metis
    show "fd \<ge> 0 \<and> \<not> listens_on ?sv fd" if "serves ?sv l' fd" for l'
      using fds_ownedD(2) [OF own, where fd = fd] that sub old by (auto simp: serves listens_on_def split: if_splits)
  qed
  from owned_deliver [OF this, where gs = gs and st = st and ws = ws] show ?thesis by (simp add: sv')
qed

lemma owned_accept:
  assumes own: "fds_owned sv" and inv: "arena_inv sv" and ok: "arena_ok (Inr sv) (SV_Accept answer nodelay now_ms)"
    and r: "accept_one answer nodelay now_ms sv = Inr sv'"
  shows "fds_owned sv'"
proof (cases answer)
  case (Accepted fd)
  note a = arena_invD(1,2) [OF inv]
  have new: "fd \<ge> 0" "uget (sv_kernel sv) fd = None" using ok Accepted by (simp_all add: new_fd_def)
  let ?c = "Connection_new now_ms (next_conn_id (sv_acceptor sv)) fd"
  have sv': "sv' = sv\<lparr>sv_acceptor := (sv_acceptor sv)\<lparr>next_conn_id := next_conn_id (sv_acceptor sv) + 1\<rparr>,
      sv_next_loop := (sv_next_loop sv + 1) mod length (sv_loops sv),
      sv_kernel := Socket_setNoDelay nodelay \<lparr>sock_fd = fd\<rparr> (uput fd ksock_new (sv_kernel sv)),
      sv_loops := (sv_loops sv)[sv_next_loop sv := EventLoop_addConnection ?c (sv_loops sv ! sv_next_loop sv)]\<rparr>"
    using r a new(1) by (auto simp: Accepted accept_one_def Socket_accept_def Socket_valid_def)
  have serves: "serves sv' l x \<longleftrightarrow> serves sv l x \<or> l = sv_next_loop sv \<and> x = fd" for l x
    using a by (auto simp: sv' serves_def nth_list_update add_sets)
  have listens: "listens_on sv' x \<longleftrightarrow> listens_on sv x" for x by (simp add: sv' listens_on_def)
  have kernel: "uget (sv_kernel sv') x \<noteq> None \<longleftrightarrow> x = fd \<or> uget (sv_kernel sv) x \<noteq> None" for x
    by (simp add: sv' Socket_setNoDelay_def)
  show ?thesis
  proof (rule fds_ownedI)
    show "uget (sv_kernel sv') x \<noteq> None \<longleftrightarrow> listens_on sv' x \<or> (\<exists>l. serves sv' l x)" for x
      unfolding kernel listens serves using fds_ownedD(1) [OF own, of x] by blast
    show "x \<ge> 0 \<and> \<not> listens_on sv' x" if "serves sv' l x" for x l
      using that fds_ownedD [OF own, where fd = x] new unfolding listens serves by blast
  qed
next
  case No_pending
  with r own show ?thesis by (auto simp: accept_one_def Socket_accept_def Socket_valid_def Socket_default_def fds_owned_def listens_on_def serves_def)
next
  case Accept_failed
  with r show ?thesis by (auto simp: accept_one_def Socket_accept_def)
qed

lemma open_result:
  assumes "Acceptor_open sys a k = Inr (ready, a', k')" and "\<not> Socket_valid (listen_sock a)"
  shows "\<exists>fd. sys_socket sys = Some fd \<and> listen_sock a' = \<lparr>sock_fd = fd\<rparr> \<and> (\<forall>x. uget k' x = None \<longleftrightarrow> x \<noteq> fd \<and> uget k x = None)"
  using assms
  by (auto simp: Acceptor_open_def res_bind_Inr_iff Let_def case_prod_beta Socket_createTcp_def Socket_move_assign_def Socket_close_def
      Socket_valid_def Socket_bind_def Socket_listen_def Socket_setReuseAddr_def split: option.splits if_splits)

lemma owned_listen:
  assumes own: "fds_owned sv" and ok: "arena_ok (Inr sv) (SV_Listen sys)" and r: "start_listening sys sv = Inr sv'"
  shows "fds_owned sv'"
proof -
  obtain ready a k where o: "Acceptor_open sys (sv_acceptor sv) (sv_kernel sv) = Inr (ready, a, k)"
    and sv': "sv' = sv\<lparr>sv_acceptor := a, sv_next_loop := 0, sv_kernel := k\<rparr>"
    using r by (auto simp: start_listening_def split: sum.splits)
  obtain fd where fd: "sys_socket sys = Some fd" "listen_sock a = \<lparr>sock_fd = fd\<rparr>" "\<And>x. uget k x \<noteq> None \<longleftrightarrow> x = fd \<or> uget (sv_kernel sv) x \<noteq> None"
    using open_result [OF o] ok by (auto simp del: not_None_eq)
  have new: "fd \<ge> 0" "uget (sv_kernel sv) fd = None" and none: "\<not> listens_on sv x" for x
    using ok fd(1) by (simp_all add: new_fd_def listens_on_def)
  have serves: "serves sv' l x \<longleftrightarrow> serves sv l x" for l x by (simp add: sv' serves_def)
  have listens: "listens_on sv' x \<longleftrightarrow> x = fd" for x using new(1) by (auto simp: sv' listens_on_def fd(2) Socket_valid_def)
  show ?thesis
  proof (rule fds_ownedI)
    show "uget (sv_kernel sv') x \<noteq> None \<longleftrightarrow> listens_on sv' x \<or> (\<exists>l. serves sv' l x)" for x
      using fds_ownedD(1) [OF own, of x] none fd(3) [of x] unfolding listens serves by (auto simp: sv')
    show "x \<ge> 0 \<and> \<not> listens_on sv' x" if "serves sv' l x" for x l
      using that fds_ownedD [OF own, where fd = x] new(2) unfolding listens serves by blast
  qed
qed

section \<open>The machine\<close>

definition own_inv :: "arena_fault + 'w server \<Rightarrow> bool" where
  "own_inv s \<longleftrightarrow> (case s of Inl e \<Rightarrow> True | Inr sv \<Rightarrow> arena_inv sv \<and> fds_owned sv)"

lemma arena_do_owned:
  assumes "arena_inv sv" and "fds_owned sv" and "arena_ok (Inr sv) e" and "arena_do cdc env e sv = Inr sv'"
  shows "fds_owned sv'"
proof (cases e)
  case (SV_Timer now)
  with assms(4) obtain ws gs st where "sv' = sv\<lparr>sv_game := gs, sv_store := st, sv_loops := deliver ws (sv_loops sv)\<rparr>"
    by (auto simp: timer_pass_def split: option.splits sum.splits)
  with owned_deliver [OF assms(2)] show ?thesis by simp
next
  case (SV_Drain i now)
  with assms(4) owned_game [OF assms(2)] show ?thesis by (auto simp: worker_drain_def)
next
  case (SV_Tick i clk)
  from assms(4) obtain w ws where "sv' = sv\<lparr>sv_game := set_worker i w (sv_game sv), sv_store := sv_store sv, sv_loops := deliver ws (sv_loops sv)\<rparr>"
    by (auto simp: SV_Tick worker_tick_def split: sum.splits prod.splits)
  with owned_deliver [OF assms(2)] show ?thesis by (simp only:)
next
  case (SV_Listen sys)
  with assms owned_listen [OF assms(2), of sys] show ?thesis by simp
next
  case (SV_Accept answer nodelay now_ms)
  with assms owned_accept [OF assms(2,1), of answer nodelay now_ms] show ?thesis by simp
next
  case (SV_Iterate l wake_fd reg now_ms evs inps nows)
  with assms owned_iterate [OF assms(2,1)] show ?thesis by auto
qed

lemma own_step_inv: "own_inv s \<Longrightarrow> arena_ok s e \<Longrightarrow> own_inv (arena_step cdc env s e)"
  by (cases s; cases "arena_step cdc env s e") (auto simp: own_inv_def arena_step_def dest: arena_do_inv arena_do_owned)

interpretation own: machine "arena_step cdc env" arena_ok own_inv for cdc env
  by unfold_locales (rule own_step_inv)

lemma started_owned: "GameServer_start d env cfg w = Inr sv \<Longrightarrow> fds_owned sv"
proof -
  assume "GameServer_start d env cfg w = Inr sv"
  note sv = start_result [OF this]
  have "loop_fds el = []" if "el \<in> set (sv_loops sv)" for el using sv(9) that by (fastforce simp: loop_fds_def EventLoop_new_def)
  then have "\<not> serves sv l fd" for l fd by (simp add: serves_def)
  then show ?thesis
    by (simp add: fds_owned_def listens_on_def sv(5,10) Socket_valid_def Socket_default_def)
qed

section \<open>Destruction\<close>

lemma destroy_open: "uget (Socket_destroy s k) fd = (if sock_fd s \<ge> 0 \<and> fd = sock_fd s then None else uget k fd)"
  by (simp add: Socket_destroy_def Socket_close_def)

lemma loop_destroy_open:
  "uget (EventLoop_destroy el k) fd = (if fd \<in> set (loop_fds el) \<and> fd \<ge> 0 then None else uget k fd)"
proof -
  have "uget (fold (\<lambda>c. Socket_destroy \<lparr>sock_fd = conn_fd c\<rparr>) cs k) fd = (if fd \<in> conn_fd ` set cs \<and> fd \<ge> 0 then None else uget k fd)" for cs
    by (induction cs arbitrary: k) (auto simp: destroy_open)
  from this [of "map snd (el_conns el) @ pending_conns el"]
  have "uget (EventLoop_destroy el k) fd =
      (if fd \<in> conn_fd ` set (map snd (el_conns el) @ pending_conns el) \<and> fd \<ge> 0 then None else uget k fd)"
    unfolding EventLoop_destroy_def .
  moreover have "conn_fd ` set (map snd (el_conns el) @ pending_conns el) = set (loop_fds el)"
    by (force simp: loop_fds_def image_Un)
  ultimately show ?thesis by (simp only:)
qed

lemma loops_destroy_open:
  "uget (fold EventLoop_destroy els k) fd = (if fd \<ge> 0 \<and> (\<exists>el \<in> set els. fd \<in> set (loop_fds el)) then None else uget k fd)"
  by (induction els arbitrary: k) (auto simp: loop_destroy_open)

lemma empty_kernel: "(\<And>fd. uget k fd = None) \<Longrightarrow> k = []"
  by (cases k) (force dest: spec [where x = "fst (hd k)"])+

lemma destroy_closes_all:
  assumes "fds_owned sv"
  shows "snd (snd (GameServer_destroy sv)) = []"
proof -
  have stopped: "loop_fds (EventLoop_stop el) = loop_fds el" for el by (simp add: loop_fds_def EventLoop_stop_def)
  have served: "(\<exists>el \<in> set (sv_loops sv). fd \<in> set (loop_fds el)) \<longleftrightarrow> (\<exists>l. serves sv l fd)" for fd
    unfolding serves_def by (metis in_set_conv_nth)
  have "uget (snd (snd (GameServer_destroy sv))) fd =
      (if fd \<ge> 0 \<and> (\<exists>l. serves sv l fd) \<or> listens_on sv fd then None else uget (sv_kernel sv) fd)" for fd
    by (simp add: GameServer_destroy_def GameServer_stop_def Let_def loops_destroy_open Acceptor_destroy_def Acceptor_stop_def destroy_open
        stopped served listens_on_def Socket_valid_def) blast
  then have "uget (snd (snd (GameServer_destroy sv))) fd = None" for fd
    using fds_ownedD [OF assms, where fd = fd] by auto
  then show ?thesis by (rule empty_kernel)
qed

section \<open>The main theorem\<close>



end
