(* ===== verification/Spec2Isabelle.thy ===== *)
theory Spec2Isabelle
  imports Prelude Buffer Frame_Codec Connection Timer_Wheel Room Logic_Worker Game_Server Event_Loop Loop_Interleaving Socket Acceptor Server Threads Shutdown
begin

text \<open>
  MiniArena is a server for small battles between players, in C++20. This library models the
  implementation under \<open>src/src\<close>, component by component, and proves what makes each component correct.

  \<^bold>\<open>The program.\<close> A client connects over TCP. The acceptor thread numbers the connection and hands it to
  one of the I/O loops in turn. An I/O loop owns its connections: it reads bytes into a gap buffer, cuts
  them into frames, watches heartbeats with a timing wheel and writes what other threads have queued. The
  frames go to the game server, whose router looks up a handler by message id. Handlers work on the
  session manager (who is logged in on which connection), the match manager (a queue in Redis from which
  full groups are moved into rooms), the room manager, and the battle manager, which assigns each battle
  to a logic worker. A worker applies the room operations that other threads queued, and every 50 ms runs
  the tick engine over the commands of each room, broadcasts the state through an area-of-interest grid
  and gives up players who have been gone too long. Sessions are mirrored in Redis, accounts and results
  are in MySQL, both through pools of connections.

  \<^bold>\<open>Theories and sources.\<close>
  \<^item> \<open>Prelude\<close>: machine integers, hash tables as association lists without duplicate keys, computations that
    may fail, and the four interfaces that the components are measured against: \<open>machine\<close> (a state, events,
    an invariant that every admitted event keeps), \<open>handover_queue\<close> (threads push, one thread takes),
    \<open>simulation\<close> (a concrete machine and the abstract one it refines) and \<open>projection\<close> (a machine each of whose
    steps is several steps of another).
  \<^item> \<open>Buffer\<close>, \<open>Frame_Codec\<close>, \<open>Connection\<close>, \<open>Timer_Wheel\<close>, \<open>Event_Loop\<close>, \<open>Socket\<close>, \<open>Acceptor\<close>: \<open>src/src/network\<close>. The operations of a
    class have its name in front, as \<open>Connection_onReadable\<close>; a loop inside a function is a definition
    of its own, as \<open>decode_loop\<close>. \<open>Socket\<close> works against a table of the sockets that are open in the kernel.
    \<open>Loop_Interleaving\<close> is the thread of an I/O loop step by step between its locks, with the calls of other
    threads and the eventfd; \<open>Loop_Facts\<close> has what the server needs to know of an iteration.
  \<^item> \<open>Storage\<close>, \<open>Connection_Pool\<close>, \<open>Redis_Client\<close>, \<open>Mysql_Client\<close>: \<open>src/src/storage\<close>.
  \<^item> \<open>Float32\<close>, \<open>Command\<close>, \<open>Messages\<close>: the binary32 arithmetic the game uses, \<open>command.{h,cpp}\<close>, and the messages the
    server builds and parses.
  \<^item> \<open>Room\<close> (with the room manager), \<open>Aoi_Grid\<close>, \<open>Broadcaster\<close>, \<open>Tick_Engine\<close>, \<open>Logic_Worker\<close>, \<open>Session_Manager\<close>,
    \<open>Match_Manager\<close>, \<open>Battle_Manager\<close>, \<open>Game_Server\<close> (with the message router): the files of the same names in \<open>src/src/game\<close>.
  \<^item> \<open>Server\<close>: \<open>GameServer::start\<close>, \<open>stop\<close>, \<open>initStorage\<close>, \<open>initNetwork\<close>, \<open>main.cpp\<close>, and all threads together: the
    acceptor, the I/O loops with the callbacks into the game server, the timer thread and the workers are
    the steps of one machine (\<open>arena_step\<close>), and a message leaves the game server through the queue of a loop.
    \<open>Threads\<close> relates its runs to those of the sequential machine of \<open>Game_Server\<close>; \<open>Shutdown\<close> follows the descriptors through them and through the destructors.

  \<^bold>\<open>State and effects.\<close> An object is a record with the fields of the class, and a method a function that
  returns the new record. \<open>std::unordered_map\<close> is an association list; no theorem depends on its order
  except where the code iterates over it. Unsigned integers are words of their width and wrap around.
  \<open>int32_t\<close> values are integers together with a proof that they stay in range where the code computes with
  them. What C++ leaves undefined (an iterator used after its element was erased, a float out of range
  converted to an integer, a null pointer followed, a reply freed twice) is a fault value of its own,
  never an arbitrary result. An operation that talks to Redis or MySQL is a function from the store to
  a fault or a result and a new store.

  \<^bold>\<open>Parameters.\<close> What is not in the repository is an argument. \<open>env\<close> has the calls of hiredis and of the
  MySQL client and runs on an arbitrary world; \<open>codec\<close> has the protobuf functions; \<open>sys_read\<close>, \<open>sys_write\<close> and the
  events of \<open>epoll_wait\<close> are the kernel's answers; clocks and random session ids are inputs. Hypotheses on
  them are named and say only what is documented: \<open>healthy\<close> (Redis answers SET, SETEX and DEL with the documented
  kinds of reply), \<open>match_server\<close> (a Redis list is a list), \<open>sys_read_ok\<close> and \<open>sys_write_ok\<close> (the kernel moves no more bytes
  than asked). Each is shown to hold for a concrete instance.

  \<^bold>\<open>Threads.\<close> Components that only one thread touches, or that lock a mutex for the whole of an operation,
  are sequential machines. Where threads meet, the meeting point is a queue, and the theorems are about
  every sequence of pushes and takes: the pending operations and the command queue of a worker, the
  queues of an I/O loop. In \<open>Server\<close> the threads interleave freely, with steps as long as what a thread
  does between two such meetings: one accepted connection, one round of a loop, one pass, one operation, one tick. That a round may be taken
  as one step, although the loop gives its locks back within it, is the theorem of \<open>Loop_Interleaving\<close>.

  \<^bold>\<open>Loops.\<close> Loops are recursive functions with a termination proof. The loop of the matchmaker may run
  forever and is a partial function with the value \<open>None\<close> for not returning: it is shown to return for
  positive room sizes and not to return for others. The outer loops of the threads are lists of rounds.

  \<^bold>\<open>What is shown.\<close>
  \<^item> Network: the buffer is a byte queue; frames survive encoding and decoding; a stream of frames is
    delivered whole and in order however the kernel cuts it; the send queue is bounded; the wheel is a
    table of independent countdowns; the tables of an I/O loop agree; queued writes reach the send buffer
    in order; accepted connections go round the loops and the loads differ by at most one; a descriptor
    is open exactly as long as one socket owns it; the sockets of the whole server are the listening one
    and those of the loops, and its destruction closes them all; reading in pieces is the same as decoding at once.
  \<^item> Battles: damage dealt and taken, kills and deaths balance; hit points are what the damage left; no
    statistic overflows and no conversion is undefined as long as directions are numbers; the dead stay dead;
    replayed commands and skills on cooldown have no effect; the grid finds exactly the neighbours; queued
    room operations are applied once and in order.
  \<^item> Sessions, rooms and matches: sessions, players and connections correspond for every history and every
    behaviour of the storage; a login takes over from an older one; rooms keep their capacity and life
    cycle; matching ends and forms groups in the order of arrival; pooled connections are conserved.
  \<^item> The server: messages without a session have no effect; commands reach only the battle of their sender;
    the last ready player starts the battle on the right worker; the whole state stays consistent. Every
    interleaving of the threads is a sequential run of the game server; a route leads to the loop that has the connection, with an open descriptor, and a response
    reaches the client as the frame that was sent. The program starts exactly if both data bases answer.
  \<^item> Threads: rounds of a loop are atomic; operations queued for a worker are applied once and in order; a
    wake-up of a loop can be lost.
  \<^item> Errors: some theorems show where the code does not do what it means to: heartbeats that expire, disconnections and
    reconnections before and during a battle, rooms that never run, replies freed twice, directions that are not
    numbers, rooms that share a grid, room sizes that are not positive.

  \<^bold>\<open>Not modelled.\<close> The empty \<open>gateway.cpp\<close> and \<open>common.cpp\<close> and the type aliases of \<open>types.h\<close>; logging; the inside of system calls
  and of the libraries, whose answers are arguments; the scheduler: that a thread was created is a flag, and what
  it does is a list of steps. Destructors run after the last step of every thread; the detached threads of the I/O
  loops may in fact outlive the server, which is a finding of the reading, not a theorem.
\<close>

end
